(* ===== verification/Baton_Prelude.thy ===== *)
theory Baton_Prelude
  imports Main "HOL-Library.Word" "HOL-Library.Monad_Syntax" "HOL-Library.Signed_Division"
begin

text \<open>
  Shared vocabulary of the Batonlib development: addresses and pointers, the C++
  integer types the sources use, the conversions between them, and the generic
  lemmas on lists, options and words that several components need.

  \<^item> A pointer is an optional address, \<^term>\<open>None\<close> being \<open>NULL\<close>. Objects of one
    class live in one map from addresses to records, so a dangling pointer is an
    address outside the domain of its map.
  \<^item> A function that dereferences pointers returns an option: \<^term>\<open>None\<close> says that
    the C++ code dereferences \<open>NULL\<close> or a freed object, or does not return.
  \<^item> \<open>unsigned long long\<close> is \<open>64 word\<close>, \<open>int\<close> is \<^typ>\<open>int\<close> with the conversions to
    and from 32 and 64 bits written out.
\<close>

type_synonym addr = nat
type_synonym ptr = "nat option"
type_synonym u64 = "64 word"
type_synonym u32 = "32 word"

named_theorems mem_simps \<open>definitions of the memory accessors\<close>
named_theorems data_simps \<open>what an operation leaves unchanged\<close>

text \<open>Conversion of \<open>unsigned long long\<close> to \<open>int\<close>: the low 32 bits, read as two's complement.\<close>

definition int_of_u64 :: "u64 \<Rightarrow> int" where
  "int_of_u64 w = sint (ucast w :: u32)"

text \<open>Conversion of \<open>int\<close> to \<open>unsigned long long\<close>: modulo \<open>2 ^ 64\<close>.\<close>

definition u64_of_int :: "int \<Rightarrow> u64" where
  "u64_of_int i = word_of_int i"

text \<open>The largest value of \<open>int\<close>.\<close>

definition INT_MAX :: int where
  "INT_MAX = 2147483647"

lemma int_of_u64_small:
  assumes "unat w < 2147483648"
  shows "int_of_u64 w = int (unat w)"
proof -
  have w: "uint w < 2147483648"
    using assms unfolding uint_nat by linarith
  have u: "uint (ucast w :: u32) = uint w"
    using w by (simp add: unsigned_ucast_eq take_bit_int_eq_self)
  have "sint (ucast w :: u32) = signed_take_bit 31 (uint w)"
    by (simp add: sint_uint u)
  also have "\<dots> = uint w"
    using w by (intro signed_take_bit_int_eq_self) (auto intro: order_trans [OF _ uint_nonnegative])
  finally show ?thesis by (simp add: int_of_u64_def)
qed

lemma unat_u64_of_int:
  assumes "0 \<le> i" and "i < 2 ^ 64"
  shows "unat (u64_of_int i) = nat i"
  using assms by (simp add: u64_of_int_def take_bit_int_eq_self unsigned_of_int)

lemma unat_add_u64:
  fixes a b :: u64
  assumes "unat a + unat b < 2 ^ 64"
  shows "unat (a + b) = unat a + unat b"
  using assms unat_add_lem [of a b] by simp

lemma unat_sub_u64: "(b :: u64) \<le> a \<Longrightarrow> unat (a - b) = unat a - unat b"
  by (rule unat_sub)

text \<open>Rotation by a fixed offset is injective on a full turn.\<close>

lemma rotate_index_le:
  fixes a n :: nat
  assumes "i \<le> j" and "j < n" and "(a + i) mod n = (a + j) mod n"
  shows "i = j"
proof -
  have "n dvd (a + j) - (a + i)"
    using assms by (metis add_le_mono le_refl mod_eq_dvd_iff_nat)
  then have "n dvd j - i" by simp
  with assms show ?thesis by (meson diff_is_0_eq dual_order.antisym dvd_imp_le leD less_imp_diff_less not_gr_zero)
qed

lemma rotate_index_inj:
  fixes a n :: nat
  assumes "i < n" and "j < n" and "(a + i) mod n = (a + j) mod n"
  shows "i = j"
  using rotate_index_le [of i j n a] rotate_index_le [of j i n a] assms by (metis nat_le_linear)

text \<open>Vector access: an index out of range is a fault.\<close>

definition vec_at :: "'a list \<Rightarrow> nat \<Rightarrow> 'a option" where
  "vec_at xs i = (if i < length xs then Some (xs ! i) else None)"

lemma vec_at_Some [simp]: "i < length xs \<Longrightarrow> vec_at xs i = Some (xs ! i)"
  by (simp add: vec_at_def)

section \<open>State machines\<close>

text \<open>
  The contract that the step relations of the development keep: the invariant holds at the
  start and every step keeps it, so it holds in every reachable state.
\<close>

locale machine =
  fixes step :: "'s \<Rightarrow> 's \<Rightarrow> bool" and init :: "'s \<Rightarrow> bool" and inv :: "'s \<Rightarrow> bool"
  assumes inv_init: "init s \<Longrightarrow> inv s"
    and inv_step: "step s t \<Longrightarrow> inv s \<Longrightarrow> inv t"
begin

lemma inv_steps: "step\<^sup>*\<^sup>* s t \<Longrightarrow> inv s \<Longrightarrow> inv t"
  by (induction rule: rtranclp_induct) (auto intro: inv_step)

lemma inv_reach: "init s \<Longrightarrow> step\<^sup>*\<^sup>* s t \<Longrightarrow> inv t"
  using inv_steps inv_init by blast

end

text \<open>
  A forward simulation: every step of the machine, from a state that its invariant allows,
  is matched by a step of the specification \<open>astep\<close>, along the relation \<open>rel\<close>. Runs are then
  matched by runs, so what the specification keeps along its runs holds for the machine.
\<close>

locale simulation = machine step init inv
  for step :: "'s \<Rightarrow> 's \<Rightarrow> bool" and init and inv +
  fixes astep :: "'a \<Rightarrow> 'a \<Rightarrow> bool" and ainit :: "'a \<Rightarrow> bool" and rel :: "'s \<Rightarrow> 'a \<Rightarrow> bool"
  assumes sim_init: "init s \<Longrightarrow> \<exists>a. ainit a \<and> rel s a"
    and sim_step: "step s t \<Longrightarrow> inv s \<Longrightarrow> rel s a \<Longrightarrow> \<exists>b. astep a b \<and> rel t b"
begin

lemma sim_steps: "step\<^sup>*\<^sup>* s t \<Longrightarrow> inv s \<Longrightarrow> rel s a \<Longrightarrow> \<exists>b. astep\<^sup>*\<^sup>* a b \<and> rel t b"
proof (induction rule: rtranclp_induct)
  case base
  then show ?case by blast
next
  case (step t u)
  then obtain b where b: "astep\<^sup>*\<^sup>* a b" "rel t b" by blast
  with sim_step [OF step.hyps(2) inv_steps [OF step.hyps(1) step.prems(1)]] obtain b' where
    "astep b b'" "rel u b'" by blast
  with b show ?case by (meson rtranclp.rtrancl_into_rtrancl)
qed

lemma sim_reach: "init s \<Longrightarrow> step\<^sup>*\<^sup>* s t \<Longrightarrow> \<exists>a b. ainit a \<and> astep\<^sup>*\<^sup>* a b \<and> rel t b"
  using sim_init sim_steps inv_init by blast

end

text \<open>
  A bounded queue between senders and receivers, with the history of what went in and what
  came out. The channel and the thread pool are both of this kind.
\<close>

locale bounded_fifo = machine step init inv
  for step :: "'s \<Rightarrow> 's \<Rightarrow> bool" and init and inv +
  fixes ins outs queue :: "'s \<Rightarrow> 'a list" and capacity :: "'s \<Rightarrow> nat"
  assumes conserved: "inv s \<Longrightarrow> outs s @ queue s = ins s"
    and bounded: "inv s \<Longrightarrow> length (queue s) \<le> capacity s"
begin

lemma in_order: "init s \<Longrightarrow> step\<^sup>*\<^sup>* s t \<Longrightarrow> i < length (outs t) \<Longrightarrow> outs t ! i = ins t ! i"
  using conserved [OF inv_reach] by (metis nth_append)

lemma in_flight_bound: "init s \<Longrightarrow> step\<^sup>*\<^sup>* s t \<Longrightarrow> length (ins t) \<le> length (outs t) + capacity t"
  using conserved [OF inv_reach, of s t] bounded [OF inv_reach, of s t] by (metis add_left_mono length_append)

end

end
