(* ===== verification/Time_Link.thy ===== *)
theory Time_Link
  imports Baton_Prelude
begin

text \<open>
  The intrusive doubly linked lists of \<open>time_wheel.h\<close>: the structs \<open>time_item\<close> and
  \<open>time_link\<close>, a heap that holds them, and the list surgery that the sources write out
  in place: appending a node (in \<open>time_wheel::add_timeout\<close>, \<open>scheduler::event_loop\<close>
  and \<open>co_condition\<close>), moving a whole list to the end of another one
  (\<open>take_all_timeout\<close> and \<open>event_loop\<close>), popping the head (\<open>event_loop\<close>) and
  \<open>time_wheel::removeitem\<close>.

  The locale \<open>intrusive_lists\<close> is the contract of these operations: whatever the
  pointers do, each \<open>time_link\<close> stands for a list of nodes and the operations are the
  list operations. Its interpretation on the pointer programs is the refinement proof,
  and the time wheel, the condition variables and the event loop use only its facts.
\<close>

section \<open>Data\<close>

record time_item =
  ti_next :: ptr
  ti_prev :: ptr
  ti_link :: ptr
  ExpireTime :: u64
  process :: ptr
  ti_arg :: ptr
  ti_item :: ptr
  isremove :: bool

record time_link =
  tl_head :: ptr
  tl_tail :: ptr

record theap =
  titems :: "addr \<Rightarrow> time_item option"
  tlinks :: "addr \<Rightarrow> time_link option"

definition new_time_item :: "u64 \<Rightarrow> ptr \<Rightarrow> ptr \<Rightarrow> time_item" where
  "new_time_item ex_t func func_arg =
     \<lparr>ti_next = None, ti_prev = None, ti_link = None, ExpireTime = ex_t, process = func,
      ti_arg = func_arg, ti_item = None, isremove = False\<rparr>"

definition new_time_link :: time_link where
  "new_time_link = \<lparr>tl_head = None, tl_tail = None\<rparr>"

section \<open>Memory access\<close>

definition rd_item :: "ptr \<Rightarrow> theap \<Rightarrow> time_item option" where
  "rd_item p h = Option.bind p (titems h)"

definition rd_link :: "ptr \<Rightarrow> theap \<Rightarrow> time_link option" where
  "rd_link p h = Option.bind p (tlinks h)"

definition wr_item :: "ptr \<Rightarrow> (time_item \<Rightarrow> time_item) \<Rightarrow> theap \<Rightarrow> theap option" where
  "wr_item p f h = do {
     a \<leftarrow> p;
     t \<leftarrow> titems h a;
     Some (h\<lparr>titems := (titems h)(a \<mapsto> f t)\<rparr>)
   }"

definition wr_link :: "ptr \<Rightarrow> (time_link \<Rightarrow> time_link) \<Rightarrow> theap \<Rightarrow> theap option" where
  "wr_link p f h = do {
     a \<leftarrow> p;
     k \<leftarrow> tlinks h a;
     Some (h\<lparr>tlinks := (tlinks h)(a \<mapsto> f k)\<rparr>)
   }"

declare rd_item_def [mem_simps] rd_link_def [mem_simps] wr_item_def [mem_simps] wr_link_def [mem_simps]

section \<open>The list surgery of the sources\<close>

text \<open>Append a node at the tail (\<open>add_timeout\<close> and \<open>event_loop\<close> have these statements).\<close>

definition link_push_back :: "ptr \<Rightarrow> ptr \<Rightarrow> theap \<Rightarrow> theap option" where
  "link_push_back t_link item h = do {
     k \<leftarrow> rd_link t_link h;
     h \<leftarrow> (if tl_tail k \<noteq> None then do {
            h \<leftarrow> wr_item (tl_tail k) (\<lambda>t. t\<lparr>ti_next := item\<rparr>) h;
            h \<leftarrow> wr_item item (\<lambda>t. t\<lparr>ti_prev := tl_tail k\<rparr>) h;
            h \<leftarrow> wr_item item (\<lambda>t. t\<lparr>ti_next := None\<rparr>) h;
            wr_link t_link (\<lambda>k. k\<lparr>tl_tail := item\<rparr>) h
          } else do {
            h \<leftarrow> wr_link t_link (\<lambda>k. k\<lparr>tl_head := item\<rparr>) h;
            h \<leftarrow> wr_link t_link (\<lambda>k. k\<lparr>tl_tail := item\<rparr>) h;
            h \<leftarrow> wr_item item (\<lambda>t. t\<lparr>ti_next := None\<rparr>) h;
            wr_item item (\<lambda>t. t\<lparr>ti_prev := None\<rparr>) h
          });
     wr_item item (\<lambda>t. t\<lparr>ti_link := t_link\<rparr>) h
   }"

text \<open>The loop \<open>while(node)\<close> that redirects the \<open>t_link\<close> of every node of a list.\<close>

partial_function (option) link_redirect :: "ptr \<Rightarrow> ptr \<Rightarrow> theap \<Rightarrow> theap option" where
  "link_redirect node l h =
     (if node = None then Some h
      else do {
        h \<leftarrow> wr_item node (\<lambda>t. t\<lparr>ti_link := l\<rparr>) h;
        t \<leftarrow> rd_item node h;
        link_redirect (ti_next t) l h
      })"

text \<open>Move all nodes of the list \<open>src\<close> behind the nodes of \<open>dst\<close>.\<close>

definition link_splice :: "ptr \<Rightarrow> ptr \<Rightarrow> theap \<Rightarrow> theap option" where
  "link_splice src dst h = do {
     s \<leftarrow> rd_link src h;
     if tl_head s = None then Some h
     else do {
       h \<leftarrow> link_redirect (tl_head s) dst h;
       let node = tl_head s;
       d \<leftarrow> rd_link dst h;
       h \<leftarrow> (if tl_tail d \<noteq> None then do {
              h \<leftarrow> wr_item node (\<lambda>t. t\<lparr>ti_prev := tl_tail d\<rparr>) h;
              h \<leftarrow> wr_item (tl_tail d) (\<lambda>t. t\<lparr>ti_next := node\<rparr>) h;
              wr_link dst (\<lambda>k. k\<lparr>tl_tail := tl_tail s\<rparr>) h
            } else do {
              h \<leftarrow> wr_link dst (\<lambda>k. k\<lparr>tl_tail := tl_tail s\<rparr>) h;
              wr_link dst (\<lambda>k. k\<lparr>tl_head := tl_head s\<rparr>) h
            });
       h \<leftarrow> wr_link src (\<lambda>k. k\<lparr>tl_head := None\<rparr>) h;
       wr_link src (\<lambda>k. k\<lparr>tl_tail := None\<rparr>) h
     }
   }"

text \<open>\<open>time_wheel::removeitem\<close>.\<close>

definition removeitem :: "ptr \<Rightarrow> theap \<Rightarrow> theap option" where
  "removeitem item h = do {
     t \<leftarrow> rd_item item h;
     let link = ti_link t;
     k \<leftarrow> rd_link link h;
     h \<leftarrow> (if item = tl_head k then do {
            h \<leftarrow> wr_link link (\<lambda>k. k\<lparr>tl_head := ti_next t\<rparr>) h;
            (if ti_next t \<noteq> None then wr_item (ti_next t) (\<lambda>t. t\<lparr>ti_prev := None\<rparr>) h else Some h)
          } else if ti_prev t \<noteq> None then wr_item (ti_prev t) (\<lambda>u. u\<lparr>ti_next := ti_next t\<rparr>) h
          else Some h);
     t \<leftarrow> rd_item item h;
     k \<leftarrow> rd_link link h;
     h \<leftarrow> (if item = tl_tail k then do {
            h \<leftarrow> wr_link link (\<lambda>k. k\<lparr>tl_tail := ti_prev t\<rparr>) h;
            (if ti_prev t \<noteq> None then wr_item (ti_prev t) (\<lambda>t. t\<lparr>ti_next := None\<rparr>) h else Some h)
          } else wr_item (ti_next t) (\<lambda>u. u\<lparr>ti_prev := ti_prev t\<rparr>) h);
     h \<leftarrow> wr_item item (\<lambda>t. t\<lparr>ti_next := None, ti_prev := None\<rparr>) h;
     wr_item item (\<lambda>t. t\<lparr>ti_link := None\<rparr>) h
   }"

text \<open>
  Pop the head of the active list (\<open>scheduler::event_loop\<close>): the popped node and the
  new heap. The caller has checked that the list is not empty.
\<close>

definition link_pop :: "ptr \<Rightarrow> theap \<Rightarrow> (ptr \<times> theap) option" where
  "link_pop active h = do {
     k \<leftarrow> rd_link active h;
     let temp_item = tl_head k;
     h \<leftarrow> (if tl_head k = tl_tail k
          then wr_link active (\<lambda>k. k\<lparr>tl_head := None, tl_tail := None\<rparr>) h
          else do {
            t \<leftarrow> rd_item (tl_head k) h;
            wr_link active (\<lambda>k. k\<lparr>tl_head := ti_next t\<rparr>) h
          });
     h \<leftarrow> wr_item temp_item (\<lambda>t. t\<lparr>ti_next := None, ti_prev := None\<rparr>) h;
     h \<leftarrow> wr_item temp_item (\<lambda>t. t\<lparr>ti_link := None\<rparr>) h;
     k \<leftarrow> rd_link active h;
     h \<leftarrow> (if tl_head k \<noteq> None then wr_item (tl_head k) (\<lambda>t. t\<lparr>ti_prev := None\<rparr>) h else Some h);
     Some (temp_item, h)
   }"

text \<open>\<open>new\<close> at a fresh address and \<open>delete\<close>; deleting a freed object is a fault.\<close>

definition new_item :: "addr \<Rightarrow> time_item \<Rightarrow> theap \<Rightarrow> theap" where
  "new_item a t h = h\<lparr>titems := (titems h)(a \<mapsto> t)\<rparr>"

definition new_link :: "addr \<Rightarrow> theap \<Rightarrow> theap" where
  "new_link a h = h\<lparr>tlinks := (tlinks h)(a \<mapsto> new_time_link)\<rparr>"

definition delete_item :: "ptr \<Rightarrow> theap \<Rightarrow> theap option" where
  "delete_item p h = (case p of None \<Rightarrow> Some h
     | Some a \<Rightarrow> do { t \<leftarrow> titems h a; Some (h\<lparr>titems := (titems h)(a := None)\<rparr>) })"

section \<open>What the pointers stand for\<close>

text \<open>
  \<open>dseg m l p xs q\<close>: the nodes \<open>xs\<close> are linked in this order, in both directions,
  between \<open>p\<close> and \<open>q\<close>, and each carries \<open>l\<close> as its \<open>t_link\<close>. \<open>dll h l xs\<close>:
  the list object \<open>l\<close> holds exactly \<open>xs\<close>. \<open>reps h L\<close>: every list object \<open>l\<close>
  with \<open>L l = Some xs\<close> holds \<open>xs\<close>.
\<close>

definition hd_ptr :: "addr list \<Rightarrow> ptr \<Rightarrow> ptr" where
  "hd_ptr xs q = (case xs of [] \<Rightarrow> q | x # _ \<Rightarrow> Some x)"

definition last_ptr :: "addr list \<Rightarrow> ptr \<Rightarrow> ptr" where
  "last_ptr xs p = (if xs = [] then p else Some (last xs))"

lemma hd_ptr_simps [simp]: "hd_ptr [] q = q" "hd_ptr (x # xs) q = Some x"
  "hd_ptr (xs @ ys) q = hd_ptr xs (hd_ptr ys q)"
  by (cases xs; simp add: hd_ptr_def)+

lemma last_ptr_simps [simp]: "last_ptr [] p = p" "last_ptr (x # xs) p = last_ptr xs (Some x)"
  "last_ptr (xs @ ys) p = last_ptr ys (last_ptr xs p)"
  by (simp_all add: last_ptr_def)

fun dseg :: "(addr \<Rightarrow> time_item option) \<Rightarrow> addr \<Rightarrow> ptr \<Rightarrow> addr list \<Rightarrow> ptr \<Rightarrow> bool" where
  "dseg m l p [] q \<longleftrightarrow> True"
| "dseg m l p (x # xs) q \<longleftrightarrow>
     (\<exists>t. m x = Some t \<and> ti_prev t = p \<and> ti_next t = hd_ptr xs q \<and> ti_link t = Some l) \<and>
     dseg m l (Some x) xs q"

definition dll :: "theap \<Rightarrow> addr \<Rightarrow> addr list \<Rightarrow> bool" where
  "dll h l xs \<longleftrightarrow>
     tlinks h l = Some \<lparr>tl_head = hd_ptr xs None, tl_tail = last_ptr xs None\<rparr> \<and>
     distinct xs \<and> dseg (titems h) l None xs None"

lemma dseg_append [simp]:
  "dseg m l p (xs @ ys) q \<longleftrightarrow> dseg m l p xs (hd_ptr ys q) \<and> dseg m l (last_ptr xs p) ys q"
  by (induction xs arbitrary: p) auto

lemma dseg_cong:
  "(\<And>x. x \<in> set xs \<Longrightarrow> m' x = m x) \<Longrightarrow> dseg m' l p xs q = dseg m l p xs q"
  by (induction xs arbitrary: p) auto

lemma dseg_upd [simp]: "a \<notin> set xs \<Longrightarrow> dseg (m(a := v)) l p xs q = dseg m l p xs q"
  by (rule dseg_cong) auto

lemma dseg_link: "dseg m l p xs q \<Longrightarrow> x \<in> set xs \<Longrightarrow> \<exists>t. m x = Some t \<and> ti_link t = Some l"
  by (induction xs arbitrary: p) auto

definition reps :: "theap \<Rightarrow> (addr \<Rightarrow> addr list option) \<Rightarrow> bool" where
  "reps h L \<longleftrightarrow> (\<forall>l xs. L l = Some xs \<longrightarrow> dll h l xs)"

definition item_data :: "time_item \<Rightarrow> u64 \<times> ptr \<times> ptr \<times> ptr \<times> bool" where
  "item_data t = (ExpireTime t, process t, ti_arg t, ti_item t, isremove t)"

definition data_of :: "theap \<Rightarrow> addr \<Rightarrow> (u64 \<times> ptr \<times> ptr \<times> ptr \<times> bool) option" where
  "data_of h a = map_option item_data (titems h a)"

definition unlinked :: "theap \<Rightarrow> addr \<Rightarrow> bool" where
  "unlinked h a \<longleftrightarrow> (\<exists>t. titems h a = Some t \<and> ti_link t = None)"

lemma dll_other:
  assumes "dll h l' ys" and "\<And>x. x \<in> set ys \<Longrightarrow> titems h' x = titems h x" and "tlinks h' l' = tlinks h l'"
  shows "dll h' l' ys"
  using assms dseg_cong [of ys "titems h'" "titems h" l' None None] by (simp add: dll_def)

lemma dll_disjoint: "dll h l xs \<Longrightarrow> dll h l' ys \<Longrightarrow> l \<noteq> l' \<Longrightarrow> x \<in> set xs \<Longrightarrow> x \<notin> set ys"
  by (fastforce simp: dll_def dest: dseg_link)

definition frame :: "theap \<Rightarrow> theap \<Rightarrow> addr set \<Rightarrow> addr set \<Rightarrow> bool" where
  "frame h h' A K \<longleftrightarrow>
     (\<forall>x. x \<notin> A \<longrightarrow> titems h' x = titems h x) \<and> (\<forall>l. l \<notin> K \<longrightarrow> tlinks h' l = tlinks h l) \<and>
     data_of h' = data_of h"

lemmas surgery_simps = Let_def dll_def mem_simps fun_eq_iff data_of_def item_data_def frame_def

lemma reps_upd:
  assumes "reps h L" and "dll h' l xs" and "frame h h' A {l}"
    and "\<And>l' ys. L l' = Some ys \<Longrightarrow> l' \<noteq> l \<Longrightarrow> set ys \<inter> A = {}"
  shows "reps h' (L(l \<mapsto> xs))"
  unfolding reps_def
proof (intro allI impI)
  fix l' ys assume "(L(l \<mapsto> xs)) l' = Some ys"
  then show "dll h' l' ys"
    using assms dll_other [of h l' ys h'] by (fastforce simp: reps_def frame_def split: if_splits)
qed

lemma push_dll:
  assumes "dll h l xs" and "titems h i = Some t" and "i \<notin> set xs"
  shows "\<exists>h'. link_push_back (Some l) (Some i) h = Some h' \<and> dll h' l (xs @ [i]) \<and>
     frame h h' (insert i (set xs)) {l}"
proof (cases xs rule: rev_cases)
  case Nil
  with assms show ?thesis by (simp add: surgery_simps link_push_back_def)
next
  case (snoc ys y)
  with assms show ?thesis by (auto simp: surgery_simps link_push_back_def)
qed

lemma remove_dll:
  assumes "dll h l (xs @ i # ys)"
  shows "\<exists>h'. removeitem (Some i) h = Some h' \<and> dll h' l (xs @ ys) \<and> unlinked h' i \<and>
     frame h h' (set (xs @ i # ys)) {l}"
proof (cases xs rule: rev_cases; cases ys)
  assume "xs = []" "ys = []"
  with assms show ?thesis by (auto simp: surgery_simps removeitem_def unlinked_def)
next
  fix y ys' assume "xs = []" "ys = y # ys'"
  with assms show ?thesis by (cases ys' rule: rev_cases) (auto simp: surgery_simps removeitem_def unlinked_def)
next
  fix xs' x assume "xs = xs' @ [x]" "ys = []"
  with assms show ?thesis by (cases xs') (auto simp: surgery_simps removeitem_def unlinked_def)
next
  fix xs' x y ys' assume "xs = xs' @ [x]" "ys = y # ys'"
  with assms show ?thesis by (cases xs'; cases ys' rule: rev_cases) (auto simp: surgery_simps removeitem_def unlinked_def)
qed

lemma pop_dll:
  assumes "dll h l (x # xs)"
  shows "\<exists>h'. link_pop (Some l) h = Some (Some x, h') \<and> dll h' l xs \<and> unlinked h' x \<and>
     frame h h' (set (x # xs)) {l}"
proof (cases xs)
  case Nil
  with assms show ?thesis by (auto simp: surgery_simps link_pop_def unlinked_def)
next
  case (Cons y ys)
  with assms show ?thesis
   by (cases ys rule: rev_cases) (auto simp: surgery_simps link_pop_def unlinked_def)
qed

lemma redirect_dseg:
  assumes "dseg (titems h) l p xs None" and "distinct xs"
  shows "\<exists>h'. link_redirect (hd_ptr xs None) (Some d) h = Some h' \<and> dseg (titems h') d p xs None \<and>
     frame h h' (set xs) {}"
  using assms
proof (induction xs arbitrary: h p)
  case Nil
  then show ?case by (simp add: link_redirect.simps frame_def)
next
  case (Cons x xs)
  from Cons.prems(1) obtain t where t: "titems h x = Some t" "ti_prev t = p" "ti_next t = hd_ptr xs None"
    and rest: "dseg (titems h) l (Some x) xs None"
    by auto
  define h1 where "h1 = h\<lparr>titems := (titems h)(x \<mapsto> t\<lparr>ti_link := Some d\<rparr>)\<rparr>"
  from rest Cons.prems(2) have "dseg (titems h1) l (Some x) xs None" by (simp add: h1_def)
  with Cons.IH Cons.prems(2) obtain h' where h': "link_redirect (hd_ptr xs None) (Some d) h1 = Some h'"
    "dseg (titems h') d (Some x) xs None" "frame h1 h' (set xs) {}"
    by (metis distinct.simps(2))
  have "titems h' x = Some (t\<lparr>ti_link := Some d\<rparr>)"
    using h'(3) Cons.prems(2) by (simp add: frame_def h1_def)
  moreover have "frame h h' (set (x # xs)) {}"
    using h'(3) t by (auto simp: frame_def h1_def fun_eq_iff data_of_def item_data_def)
  moreover have "link_redirect (hd_ptr (x # xs) None) (Some d) h = Some h'"
    using h'(1) t by (subst link_redirect.simps) (simp add: mem_simps h1_def)
  ultimately show ?case using h'(2) t by auto
qed

lemma splice_dll:
  assumes "dll h s xs" and "dll h d ys" and "s \<noteq> d"
  shows "\<exists>h'. link_splice (Some s) (Some d) h = Some h' \<and> dll h' s [] \<and> dll h' d (ys @ xs) \<and>
     frame h h' (set xs \<union> set ys) {s, d}"
proof (cases xs)
  case Nil
  with assms show ?thesis by (simp add: link_splice_def mem_simps dll_def frame_def)
next
  case (Cons x xs')
  have disj: "set xs \<inter> set ys = {}" using dll_disjoint [OF assms(1,2,3)] by blast
  from assms(1) have "dseg (titems h) s None xs None" and "distinct xs" by (auto simp: dll_def)
  from redirect_dseg [OF this, of d] obtain h1 where
    h1: "link_redirect (hd_ptr xs None) (Some d) h = Some h1" "dseg (titems h1) d None xs None"
      "frame h h1 (set xs) {}" by blast
  have ys: "dseg (titems h1) d None ys None" and l1: "tlinks h1 = tlinks h"
    using assms(2) h1(3) disj dseg_cong [of ys "titems h1" "titems h" d None None]
    by (auto simp: dll_def frame_def fun_eq_iff)
  have "\<exists>h'. link_splice (Some s) (Some d) h = Some h' \<and> dll h' s [] \<and> dll h' d (ys @ xs) \<and>
     frame h1 h' (set xs \<union> set ys) {s, d}"
  proof (cases ys rule: rev_cases)
    case Nil
    with assms h1(1,2) l1 Cons show ?thesis
      by (auto simp: link_splice_def surgery_simps)
  next
    case (snoc zs z)
    with assms h1(1,2) l1 Cons ys disj show ?thesis
      by (auto simp: link_splice_def surgery_simps)
  qed
  with h1(3) show ?thesis by (auto simp: frame_def)
qed

section \<open>The contract\<close>

locale intrusive_lists =
  fixes lists :: "'h \<Rightarrow> (addr \<Rightarrow> addr list option) \<Rightarrow> bool"
    and node :: "'h \<Rightarrow> addr \<Rightarrow> 'd option"
    and free :: "'h \<Rightarrow> addr \<Rightarrow> bool"
    and push :: "ptr \<Rightarrow> ptr \<Rightarrow> 'h \<Rightarrow> 'h option"
    and remove :: "ptr \<Rightarrow> 'h \<Rightarrow> 'h option"
    and splice :: "ptr \<Rightarrow> ptr \<Rightarrow> 'h \<Rightarrow> 'h option"
    and pop :: "ptr \<Rightarrow> 'h \<Rightarrow> (ptr \<times> 'h) option"
  assumes free_not_listed: "lists h L \<Longrightarrow> free h i \<Longrightarrow> L l = Some xs \<Longrightarrow> i \<notin> set xs"
    and lists_disjoint: "lists h L \<Longrightarrow> L l = Some xs \<Longrightarrow> L l' = Some ys \<Longrightarrow> l \<noteq> l' \<Longrightarrow> set xs \<inter> set ys = {}"
    and lists_distinct: "lists h L \<Longrightarrow> L l = Some xs \<Longrightarrow> distinct xs"
    and push_ok: "lists h L \<Longrightarrow> L l = Some xs \<Longrightarrow> free h i \<Longrightarrow>
      \<exists>h'. push (Some l) (Some i) h = Some h' \<and> lists h' (L(l \<mapsto> xs @ [i])) \<and>
        node h' = node h \<and> free h' = (free h)(i := False)"
    and remove_ok: "lists h L \<Longrightarrow> L l = Some (xs @ i # ys) \<Longrightarrow>
      \<exists>h'. remove (Some i) h = Some h' \<and> lists h' (L(l \<mapsto> xs @ ys)) \<and>
        node h' = node h \<and> free h' = (free h)(i := True)"
    and splice_ok: "lists h L \<Longrightarrow> L s = Some xs \<Longrightarrow> L d = Some ys \<Longrightarrow> s \<noteq> d \<Longrightarrow>
      \<exists>h'. splice (Some s) (Some d) h = Some h' \<and> lists h' (L(s \<mapsto> [], d \<mapsto> ys @ xs)) \<and>
        node h' = node h \<and> free h' = free h"
    and pop_ok: "lists h L \<Longrightarrow> L l = Some (x # xs) \<Longrightarrow>
      \<exists>h'. pop (Some l) h = Some (Some x, h') \<and> lists h' (L(l \<mapsto> xs)) \<and>
        node h' = node h \<and> free h' = (free h)(x := True)"
begin

lemma remove_member:
  assumes "lists h L" and "L l = Some xs" and "i \<in> set xs"
  shows "\<exists>h'. remove (Some i) h = Some h' \<and> lists h' (L(l \<mapsto> remove1 i xs)) \<and>
    node h' = node h \<and> free h' = (free h)(i := True)"
proof -
  from assms(3) obtain ys zs where xs: "xs = ys @ i # zs" and "i \<notin> set ys"
    by (meson split_list_first)
  then have "remove1 i xs = ys @ zs" by (simp add: remove1_append)
  with remove_ok [of h L l ys i zs] assms(1,2) xs show ?thesis by simp
qed

end

lemma free_frame:
  assumes "frame h h' A K" and "\<And>x. x \<in> A \<Longrightarrow> unlinked h' x = Q x" and "\<And>x. x \<notin> A \<Longrightarrow> unlinked h x = Q x"
  shows "unlinked h' = Q"
proof
  fix x show "unlinked h' x = Q x"
    using assms by (cases "x \<in> A") (auto simp: frame_def unlinked_def)
qed

lemma dll_not_unlinked: "dll h l xs \<Longrightarrow> x \<in> set xs \<Longrightarrow> \<not> unlinked h x"
  by (auto simp: dll_def unlinked_def dest: dseg_link)

lemma reps_dll: "reps h L \<Longrightarrow> L l = Some xs \<Longrightarrow> dll h l xs"
  by (simp add: reps_def)

lemma reps_disjoint: "reps h L \<Longrightarrow> L l = Some xs \<Longrightarrow> L l' = Some ys \<Longrightarrow> l \<noteq> l' \<Longrightarrow> set xs \<inter> set ys = {}"
  by (meson dll_disjoint disjoint_iff reps_dll)

lemma reps_push:
  assumes "reps h L" and "L l = Some xs" and "unlinked h i"
  shows "\<exists>h'. link_push_back (Some l) (Some i) h = Some h' \<and> reps h' (L(l \<mapsto> xs @ [i])) \<and>
     data_of h' = data_of h \<and> unlinked h' = (unlinked h)(i := False)"
proof -
  have d: "dll h l xs" using assms(1,2) by (rule reps_dll)
  have i: "\<And>l ys. L l = Some ys \<Longrightarrow> i \<notin> set ys"
    using assms(1,3) by (meson dll_not_unlinked reps_dll)
  from assms(3) obtain t where "titems h i = Some t" by (auto simp: unlinked_def)
  with push_dll [OF d] i assms(2) obtain h' where h': "link_push_back (Some l) (Some i) h = Some h'"
    "dll h' l (xs @ [i])" "frame h h' (insert i (set xs)) {l}" by blast
  have "reps h' (L(l \<mapsto> xs @ [i]))"
  proof (rule reps_upd [OF assms(1) h'(2,3)])
    fix l' ys assume "L l' = Some ys" and "l' \<noteq> l"
    then show "set ys \<inter> insert i (set xs) = {}"
      using i reps_disjoint [OF assms(1) _ assms(2)] by (metis Int_insert_right_if0)
  qed
  moreover have "unlinked h' = (unlinked h)(i := False)"
    using h'(3) dll_not_unlinked [OF h'(2)] dll_not_unlinked [OF d]
    by (rule_tac free_frame) auto
  ultimately show ?thesis using h' by (auto simp: frame_def)
qed

lemma reps_remove:
  assumes "reps h L" and "L l = Some (xs @ i # ys)"
  shows "\<exists>h'. removeitem (Some i) h = Some h' \<and> reps h' (L(l \<mapsto> xs @ ys)) \<and>
     data_of h' = data_of h \<and> unlinked h' = (unlinked h)(i := True)"
proof -
  have d: "dll h l (xs @ i # ys)" using assms by (rule reps_dll)
  from remove_dll [OF d] obtain h' where h': "removeitem (Some i) h = Some h'"
    "dll h' l (xs @ ys)" "unlinked h' i" "frame h h' (set (xs @ i # ys)) {l}" by blast
  have "reps h' (L(l \<mapsto> xs @ ys))"
    by (rule reps_upd [OF assms(1) h'(2,4) reps_disjoint [OF assms(1) _ assms(2)]])
  moreover have "unlinked h' = (unlinked h)(i := True)"
    using h'(4) dll_not_unlinked [OF h'(2)] dll_not_unlinked [OF d] h'(3)
    by (rule_tac free_frame) auto
  ultimately show ?thesis using h' by (auto simp: frame_def)
qed

lemma reps_pop:
  assumes "reps h L" and "L l = Some (x # xs)"
  shows "\<exists>h'. link_pop (Some l) h = Some (Some x, h') \<and> reps h' (L(l \<mapsto> xs)) \<and>
     data_of h' = data_of h \<and> unlinked h' = (unlinked h)(x := True)"
proof -
  have d: "dll h l (x # xs)" using assms by (rule reps_dll)
  from pop_dll [OF d] obtain h' where h': "link_pop (Some l) h = Some (Some x, h')"
    "dll h' l xs" "unlinked h' x" "frame h h' (set (x # xs)) {l}" by blast
  have "reps h' (L(l \<mapsto> xs))"
    by (rule reps_upd [OF assms(1) h'(2,4) reps_disjoint [OF assms(1) _ assms(2)]])
  moreover have "unlinked h' = (unlinked h)(x := True)"
    using h'(4) dll_not_unlinked [OF h'(2)] dll_not_unlinked [OF d] h'(3)
    by (rule_tac free_frame) auto
  ultimately show ?thesis using h' by (auto simp: frame_def)
qed

lemma reps_splice:
  assumes "reps h L" and "L s = Some xs" and "L d = Some ys" and "s \<noteq> d"
  shows "\<exists>h'. link_splice (Some s) (Some d) h = Some h' \<and> reps h' (L(s \<mapsto> [], d \<mapsto> ys @ xs)) \<and>
     data_of h' = data_of h \<and> unlinked h' = unlinked h"
proof -
  have ds: "dll h s xs" and dd: "dll h d ys" using assms(1-3) by (auto intro: reps_dll)
  from splice_dll [OF this assms(4)] obtain h' where
    h': "link_splice (Some s) (Some d) h = Some h'" "dll h' s []" "dll h' d (ys @ xs)"
      "frame h h' (set xs \<union> set ys) {s, d}" by blast
  have "reps h' (L(s \<mapsto> [], d \<mapsto> ys @ xs))"
    unfolding reps_def
  proof (intro allI impI)
    fix l zs assume l: "(L(s \<mapsto> [], d \<mapsto> ys @ xs)) l = Some zs"
    show "dll h' l zs"
    proof (cases "l = s \<or> l = d")
      case True
      with l h'(2,3) assms(4) show ?thesis by (auto split: if_splits)
    next
      case False
      with l have "L l = Some zs" by simp
      with False assms have "set zs \<inter> (set xs \<union> set ys) = {}"
        by (metis Int_Un_distrib Un_empty reps_disjoint)
      with False \<open>L l = Some zs\<close> h'(4) assms(1) show ?thesis
        by (intro dll_other [of h l zs h']) (auto simp: frame_def intro: reps_dll)
    qed
  qed
  moreover have "unlinked h' = unlinked h"
    using h'(4) dll_not_unlinked [OF h'(3)] dll_not_unlinked [OF dd] dll_not_unlinked [OF ds]
    by (rule_tac free_frame) auto
  ultimately show ?thesis using h' by (auto simp: frame_def)
qed

interpretation tl: intrusive_lists reps data_of unlinked link_push_back removeitem link_splice link_pop
proof
  fix h L i l xs
  show "reps h L \<Longrightarrow> unlinked h i \<Longrightarrow> L l = Some xs \<Longrightarrow> i \<notin> set xs"
    by (meson dll_not_unlinked reps_dll)
  show "reps h L \<Longrightarrow> L l = Some xs \<Longrightarrow> distinct xs"
    by (simp add: reps_def dll_def)
qed (fact reps_disjoint reps_push reps_remove reps_splice reps_pop)+

section \<open>Allocation and data\<close>

lemma reps_same_items:
  assumes "reps h L" and "\<And>l xs x. L l = Some xs \<Longrightarrow> x \<in> set xs \<Longrightarrow> titems h' x = titems h x"
    and "tlinks h' = tlinks h"
  shows "reps h' L"
  using assms dll_other unfolding reps_def by metis

lemma reps_new_item: "reps h L \<Longrightarrow> titems h a = None \<Longrightarrow> reps (new_item a t h) L"
  by (rule reps_same_items) (fastforce simp: new_item_def dll_def dest: reps_dll dseg_link)+

lemma reps_new_link: "reps h L \<Longrightarrow> L a = None \<Longrightarrow> reps (new_link a h) (L(a \<mapsto> []))"
  by (auto simp: reps_def dll_def new_link_def new_time_link_def)

lemma reps_delete_item:
  assumes "reps h L" and "unlinked h a"
  shows "\<exists>h'. delete_item (Some a) h = Some h' \<and> reps h' L \<and>
     data_of h' = (data_of h)(a := None) \<and> unlinked h' = (unlinked h)(a := False)"
proof -
  from assms(2) obtain t where t: "titems h a = Some t" by (auto simp: unlinked_def)
  let ?h = "h\<lparr>titems := (titems h)(a := None)\<rparr>"
  have "reps ?h L"
    using assms(1) by (rule reps_same_items) (auto dest: tl.free_not_listed [OF assms])
  then show ?thesis using t by (auto simp: delete_item_def data_of_def unlinked_def fun_eq_iff)
qed

text \<open>Writing a data field of a node leaves the lists alone.\<close>

lemma dseg_touch:
  assumes "m a = Some t" and "ti_next t' = ti_next t" "ti_prev t' = ti_prev t" "ti_link t' = ti_link t"
  shows "dseg (m(a \<mapsto> t')) l p xs q = dseg m l p xs q"
  using assms by (induction xs arbitrary: p) auto

lemma reps_touch:
  assumes "reps h L" and "titems h a = Some t"
    and "ti_next (f t) = ti_next t" "ti_prev (f t) = ti_prev t" "ti_link (f t) = ti_link t"
  shows "\<exists>h'. wr_item (Some a) f h = Some h' \<and> reps h' L \<and>
     data_of h' = (data_of h)(a \<mapsto> item_data (f t)) \<and> unlinked h' = unlinked h"
  using assms dseg_touch [of "titems h" a t "f t", OF assms(2-5)]
  by (auto simp: wr_item_def reps_def dll_def data_of_def unlinked_def fun_eq_iff)

section \<open>Properties\<close>

text \<open>
  A concrete heap for the witnesses: the list object 7 holds the nodes 1, 2, 3 and the
  list object 8 holds the node 4.
\<close>

definition node3 :: "ptr \<Rightarrow> ptr \<Rightarrow> ptr \<Rightarrow> time_item" where
  "node3 n p l = (new_time_item 5 None None)\<lparr>ti_next := n, ti_prev := p, ti_link := l\<rparr>"

definition heap3 :: theap where
  "heap3 = \<lparr>titems = [1 \<mapsto> node3 (Some 2) None (Some 7), 2 \<mapsto> node3 (Some 3) (Some 1) (Some 7),
       3 \<mapsto> node3 None (Some 2) (Some 7), 4 \<mapsto> node3 None None (Some 8), 5 \<mapsto> node3 None None None],
     tlinks = [7 \<mapsto> \<lparr>tl_head = Some 1, tl_tail = Some 3\<rparr>, 8 \<mapsto> \<lparr>tl_head = Some 4, tl_tail = Some 4\<rparr>]\<rparr>"

lemma heap3_reps: "reps heap3 [7 \<mapsto> [1, 2, 3], 8 \<mapsto> [4]]"
  by (auto simp: reps_def dll_def heap3_def node3_def new_time_item_def)

text \<open>
  C16. \<open>time_wheel::removeitem\<close> on a node of a list unlinks exactly this node: it returns
  without a bad dereference, the list keeps its other nodes in their order, every other
  list is untouched, no node loses its data, and the node is marked as unlinked
  (\<open>t_link == NULL\<close>).
\<close>

theorem removeitem_unlinks:
  assumes "reps h L" and "L l = Some xs" and "i \<in> set xs"
  shows "\<exists>h'. removeitem (Some i) h = Some h' \<and> reps h' (L(l \<mapsto> remove1 i xs)) \<and>
     data_of h' = data_of h \<and> unlinked h' = (unlinked h)(i := True)"
  using assms by (rule tl.remove_member)

theorem removeitem_unlinks_witness:
  "\<exists>h'. removeitem (Some 2) heap3 = Some h' \<and> reps h' [7 \<mapsto> [1, 3], 8 \<mapsto> [4]]"
  using removeitem_unlinks [OF heap3_reps, of 7 "[1, 2, 3]" 2] by (auto simp: fun_upd_twist)

text \<open>
  \<open>time_wheel::removeitem\<close> dereferences \<open>item->t_link\<close> without a check: on a node
  that is in no list it always faults.
\<close>

lemma removeitem_unlinked_faults:
  assumes "unlinked h i"
  shows "removeitem (Some i) h = None"
  using assms by (auto simp: unlinked_def removeitem_def mem_simps)

text \<open>
  C17. Moving the list \<open>src\<close> behind \<open>dst\<close> (the loop body of \<open>take_all_timeout\<close>, the
  merge of the timeout list into the active list in \<open>event_loop\<close>) always terminates
  without a fault, empties \<open>src\<close>, appends its nodes in order, and redirects the \<open>t_link\<close>
  of every moved node, so that a later \<open>removeitem\<close> finds the right list.
\<close>

theorem link_splice_appends:
  assumes "reps h L" and "L s = Some xs" and "L d = Some ys" and "s \<noteq> d"
  shows "\<exists>h'. link_splice (Some s) (Some d) h = Some h' \<and> reps h' (L(s \<mapsto> [], d \<mapsto> ys @ xs)) \<and>
     data_of h' = data_of h \<and>
     (\<forall>x \<in> set xs. \<exists>t. titems h' x = Some t \<and> ti_link t = Some d)"
proof -
  from tl.splice_ok [OF assms] obtain h' where h': "link_splice (Some s) (Some d) h = Some h'"
    "reps h' (L(s \<mapsto> [], d \<mapsto> ys @ xs))" "data_of h' = data_of h" by blast
  from reps_dll [OF h'(2), of d "ys @ xs"]
  have "\<forall>x \<in> set xs. \<exists>t. titems h' x = Some t \<and> ti_link t = Some d"
    by (auto simp: dll_def dest: dseg_link)
  with h' show ?thesis by blast
qed

theorem link_splice_appends_witness:
  "\<exists>h'. link_splice (Some 7) (Some 8) heap3 = Some h' \<and> reps h' [7 \<mapsto> [], 8 \<mapsto> [4, 1, 2, 3]]"
  using link_splice_appends [OF heap3_reps, of 7 "[1, 2, 3]" 8 "[4]"] by (auto simp: fun_upd_twist)

end
