(* ===== verification/Time_Wheel.thy ===== *)
theory Time_Wheel
  imports Time_Link
begin

text \<open>
  The timer wheel of \<open>time_wheel.h\<close> and \<open>time_wheel.cpp\<close>. \<open>add_timeout\<close> files a node
  under the slot of its deadline, \<open>take_all_timeout\<close> moves the nodes of all slots that
  the clock has passed to a result list and turns the wheel.

  The abstraction \<open>wheel_ok tw L h\<close> reads the slots as lists (through \<open>reps\<close> of
  \<open>Time_Link\<close>) and says that a node in the slot at distance \<open>d\<close> from the current one
  expires exactly \<open>d\<close> milliseconds after \<open>w_start\<close>. From it the file proves that the
  wheel is exact: whatever the times of the polls, a node is handed out at the first poll
  at or after its deadline, in the order of the deadlines, once. The exceptions are
  theorems as well: a timeout of a whole turn, and a wheel in seconds.
\<close>

section \<open>State and operations\<close>

record time_wheel =
  w_size :: int
  w_start :: u64
  w_index :: u64
  tw_slots :: "addr list"
  isms :: bool

text \<open>The constructor. The addresses of the new lists are those the allocator returns.\<close>

fun new_links :: "addr list \<Rightarrow> theap \<Rightarrow> theap" where
  "new_links [] h = h"
| "new_links (a # as) h = new_links as (new_link a h)"

definition new_time_wheel :: "addr list \<Rightarrow> int \<Rightarrow> bool \<Rightarrow> u64 \<Rightarrow> theap \<Rightarrow> time_wheel \<times> theap" where
  "new_time_wheel as sz ms now h =
     (\<lparr>w_size = sz, w_start = now, w_index = 0, tw_slots = as, isms = ms\<rparr>,
      new_links as h)"

definition get_max_size :: "time_wheel \<Rightarrow> int" where
  "get_max_size tw = w_size tw"

text \<open>
  \<open>add_timeout\<close>: the value it returns and the heap. A return value of \<^term>\<open>None\<close> is
  the end of the function body, which has no \<open>return\<close> statement; no caller reads it.
  The comparison \<open>diff > w_size_\<close> converts the \<open>int\<close> to \<open>unsigned long long\<close>, and
  \<open>diff < 0\<close> compares an unsigned value.
\<close>

definition add_timeout :: "ptr \<Rightarrow> time_wheel \<Rightarrow> theap \<Rightarrow> (int option \<times> theap) option" where
  "add_timeout item tw h = do {
     t \<leftarrow> rd_item item h;
     let diff = ExpireTime t - w_start tw;
     let diff = (if \<not> isms tw then diff div 1000 else diff);
     if diff > u64_of_int (w_size tw) then Some (Some (- 1), h)
     else if diff < 0 then Some (Some (- 1), h)
     else if w_size tw = 0 then None
     else do {
       let index = (w_index tw + diff) mod u64_of_int (w_size tw);
       t_link \<leftarrow> vec_at (tw_slots tw) (unat index);
       h \<leftarrow> link_push_back (Some t_link) item h;
       Some (None, h)
     }
   }"

text \<open>
  \<open>take_all_timeout\<close>: \<open>take_slots\<close> is the loop from \<open>i\<close> for \<open>n\<close> more rounds. The
  difference of the times is cut to \<open>int\<close>; \<open>count++\<close> on \<open>INT_MAX\<close> is undefined.
\<close>

fun take_slots :: "time_wheel \<Rightarrow> ptr \<Rightarrow> nat \<Rightarrow> nat \<Rightarrow> theap \<Rightarrow> theap option" where
  "take_slots tw ret_link i 0 h = Some h"
| "take_slots tw ret_link i (Suc n) h =
     (if w_size tw = 0 then None
      else do {
        let index = int_of_u64 ((w_index tw + u64_of_int (int i)) mod u64_of_int (w_size tw));
        slot \<leftarrow> (if index < 0 then None else vec_at (tw_slots tw) (nat index));
        h \<leftarrow> link_splice (Some slot) ret_link h;
        take_slots tw ret_link (Suc i) n h
      })"

declare take_slots.simps(2) [simp del]

definition take_all_timeout :: "u64 \<Rightarrow> ptr \<Rightarrow> time_wheel \<Rightarrow> theap \<Rightarrow> (time_wheel \<times> theap) option" where
  "take_all_timeout nowtime ret_link tw h =
     (if nowtime < w_start tw then Some (tw, h)
      else if ret_link = None then Some (tw, h)
      else let count = int_of_u64 (nowtime - w_start tw) in
        if isms tw \<and> count = INT_MAX then None
        else let count = (if \<not> isms tw then count sdiv 1000 + 1 else count + 1);
                 count = (if count > w_size tw then w_size tw else count) in
          if count < 0 then Some (tw, h)
          else do {
            h \<leftarrow> take_slots tw ret_link 0 (nat count) h;
            Some (tw\<lparr>w_start := nowtime, w_index := w_index tw + u64_of_int (count - 1)\<rparr>, h)
          })"

section \<open>Specification\<close>

text \<open>
  The slot at distance \<open>d\<close> from the current one and its nodes, the shape of a wheel,
  and the deadline of a node.
\<close>

definition slot_at :: "time_wheel \<Rightarrow> nat \<Rightarrow> addr" where
  "slot_at tw d = tw_slots tw ! ((unat (w_index tw) + d) mod nat (w_size tw))"

definition slot_list :: "time_wheel \<Rightarrow> (addr \<Rightarrow> addr list option) \<Rightarrow> nat \<Rightarrow> addr list" where
  "slot_list tw L d = (case L (slot_at tw d) of None \<Rightarrow> [] | Some xs \<Rightarrow> xs)"

definition wheel_shape :: "time_wheel \<Rightarrow> (addr \<Rightarrow> addr list option) \<Rightarrow> bool" where
  "wheel_shape tw L \<longleftrightarrow>
     0 < w_size tw \<and> w_size tw \<le> INT_MAX \<and> length (tw_slots tw) = nat (w_size tw) \<and>
     distinct (tw_slots tw) \<and> (\<forall>l \<in> set (tw_slots tw). L l \<noteq> None) \<and>
     unat (w_index tw) + nat (w_size tw) < 2 ^ 64"

definition expire_of :: "theap \<Rightarrow> addr \<Rightarrow> nat option" where
  "expire_of h x = map_option (unat \<circ> fst) (data_of h x)"

definition timed :: "time_wheel \<Rightarrow> (addr \<Rightarrow> addr list option) \<Rightarrow> theap \<Rightarrow> bool" where
  "timed tw L h \<longleftrightarrow> (\<forall>d < nat (w_size tw). \<forall>x \<in> set (slot_list tw L d).
     expire_of h x = Some (unat (w_start tw) + d))"

definition wheel_ok :: "time_wheel \<Rightarrow> (addr \<Rightarrow> addr list option) \<Rightarrow> theap \<Rightarrow> bool" where
  "wheel_ok tw L h \<longleftrightarrow> reps h L \<and> wheel_shape tw L \<and> isms tw \<and> timed tw L h \<and>
     unat (w_index tw) \<le> unat (w_start tw) \<and> unat (w_start tw) + nat (w_size tw) < 2 ^ 64"

definition wheel_set :: "time_wheel \<Rightarrow> (addr \<Rightarrow> addr list option) \<Rightarrow> addr set" where
  "wheel_set tw L = (\<Union>d < nat (w_size tw). set (slot_list tw L d))"

text \<open>A sequence of polls at given times, and what the clock has to satisfy for it.\<close>

fun polls :: "u64 list \<Rightarrow> ptr \<Rightarrow> time_wheel \<Rightarrow> theap \<Rightarrow> (time_wheel \<times> theap) option" where
  "polls [] ret tw h = Some (tw, h)"
| "polls (now # nows) ret tw h = do {
     (tw, h) \<leftarrow> take_all_timeout now ret tw h;
     polls nows ret tw h
   }"

fun clock_ok :: "nat \<Rightarrow> nat \<Rightarrow> u64 list \<Rightarrow> bool" where
  "clock_ok sz s [] \<longleftrightarrow> True"
| "clock_ok sz s (now # nows) \<longleftrightarrow> s \<le> unat now \<and> unat now - s < 2147483647 \<and>
     unat now + sz < 2 ^ 64 \<and> clock_ok sz (unat now) nows"

fun short_gaps :: "nat \<Rightarrow> u64 list \<Rightarrow> bool" where
  "short_gaps s [] \<longleftrightarrow> True"
| "short_gaps s (now # nows) \<longleftrightarrow> s \<le> unat now \<and> unat now - s < 1000 \<and> short_gaps (unat now) nows"

text \<open>
  A wheel of four slots for the witnesses: node 1 is in the wheel and expires at 102,
  nodes 2 and 3 are not and expire at 103 and 104, node 4 at 90, the list 20 is free.
\<close>

definition tw4 :: time_wheel where
  "tw4 = \<lparr>w_size = 4, w_start = 100, w_index = 2, tw_slots = [10, 11, 12, 13], isms = True\<rparr>"

definition heap4 :: theap where
  "heap4 = \<lparr>titems = [1 \<mapsto> (new_time_item 102 None None)\<lparr>ti_link := Some 10\<rparr>,
       2 \<mapsto> new_time_item 103 None None, 3 \<mapsto> new_time_item 104 None None,
       4 \<mapsto> new_time_item 90 None None],
     tlinks = [10 \<mapsto> \<lparr>tl_head = Some 1, tl_tail = Some 1\<rparr>, 11 \<mapsto> new_time_link,
       12 \<mapsto> new_time_link, 13 \<mapsto> new_time_link, 20 \<mapsto> new_time_link]\<rparr>"

definition lists4 :: "addr \<Rightarrow> addr list option" where
  "lists4 = [10 \<mapsto> [1], 11 \<mapsto> [], 12 \<mapsto> [], 13 \<mapsto> [], 20 \<mapsto> []]"

section \<open>Shape of the wheel\<close>

lemma wheel_shapeD:
  assumes "wheel_shape tw L"
  shows "0 < nat (w_size tw)" "int (nat (w_size tw)) = w_size tw" "nat (w_size tw) < 2147483648"
    "unat (u64_of_int (w_size tw)) = nat (w_size tw)" "unat (w_index tw) + nat (w_size tw) < 2 ^ 64"
  using assms by (auto simp: wheel_shape_def INT_MAX_def intro!: unat_u64_of_int)

lemma slot_at_in: "wheel_shape tw L \<Longrightarrow> slot_at tw d \<in> set (tw_slots tw)"
  by (simp add: slot_at_def wheel_shape_def)

lemma slot_at_listed: "wheel_shape tw L \<Longrightarrow> L (slot_at tw d) = Some (slot_list tw L d)"
  using slot_at_in [of tw L d] by (auto simp: wheel_shape_def slot_list_def)

lemma slot_at_inj:
  assumes "wheel_shape tw L" and "i < nat (w_size tw)" and "j < nat (w_size tw)" and "slot_at tw i = slot_at tw j"
  shows "i = j"
proof -
  have "(unat (w_index tw) + i) mod nat (w_size tw) = (unat (w_index tw) + j) mod nat (w_size tw)"
    using assms(1,4) wheel_shapeD(1) [OF assms(1)]
    by (simp add: slot_at_def wheel_shape_def nth_eq_iff_index_eq)
  with assms(2,3) show ?thesis by (rule rotate_index_inj)
qed

lemma slot_at_period: "slot_at tw (d + nat (w_size tw)) = slot_at tw d"
  by (simp add: slot_at_def add.assoc [symmetric])

lemma index_unat:
  assumes "wheel_shape tw L" and "unat d \<le> nat (w_size tw)"
  shows "unat ((w_index tw + d) mod u64_of_int (w_size tw)) = (unat (w_index tw) + unat d) mod nat (w_size tw)"
  using assms wheel_shapeD [OF assms(1)]
  by (simp add: unat_mod unat_add_u64 wheel_shape_def)

lemma slot_list_upd:
  assumes "wheel_shape tw L" and "i < nat (w_size tw)" and "d < nat (w_size tw)"
  shows "slot_list tw (L(slot_at tw i \<mapsto> xs)) d = (if d = i then xs else slot_list tw L d)"
  using slot_at_inj [OF assms(1) assms(3,2)] by (auto simp: slot_list_def)

lemma wheel_shape_upd: "wheel_shape tw L \<Longrightarrow> wheel_shape tw (L(l \<mapsto> xs))"
  by (simp add: wheel_shape_def)

lemma slot_list_frame:
  assumes "wheel_shape tw L" and "\<And>l. l \<in> set (tw_slots tw) \<Longrightarrow> L' l = L l"
  shows "slot_list tw L' d = slot_list tw L d"
  using assms(2) [OF slot_at_in [OF assms(1)]] by (simp add: slot_list_def)

lemma wheel_set_upd:
  assumes "wheel_shape tw L" and "i < nat (w_size tw)"
  shows "wheel_set tw (L(slot_at tw i \<mapsto> slot_list tw L i @ [x])) = insert x (wheel_set tw L)"
  using assms slot_list_upd [OF assms] by (auto simp: wheel_set_def split: if_splits)

lemma wheel_set_frame:
  assumes "wheel_shape tw L" and "\<And>l. l \<in> set (tw_slots tw) \<Longrightarrow> L' l = L l"
  shows "wheel_set tw L' = wheel_set tw L"
  using slot_list_frame [OF assms] by (simp add: wheel_set_def)

lemma wheel_ok_frame:
  assumes "wheel_ok tw L h" and "reps h' L'" and "\<And>l. l \<in> set (tw_slots tw) \<Longrightarrow> L' l = L l"
    and "\<And>x. x \<in> wheel_set tw L \<Longrightarrow> expire_of h' x = expire_of h x"
  shows "wheel_ok tw L' h'"
proof -
  have shape: "wheel_shape tw L" using assms(1) by (simp add: wheel_ok_def)
  note sl = slot_list_frame [OF shape assms(3)]
  have "timed tw L' h'"
    unfolding timed_def
  proof (intro allI impI ballI)
    fix d x assume "d < nat (w_size tw)" and "x \<in> set (slot_list tw L' d)"
    then have "d < nat (w_size tw)" and "x \<in> set (slot_list tw L d)" by (simp_all add: sl)
    then show "expire_of h' x = Some (unat (w_start tw) + d)"
      using assms(1) assms(4) [of x] by (auto simp: wheel_set_def wheel_ok_def timed_def)
  qed
  moreover have "wheel_shape tw L'" using shape assms(3) by (simp add: wheel_shape_def)
  ultimately show ?thesis using assms(1,2) by (simp add: wheel_ok_def)
qed

section \<open>Filing a node\<close>

lemma add_timeout_push:
  assumes "reps h L" and "wheel_shape tw L" and "isms tw" and "unlinked h i" and "expire_of h i = Some e"
    and "unat (w_start tw) \<le> e" and "e \<le> unat (w_start tw) + nat (w_size tw)"
  shows "\<exists>h'. add_timeout (Some i) tw h = Some (None, h') \<and>
     reps h' (L(slot_at tw (e - unat (w_start tw)) \<mapsto> slot_list tw L (e - unat (w_start tw)) @ [i])) \<and>
     data_of h' = data_of h \<and> unlinked h' = (unlinked h)(i := False)"
proof -
  note sz = wheel_shapeD [OF assms(2)]
  let ?d = "e - unat (w_start tw)"
  from assms(5) obtain t where t: "titems h i = Some t" "unat (ExpireTime t) = e"
    by (auto simp: expire_of_def data_of_def item_data_def)
  have diff: "unat (ExpireTime t - w_start tw) = ?d"
    using t(2) assms(6) by (simp add: unat_sub word_le_nat_alt)
  have small: "\<not> ExpireTime t - w_start tw > u64_of_int (w_size tw)"
    using diff sz assms(7) by (simp add: word_less_nat_alt)
  have vec: "vec_at (tw_slots tw) (unat ((w_index tw + (ExpireTime t - w_start tw)) mod u64_of_int (w_size tw))) =
      Some (slot_at tw ?d)"
    using index_unat [OF assms(2), of "ExpireTime t - w_start tw"] diff assms(2,7) sz
    by (simp add: slot_at_def wheel_shape_def)
  from tl.push_ok [OF assms(1) slot_at_listed [OF assms(2)] assms(4)]
  obtain h' where "link_push_back (Some (slot_at tw ?d)) (Some i) h = Some h'"
    "reps h' (L(slot_at tw ?d \<mapsto> slot_list tw L ?d @ [i]))"
    "data_of h' = data_of h" "unlinked h' = (unlinked h)(i := False)" by blast
  then show ?thesis
    using t(1) small vec assms(3) sz by (simp add: add_timeout_def rd_item_def)
qed

lemma add_timeout_ok:
  assumes "wheel_ok tw L h" and "unlinked h i" and "expire_of h i = Some e"
    and "unat (w_start tw) \<le> e" and "e < unat (w_start tw) + nat (w_size tw)"
  shows "\<exists>h'. add_timeout (Some i) tw h = Some (None, h') \<and>
     wheel_ok tw (L(slot_at tw (e - unat (w_start tw)) \<mapsto> slot_list tw L (e - unat (w_start tw)) @ [i])) h' \<and>
     data_of h' = data_of h \<and> unlinked h' = (unlinked h)(i := False)"
proof -
  have reps: "reps h L" and shape: "wheel_shape tw L" and ms: "isms tw" and tm: "timed tw L h"
    using assms(1) by (auto simp: wheel_ok_def)
  let ?d = "e - unat (w_start tw)"
  let ?L = "L(slot_at tw ?d \<mapsto> slot_list tw L ?d @ [i])"
  from add_timeout_push [OF reps shape ms assms(2,3,4)] assms(5) obtain h' where
    h': "add_timeout (Some i) tw h = Some (None, h')" "reps h' ?L" "data_of h' = data_of h"
      "unlinked h' = (unlinked h)(i := False)" by auto
  have "timed tw ?L h'"
    using tm assms(3,4,5) slot_list_upd [OF shape, of ?d] h'(3)
    by (auto simp: timed_def expire_of_def split: if_splits)
  with h' assms(1) show ?thesis by (auto simp: wheel_ok_def wheel_shape_upd)
qed

section \<open>Turning the wheel\<close>

lemma take_slots_step:
  assumes shape: "wheel_shape tw L" and "reps h L" and "L ret = Some ys" and "ret \<notin> set (tw_slots tw)"
    and "i < nat (w_size tw)"
  shows "\<exists>h1. take_slots tw (Some ret) i (Suc n) h = take_slots tw (Some ret) (Suc i) n h1 \<and>
     reps h1 (L(slot_at tw i \<mapsto> [], ret \<mapsto> ys @ slot_list tw L i)) \<and> data_of h1 = data_of h \<and> unlinked h1 = unlinked h"
proof -
  note sz = wheel_shapeD [OF shape]
  have i: "unat (u64_of_int (int i)) = i"
    using assms(5) sz(3) by (subst unat_u64_of_int) auto
  have idx: "unat ((w_index tw + u64_of_int (int i)) mod u64_of_int (w_size tw)) =
      (unat (w_index tw) + i) mod nat (w_size tw)" (is "unat ?w = ?r")
    using index_unat [OF shape, of "u64_of_int (int i)"] assms(5) i by simp
  have r: "?r < nat (w_size tw)" using sz(1) by simp
  have ix: "int_of_u64 ?w = int ?r"
    using idx r sz(3) by (simp add: int_of_u64_small)
  have vec: "vec_at (tw_slots tw) ?r = Some (slot_at tw i)"
    using r shape by (simp add: slot_at_def wheel_shape_def)
  have ne: "slot_at tw i \<noteq> ret" using slot_at_in [OF shape] assms(4) by auto
  from tl.splice_ok [OF assms(2) slot_at_listed [OF shape, of i] assms(3) ne]
  obtain h1 where h1: "link_splice (Some (slot_at tw i)) (Some ret) h = Some h1"
    "reps h1 (L(slot_at tw i \<mapsto> [], ret \<mapsto> ys @ slot_list tw L i))" "data_of h1 = data_of h" "unlinked h1 = unlinked h"
    by blast
  then show ?thesis using ix vec sz by (intro exI [of _ h1]) (simp add: Let_def take_slots.simps(2))
qed

lemma take_slots_ok:
  assumes "wheel_shape tw L" and "reps h L" and "L ret = Some ys" and "ret \<notin> set (tw_slots tw)"
    and "i + n \<le> nat (w_size tw)"
  shows "\<exists>h' L'. take_slots tw (Some ret) i n h = Some h' \<and> reps h' L' \<and> data_of h' = data_of h \<and>
     unlinked h' = unlinked h \<and> dom L' = dom L \<and>
     L' ret = Some (ys @ concat (map (slot_list tw L) [i..<i + n])) \<and>
     (\<forall>d \<in> {i..<i + n}. L' (slot_at tw d) = Some []) \<and>
     (\<forall>l. l \<noteq> ret \<longrightarrow> l \<notin> slot_at tw ` {i..<i + n} \<longrightarrow> L' l = L l)"
  using assms
proof (induction n arbitrary: i h L ys)
  case 0
  then show ?case by auto
next
  case (Suc n)
  note shape = Suc.prems(1)
  let ?s = "slot_at tw i"
  let ?L = "L(?s \<mapsto> [], ret \<mapsto> ys @ slot_list tw L i)"
  have ne: "?s \<noteq> ret" using slot_at_in [OF shape] Suc.prems(4) by auto
  obtain h1 where h1: "take_slots tw (Some ret) i (Suc n) h = take_slots tw (Some ret) (Suc i) n h1" "reps h1 ?L"
    "data_of h1 = data_of h" "unlinked h1 = unlinked h"
    using take_slots_step [OF Suc.prems(1-4), of i n] Suc.prems(5) by auto
  have shape': "wheel_shape tw ?L" using shape by (auto simp: wheel_shape_def)
  have ret': "?L ret = Some (ys @ slot_list tw L i)" and le: "Suc i + n \<le> nat (w_size tw)"
    using Suc.prems(5) by auto
  from Suc.IH [OF shape' h1(2) ret' Suc.prems(4) le]
  obtain h' L' where h': "take_slots tw (Some ret) (Suc i) n h1 = Some h'" "reps h' L'"
    "data_of h' = data_of h1" "unlinked h' = unlinked h1" "dom L' = dom ?L"
    "L' ret = Some ((ys @ slot_list tw L i) @ concat (map (slot_list tw ?L) [Suc i..<Suc i + n]))"
    "\<forall>d \<in> {Suc i..<Suc i + n}. L' (slot_at tw d) = Some []"
    "\<forall>l. l \<noteq> ret \<longrightarrow> l \<notin> slot_at tw ` {Suc i..<Suc i + n} \<longrightarrow> L' l = ?L l"
    by (elim exE conjE)
  have other: "d \<in> {Suc i..<Suc i + n} \<Longrightarrow> slot_at tw d \<noteq> ?s" for d
    using slot_at_inj [OF shape, of d i] Suc.prems(5) by auto
  have "slot_list tw ?L d = slot_list tw L d" if "d \<in> {Suc i..<Suc i + n}" for d
    using other [OF that] slot_at_in [OF shape, of d] Suc.prems(4) by (auto simp: slot_list_def)
  then have cc: "map (slot_list tw ?L) [Suc i..<Suc i + n] = map (slot_list tw L) [Suc i..<Suc i + n]"
    by (intro map_cong) auto
  have "?s \<notin> slot_at tw ` {Suc i..<Suc i + n}" using other by (metis imageE)
  then have L's: "L' ?s = Some []" using h'(8) ne by (metis fun_upd_other fun_upd_same)
  have ivl: "{i..<i + Suc n} = insert i {Suc i..<Suc i + n}" by auto
  have upt: "[i..<i + Suc n] = i # [Suc i..<Suc i + n]"
    by (subst upt_conv_Cons) (auto simp del: upt_Suc)
  have "take_slots tw (Some ret) i (Suc n) h = Some h'" using h1(1) h'(1) by simp
  moreover have "L' ret = Some (ys @ concat (map (slot_list tw L) [i..<i + Suc n]))"
    using h'(6) unfolding cc upt by (simp del: upt_Suc)
  moreover have "dom L' = dom L"
    using h'(5) slot_at_listed [OF shape, of i] Suc.prems(3) by (auto simp: insert_absorb)
  moreover have "\<forall>d \<in> {i..<i + Suc n}. L' (slot_at tw d) = Some []"
    using h'(7) L's unfolding ivl by simp
  moreover have "\<forall>l. l \<noteq> ret \<longrightarrow> l \<notin> slot_at tw ` {i..<i + Suc n} \<longrightarrow> L' l = L l"
    using h'(8) unfolding ivl by simp
  ultimately show ?case using h'(2,3,4) h1(3,4) by auto
qed

lemma take_all_timeout_eq:
  assumes shape: "wheel_shape tw L" and ms: "isms tw" and "w_start tw \<le> now" and "unat now - unat (w_start tw) < 2147483647"
  defines "m \<equiv> min (Suc (unat now - unat (w_start tw))) (nat (w_size tw))"
  shows "take_all_timeout now (Some ret) tw h =
     do { h \<leftarrow> take_slots tw (Some ret) 0 m h;
          Some (tw\<lparr>w_start := now, w_index := w_index tw + u64_of_int (int m - 1)\<rparr>, h) }"
proof -
  note sz = wheel_shapeD [OF shape]
  have gap: "unat (now - w_start tw) = unat now - unat (w_start tw)"
    using assms(3) by (simp add: unat_sub)
  have c: "int_of_u64 (now - w_start tw) = int (unat now - unat (w_start tw))"
    using gap assms(4) by (simp add: int_of_u64_small)
  have m: "int m = (if int (unat now - unat (w_start tw)) + 1 > w_size tw then w_size tw
      else int (unat now - unat (w_start tw)) + 1)"
    using sz by (auto simp: m_def)
  have n: "\<not> now < w_start tw" "int (unat now - unat (w_start tw)) \<noteq> INT_MAX" "\<not> int m < 0" "nat (int m) = m"
    using assms(3,4) c by (auto simp: INT_MAX_def)
  show ?thesis
    unfolding take_all_timeout_def Let_def c [symmetric]
    by (simp only: n ms c m [symmetric] if_False if_True not_True_eq_False simp_thms option.distinct)
qed

text \<open>The slots after \<open>m\<close> of them were emptied and the wheel was turned by \<open>m - 1\<close>.\<close>

abbreviation turned :: "time_wheel \<Rightarrow> u64 \<Rightarrow> nat \<Rightarrow> time_wheel" where
  "turned tw now m \<equiv> tw\<lparr>w_start := now, w_index := w_index tw + u64_of_int (int m - 1)\<rparr>"

lemma turned_index:
  assumes "wheel_shape tw L" and "0 < m" and "m \<le> nat (w_size tw)"
  shows "unat (w_index (turned tw now m)) = unat (w_index tw) + (m - 1)"
proof -
  have "unat (u64_of_int (int m - 1)) = m - 1"
    using assms wheel_shapeD(3) [OF assms(1)] by (subst unat_u64_of_int) auto
  moreover from this have "unat (w_index tw) + unat (u64_of_int (int m - 1)) < 2 ^ 64"
    using assms(2,3) wheel_shapeD(5) [OF assms(1)] by linarith
  ultimately show ?thesis by (simp add: unat_add_u64)
qed

lemma turned_slots:
  assumes shape: "wheel_shape tw L" and m: "0 < m" "m \<le> nat (w_size tw)"
    and emptied: "\<forall>d \<in> {0..<m}. L' (slot_at tw d) = Some []"
    and kept: "\<forall>l. l \<noteq> ret \<longrightarrow> l \<notin> slot_at tw ` {0..<m} \<longrightarrow> L' l = L l"
    and ret: "ret \<notin> set (tw_slots tw)" and d: "d < nat (w_size tw)"
  shows "slot_list (turned tw now m) L' d =
     (if m \<le> m - 1 + d \<and> m - 1 + d < nat (w_size tw) then slot_list tw L (m - 1 + d) else [])"
proof -
  have slot': "slot_at (turned tw now m) d = slot_at tw (m - 1 + d)"
    using turned_index [OF shape m, of now] by (simp add: slot_at_def add.assoc)
  show ?thesis
  proof (cases "m - 1 + d < nat (w_size tw)")
    case True
    have "L' (slot_at tw (m - 1 + d)) = L (slot_at tw (m - 1 + d))" if "m \<le> m - 1 + d"
    proof -
      have "slot_at tw (m - 1 + d) \<notin> slot_at tw ` {0..<m}"
      proof
        assume "slot_at tw (m - 1 + d) \<in> slot_at tw ` {0..<m}"
        then obtain j where "j < m" "slot_at tw (m - 1 + d) = slot_at tw j" by auto
        with slot_at_inj [OF shape True, of j] that m(2) show False by linarith
      qed
      with kept slot_at_in [OF shape] ret show ?thesis by metis
    qed
    with True slot' emptied show ?thesis
      by (cases "m - 1 + d < m") (auto simp: slot_list_def)
  next
    case False
    have "\<exists>k < m. m - 1 + d = k + nat (w_size tw)"
      using False d m by (intro exI [of _ "m - 1 + d - nat (w_size tw)"]) auto
    then obtain k where k: "k < m" "m - 1 + d = k + nat (w_size tw)" by blast
    have "slot_at (turned tw now m) d = slot_at tw k"
      by (simp only: slot' k(2) slot_at_period)
    with k(1) emptied False show ?thesis by (simp add: slot_list_def)
  qed
qed

lemma turned_wheel_set:
  assumes "\<And>d. d < nat (w_size tw) \<Longrightarrow> slot_list (turned tw now m) L' d =
     (if m \<le> m - 1 + d \<and> m - 1 + d < nat (w_size tw) then slot_list tw L (m - 1 + d) else [])"
    and "0 < m"
  shows "wheel_set (turned tw now m) L' = (\<Union>d \<in> {m..<nat (w_size tw)}. set (slot_list tw L d))"
proof (intro equalityI subsetI)
  fix x assume "x \<in> wheel_set (turned tw now m) L'"
  then show "x \<in> (\<Union>d \<in> {m..<nat (w_size tw)}. set (slot_list tw L d))"
    using assms(1) by (auto simp: wheel_set_def split: if_splits)
next
  fix x assume "x \<in> (\<Union>d \<in> {m..<nat (w_size tw)}. set (slot_list tw L d))"
  then obtain d where d: "m \<le> d" "d < nat (w_size tw)" "x \<in> set (slot_list tw L d)" by auto
  then have "x \<in> set (slot_list (turned tw now m) L' (d - (m - 1)))"
    using assms(1) [of "d - (m - 1)"] assms(2) by auto
  with d(2) show "x \<in> wheel_set (turned tw now m) L'" by (auto simp: wheel_set_def)
qed

lemma turned_ok:
  assumes ok: "wheel_ok tw L h" and st: "unat (w_start tw) \<le> unat now" and now: "unat now + nat (w_size tw) < 2 ^ 64"
    and m: "m = min (Suc (unat now - unat (w_start tw))) (nat (w_size tw))"
    and slots: "\<And>d. d < nat (w_size tw) \<Longrightarrow> slot_list (turned tw now m) L' d =
       (if m \<le> m - 1 + d \<and> m - 1 + d < nat (w_size tw) then slot_list tw L (m - 1 + d) else [])"
    and h': "reps h' L'" "data_of h' = data_of h" "dom L' = dom L"
  shows "wheel_ok (turned tw now m) L' h'"
proof -
  have shape: "wheel_shape tw L" and ix: "unat (w_index tw) \<le> unat (w_start tw)"
    using ok by (auto simp: wheel_ok_def)
  have m': "0 < m" "m \<le> nat (w_size tw)" using wheel_shapeD(1) [OF shape] by (auto simp: m)
  note idx = turned_index [OF shape m', of now]
  have "expire_of h' x = Some (unat now + d)"
    if d: "d < nat (w_size tw)" and x: "x \<in> set (slot_list (turned tw now m) L' d)" for d x
  proof -
    from slots [OF d] x have le: "m \<le> m - 1 + d" "m - 1 + d < nat (w_size tw)"
      and "x \<in> set (slot_list tw L (m - 1 + d))"
      by (auto split: if_splits)
    then have "expire_of h x = Some (unat (w_start tw) + (m - 1 + d))"
      using ok by (auto simp: wheel_ok_def timed_def)
    moreover have "m = Suc (unat now - unat (w_start tw))" using m le by linarith
    then have "unat (w_start tw) + (m - 1 + d) = unat now + d" using st by simp
    ultimately show ?thesis using h'(2) unfolding expire_of_def by argo
  qed
  then have "timed (turned tw now m) L' h'" by (simp add: timed_def)
  moreover have "unat (w_index (turned tw now m)) \<le> unat now"
    using idx ix m st by linarith
  moreover from this have "wheel_shape (turned tw now m) L'"
    using shape h'(3) now by (auto simp: wheel_shape_def)
  ultimately show ?thesis using h'(1) ok now by (simp add: wheel_ok_def)
qed

lemma take_all_timeout_ok:
  assumes ok: "wheel_ok tw L h" and ret: "L ret = Some ys" "ret \<notin> set (tw_slots tw)"
    and now: "w_start tw \<le> now" "unat now - unat (w_start tw) < 2147483647"
      "unat now + nat (w_size tw) < 2 ^ 64"
    and m: "m = min (Suc (unat now - unat (w_start tw))) (nat (w_size tw))"
  shows "\<exists>tw' h' L'. take_all_timeout now (Some ret) tw h = Some (tw', h') \<and>
     wheel_ok tw' L' h' \<and> tw' = turned tw now m \<and>
     data_of h' = data_of h \<and> unlinked h' = unlinked h \<and> dom L' = dom L \<and>
     L' ret = Some (ys @ concat (map (slot_list tw L) [0..<m])) \<and>
     (\<forall>l. l \<noteq> ret \<longrightarrow> l \<notin> set (tw_slots tw) \<longrightarrow> L' l = L l) \<and>
     wheel_set tw' L' = (\<Union>d \<in> {m..<nat (w_size tw)}. set (slot_list tw L d))"
proof -
  have reps: "reps h L" and shape: "wheel_shape tw L" and ms: "isms tw"
    using ok by (auto simp: wheel_ok_def)
  have m': "0 < m" "m \<le> nat (w_size tw)" using wheel_shapeD(1) [OF shape] by (auto simp: m)
  from take_slots_ok [OF shape reps ret, of 0 m] m'(2) obtain h' L' where
    h': "take_slots tw (Some ret) 0 m h = Some h'" "reps h' L'" "data_of h' = data_of h"
      "unlinked h' = unlinked h" "dom L' = dom L"
      "L' ret = Some (ys @ concat (map (slot_list tw L) [0..<m]))"
      "\<forall>d \<in> {0..<m}. L' (slot_at tw d) = Some []"
      "\<forall>l. l \<noteq> ret \<longrightarrow> l \<notin> slot_at tw ` {0..<m} \<longrightarrow> L' l = L l"
    by auto
  have run: "take_all_timeout now (Some ret) tw h = Some (turned tw now m, h')"
    using take_all_timeout_eq [OF shape ms now(1,2), of ret h] h'(1) by (simp flip: m)
  note slots = turned_slots [OF shape m' h'(7,8) ret(2)]
  have "wheel_ok (turned tw now m) L' h'"
    using turned_ok [OF ok _ now(3) m slots h'(2,3,5)] now(1) by (simp add: word_le_nat_alt)
  moreover have "\<forall>l. l \<noteq> ret \<longrightarrow> l \<notin> set (tw_slots tw) \<longrightarrow> L' l = L l"
    using h'(8) slot_at_in [OF shape] by blast
  ultimately show ?thesis
    using run h'(3,4,5,6) turned_wheel_set [OF slots m'(1)] by blast
qed

section \<open>Which nodes are due\<close>

lemma slot_list_expire:
  assumes "wheel_ok tw L h" and "d < nat (w_size tw)" and "x \<in> set (slot_list tw L d)"
  shows "expire_of h x = Some (unat (w_start tw) + d)"
  using assms by (auto simp: wheel_ok_def timed_def)

lemma slot_lists_disjoint:
  assumes "wheel_ok tw L h" and "i < nat (w_size tw)" and "j < nat (w_size tw)" and "i \<noteq> j"
  shows "set (slot_list tw L i) \<inter> set (slot_list tw L j) = {}"
proof -
  have "slot_at tw i \<noteq> slot_at tw j"
    using slot_at_inj [of tw L i j] assms by (auto simp: wheel_ok_def)
  with assms(1) show ?thesis
    by (intro tl.lists_disjoint [of h L "slot_at tw i" _ "slot_at tw j"]) (auto simp: wheel_ok_def slot_at_listed)
qed

lemma due_sorted:
  assumes "wheel_ok tw L h" and "m \<le> nat (w_size tw)"
  shows "sorted (map (\<lambda>x. the (expire_of h x)) (concat (map (slot_list tw L) [0..<m]))) \<and>
     (\<forall>x \<in> set (concat (map (slot_list tw L) [0..<m])). the (expire_of h x) < unat (w_start tw) + m)"
  using assms(2)
proof (induction m)
  case (Suc m)
  have e: "the (expire_of h x) = unat (w_start tw) + m" if "x \<in> set (slot_list tw L m)" for x
    using slot_list_expire [OF assms(1) _ that] Suc.prems by simp
  then have "map (\<lambda>x. the (expire_of h x)) (slot_list tw L m) =
      replicate (length (slot_list tw L m)) (unat (w_start tw) + m)"
    by (simp add: map_replicate_const [symmetric])
  then have "sorted (map (\<lambda>x. the (expire_of h x)) (slot_list tw L m))" by simp
  with Suc e show ?case
    by (auto simp: sorted_append less_Suc_eq_le dest: less_imp_le)
qed simp

lemma due_distinct:
  assumes "wheel_ok tw L h" and "m \<le> nat (w_size tw)"
  shows "distinct (concat (map (slot_list tw L) [0..<m]))"
  using assms(2)
proof (induction m)
  case (Suc m)
  have "reps h L" and "wheel_shape tw L" using assms(1) by (auto simp: wheel_ok_def)
  then have "distinct (slot_list tw L m)" by (metis slot_at_listed tl.lists_distinct)
  moreover have "set (slot_list tw L i) \<inter> set (slot_list tw L m) = {}" if "i < m" for i
    using slot_lists_disjoint [OF assms(1), of i m] that Suc.prems by auto
  ultimately show ?case using Suc by fastforce
qed simp

lemma due_set:
  assumes "wheel_ok tw L h" and "unat (w_start tw) \<le> unat now"
    and "m = min (Suc (unat now - unat (w_start tw))) (nat (w_size tw))"
  shows "x \<in> set (concat (map (slot_list tw L) [0..<m])) \<longleftrightarrow>
    x \<in> wheel_set tw L \<and> (\<exists>e \<le> unat now. expire_of h x = Some e)"
proof
  assume "x \<in> set (concat (map (slot_list tw L) [0..<m]))"
  then obtain d where d: "d < m" "x \<in> set (slot_list tw L d)" by auto
  with assms slot_list_expire [OF assms(1) _ d(2)]
  show "x \<in> wheel_set tw L \<and> (\<exists>e \<le> unat now. expire_of h x = Some e)"
    by (auto simp: wheel_set_def)
next
  assume "x \<in> wheel_set tw L \<and> (\<exists>e \<le> unat now. expire_of h x = Some e)"
  then obtain d e where "d < nat (w_size tw)" "x \<in> set (slot_list tw L d)" "e \<le> unat now" "expire_of h x = Some e"
    by (auto simp: wheel_set_def)
  with assms slot_list_expire [of tw L h d x] show "x \<in> set (concat (map (slot_list tw L) [0..<m]))"
    by auto
qed

lemma left_set:
  assumes "wheel_ok tw L h" and "m \<le> nat (w_size tw)"
  shows "(\<Union>d \<in> {m..<nat (w_size tw)}. set (slot_list tw L d)) =
    wheel_set tw L - set (concat (map (slot_list tw L) [0..<m]))"
proof (intro equalityI subsetI)
  fix x assume "x \<in> (\<Union>d \<in> {m..<nat (w_size tw)}. set (slot_list tw L d))"
  then obtain d where d: "m \<le> d" "d < nat (w_size tw)" "x \<in> set (slot_list tw L d)" by auto
  moreover have "x \<notin> set (slot_list tw L i)" if "i < m" for i
    using slot_lists_disjoint [OF assms(1), of i d] that d assms(2) by auto
  ultimately show "x \<in> wheel_set tw L - set (concat (map (slot_list tw L) [0..<m]))"
    by (auto simp: wheel_set_def)
next
  fix x assume x: "x \<in> wheel_set tw L - set (concat (map (slot_list tw L) [0..<m]))"
  then obtain d where d: "d < nat (w_size tw)" "x \<in> set (slot_list tw L d)" by (auto simp: wheel_set_def)
  with x have "\<not> d < m" by auto
  with d show "x \<in> (\<Union>d \<in> {m..<nat (w_size tw)}. set (slot_list tw L d))" by auto
qed

text \<open>
  One call of \<open>take_all_timeout\<close> moves exactly the nodes whose deadline has passed, in
  the order of the deadlines, and keeps the wheel well-formed.
\<close>

lemma take_all_timeout_exact:
  assumes ok: "wheel_ok tw L h" and ret: "L ret = Some ys" "ret \<notin> set (tw_slots tw)"
    and now: "w_start tw \<le> now" "unat now - unat (w_start tw) < 2147483647"
      "unat now + nat (w_size tw) < 2 ^ 64"
  shows "\<exists>tw' h' L' due. take_all_timeout now (Some ret) tw h = Some (tw', h') \<and>
     wheel_ok tw' L' h' \<and> w_start tw' = now \<and> w_size tw' = w_size tw \<and> tw_slots tw' = tw_slots tw \<and>
     data_of h' = data_of h \<and> unlinked h' = unlinked h \<and>
     (\<forall>l. l \<noteq> ret \<longrightarrow> l \<notin> set (tw_slots tw) \<longrightarrow> L' l = L l) \<and>
     L' ret = Some (ys @ due) \<and> distinct due \<and> sorted (map (\<lambda>x. the (expire_of h x)) due) \<and>
     (\<forall>x. x \<in> set due \<longleftrightarrow> x \<in> wheel_set tw L \<and> (\<exists>e \<le> unat now. expire_of h x = Some e)) \<and>
     wheel_set tw' L' = wheel_set tw L - set due"
proof -
  define m where "m = min (Suc (unat now - unat (w_start tw))) (nat (w_size tw))"
  have m: "m \<le> nat (w_size tw)" by (simp add: m_def)
  have st: "unat (w_start tw) \<le> unat now" using now(1) by (simp add: word_le_nat_alt)
  from take_all_timeout_ok [OF ok ret now m_def] obtain tw' h' L' where
    r: "take_all_timeout now (Some ret) tw h = Some (tw', h')" "wheel_ok tw' L' h'" "tw' = turned tw now m"
      "data_of h' = data_of h" "unlinked h' = unlinked h"
      "L' ret = Some (ys @ concat (map (slot_list tw L) [0..<m]))"
      "\<forall>l. l \<noteq> ret \<longrightarrow> l \<notin> set (tw_slots tw) \<longrightarrow> L' l = L l"
      "wheel_set tw' L' = (\<Union>d \<in> {m..<nat (w_size tw)}. set (slot_list tw L d))"
    by blast
  show ?thesis
    using r due_sorted [OF ok m] due_distinct [OF ok m] due_set [OF ok st m_def] left_set [OF ok m]
    by (intro exI [of _ tw'] exI [of _ h'] exI [of _ L'] exI [of _ "concat (map (slot_list tw L) [0..<m])"])
      simp
qed

lemma clock_ok_last: "clock_ok sz s nows \<Longrightarrow> nows \<noteq> [] \<Longrightarrow> s \<le> unat (last nows)"
proof (induction nows arbitrary: s)
  case (Cons n nows)
  then show ?case by (cases nows) (auto intro: order_trans)
qed simp

lemma reps_new_links:
  "reps h L \<Longrightarrow> distinct as \<Longrightarrow> \<forall>a \<in> set as. L a = None \<Longrightarrow>
     reps (new_links as h) (\<lambda>l. if l \<in> set as then Some [] else L l)"
proof (induction as arbitrary: h L)
  case (Cons a as)
  from Cons.prems have a: "reps (new_link a h) (L(a \<mapsto> []))" by (simp add: reps_new_link)
  have "distinct as" and "\<forall>x \<in> set as. (L(a \<mapsto> [])) x = None" using Cons.prems by auto
  from Cons.IH [OF a this]
  have "reps (new_links as (new_link a h)) (\<lambda>l. if l \<in> set as then Some [] else (L(a \<mapsto> [])) l)" .
  moreover have "(\<lambda>l. if l \<in> set as then Some [] else (L(a \<mapsto> [])) l) = (\<lambda>l. if l \<in> set (a # as) then Some [] else L l)"
    by auto
  ultimately show ?case by simp
qed simp

lemma fresh_wheel:
  assumes "0 < sz" and "sz \<le> INT_MAX" and "length as = nat sz" and "distinct as"
    and "reps h L" and "\<forall>a \<in> set as. L a = None" and "unat now + nat sz < 2 ^ 64"
    and "new_time_wheel as sz True now h = (tw, h')"
  shows "wheel_ok tw (\<lambda>l. if l \<in> set as then Some [] else L l) h' \<and>
     wheel_set tw (\<lambda>l. if l \<in> set as then Some [] else L l) = {}"
proof -
  let ?L = "\<lambda>l. if l \<in> set as then Some [] else L l"
  have tw: "tw = \<lparr>w_size = sz, w_start = now, w_index = 0, tw_slots = as, isms = True\<rparr>"
    and h': "h' = new_links as h" using assms(8) by (auto simp: new_time_wheel_def)
  have shape: "wheel_shape tw ?L" using assms(1-4,7) by (auto simp: wheel_shape_def tw)
  have sl: "slot_list tw ?L d = []" for d
    using slot_at_in [OF shape, of d] by (simp add: slot_list_def tw)
  then show ?thesis
    using shape reps_new_links [OF assms(5,4,6)] assms(7)
    by (simp add: wheel_ok_def timed_def wheel_set_def h') (simp add: tw)
qed

lemma take_sec_eq:
  assumes "wheel_shape tw L" and "\<not> isms tw" and "w_start tw \<le> now" and "unat now - unat (w_start tw) < 1000"
  shows "take_all_timeout now (Some ret) tw h =
    do { h \<leftarrow> take_slots tw (Some ret) 0 1 h; Some (tw\<lparr>w_start := now\<rparr>, h) }"
proof -
  note sz = wheel_shapeD [OF assms(1)]
  have "unat (now - w_start tw) = unat now - unat (w_start tw)"
    using assms(3) by (simp add: unat_sub)
  then have "int_of_u64 (now - w_start tw) = int (unat now - unat (w_start tw))"
    using assms(4) by (simp add: int_of_u64_small)
  moreover have "int (unat now - unat (w_start tw)) sdiv 1000 = 0"
    using assms(4) by (simp add: signed_divide_int_def)
  moreover have "\<not> 1 > w_size tw" "w_index tw + u64_of_int 0 = w_index tw" "\<not> now < w_start tw"
    using sz assms(3) by (auto simp: u64_of_int_def)
  ultimately show ?thesis
    using assms(2) by (auto simp: take_all_timeout_def Let_def)
qed

lemma wheel4_ok: "wheel_ok tw4 lists4 heap4"
proof -
  have "reps heap4 lists4"
    by (auto simp: reps_def dll_def heap4_def lists4_def new_time_item_def new_time_link_def split: if_splits)
  moreover have "wheel_shape tw4 lists4"
    by (simp add: wheel_shape_def tw4_def lists4_def INT_MAX_def)
  moreover have "timed tw4 lists4 heap4"
    unfolding timed_def
  proof (intro allI impI)
    fix d assume "d < nat (w_size tw4)"
    then consider "d = 0" | "d = 1" | "d = 2" | "d = 3" by (fastforce simp: tw4_def)
    then show "\<forall>x \<in> set (slot_list tw4 lists4 d). expire_of heap4 x = Some (unat (w_start tw4) + d)"
      by cases (simp_all add: slot_list_def slot_at_def tw4_def lists4_def heap4_def expire_of_def
          data_of_def item_data_def new_time_item_def)
  qed
  ultimately show ?thesis by (simp add: wheel_ok_def tw4_def)
qed

section \<open>Properties\<close>

text \<open>
  C4. The wheel is exact. For every sequence of polls with a clock that does not run
  backwards, the nodes handed out so far are, in the order of their deadlines and without
  repetition, exactly the nodes of the wheel whose deadline is not after the last poll;
  all others are still in the wheel, and the wheel is still well-formed. No poll faults.
\<close>

theorem polls_exact:
  assumes "wheel_ok tw L h" and "L ret = Some ys" and "ret \<notin> set (tw_slots tw)"
    and "clock_ok (nat (w_size tw)) (unat (w_start tw)) (now # nows)"
  shows "\<exists>tw' h' L' out. polls (now # nows) (Some ret) tw h = Some (tw', h') \<and>
     wheel_ok tw' L' h' \<and> L' ret = Some (ys @ out) \<and>
     distinct out \<and> sorted (map (\<lambda>x. the (expire_of h x)) out) \<and>
     (\<forall>x. x \<in> set out \<longleftrightarrow> x \<in> wheel_set tw L \<and> (\<exists>e \<le> unat (last (now # nows)). expire_of h x = Some e)) \<and>
     wheel_set tw' L' = wheel_set tw L - set out"
  using assms
proof (induction nows arbitrary: now tw L h ys)
  case Nil
  then have "w_start tw \<le> now" "unat now - unat (w_start tw) < 2147483647" "unat now + nat (w_size tw) < 2 ^ 64"
    by (auto simp: word_le_nat_alt)
  from take_all_timeout_exact [OF Nil.prems(1-3) this] show ?case by fastforce
next
  case (Cons n2 nows)
  then have now: "w_start tw \<le> now" "unat now - unat (w_start tw) < 2147483647" "unat now + nat (w_size tw) < 2 ^ 64"
    by (auto simp: word_le_nat_alt)
  from take_all_timeout_exact [OF Cons.prems(1-3) now] obtain tw1 h1 L1 due where
    t1: "take_all_timeout now (Some ret) tw h = Some (tw1, h1)" "wheel_ok tw1 L1 h1" "w_start tw1 = now"
      "w_size tw1 = w_size tw" "tw_slots tw1 = tw_slots tw" "data_of h1 = data_of h"
      "L1 ret = Some (ys @ due)" "distinct due" "sorted (map (\<lambda>x. the (expire_of h x)) due)"
    and due: "\<And>x. x \<in> set due \<longleftrightarrow> x \<in> wheel_set tw L \<and> (\<exists>e \<le> unat now. expire_of h x = Some e)"
    and left: "wheel_set tw1 L1 = wheel_set tw L - set due"
    by blast
  have ex: "expire_of h1 = expire_of h" using t1(6) by (simp add: expire_of_def fun_eq_iff)
  from Cons.prems(3,4) t1(3,4,5) have "ret \<notin> set (tw_slots tw1)"
    "clock_ok (nat (w_size tw1)) (unat (w_start tw1)) (n2 # nows)" by auto
  from Cons.IH [OF t1(2,7) this] obtain tw' h' L' out where
    t2: "polls (n2 # nows) (Some ret) tw1 h1 = Some (tw', h')" "wheel_ok tw' L' h'"
      "L' ret = Some ((ys @ due) @ out)" "distinct out" "sorted (map (\<lambda>x. the (expire_of h x)) out)"
    and out: "\<And>x. x \<in> set out \<longleftrightarrow> x \<in> wheel_set tw1 L1 \<and> (\<exists>e \<le> unat (last (n2 # nows)). expire_of h x = Some e)"
    and left': "wheel_set tw' L' = wheel_set tw1 L1 - set out"
    unfolding ex by blast
  have later: "unat now \<le> unat (last (n2 # nows))"
    using clock_ok_last [of "nat (w_size tw)" "unat now" "n2 # nows"] Cons.prems(4) by simp
  have disj: "set due \<inter> set out = {}" using out left by auto
  have "the (expire_of h x) \<le> the (expire_of h y)" if "x \<in> set due" "y \<in> set out" for x y
    using that due [of x] due [of y] out [of y] left by force
  then have "sorted (map (\<lambda>x. the (expire_of h x)) (due @ out))"
    using t1(9) t2(5) by (auto simp: sorted_append)
  moreover have "x \<in> set (due @ out) \<longleftrightarrow>
      x \<in> wheel_set tw L \<and> (\<exists>e \<le> unat (last (now # n2 # nows)). expire_of h x = Some e)" for x
    using due [of x] out [of x] left later by fastforce
  moreover have "wheel_set tw' L' = wheel_set tw L - set (due @ out)" using left left' by auto
  ultimately show ?case
    using t1(1,8) t2(1-4) disj
    by (intro exI [of _ tw'] exI [of _ h'] exI [of _ L'] exI [of _ "due @ out"]) simp
qed

theorem polls_exact_witness:
  "\<exists>tw' h' L' out. polls [101, 103] (Some 20) tw4 heap4 = Some (tw', h') \<and> wheel_ok tw' L' h' \<and>
     L' 20 = Some out \<and> 1 \<in> set out"
proof -
  have "lists4 20 = Some []" "20 \<notin> set (tw_slots tw4)"
    and c: "clock_ok (nat (w_size tw4)) (unat (w_start tw4)) (101 # [103])"
    by (simp_all add: lists4_def tw4_def)
  moreover have "1 \<in> wheel_set tw4 lists4"
    by (auto simp: wheel_set_def slot_list_def slot_at_def tw4_def lists4_def intro: bexI [of _ 2])
  moreover have "expire_of heap4 1 = Some 102"
    by (simp add: expire_of_def data_of_def heap4_def item_data_def new_time_item_def)
  ultimately show ?thesis using polls_exact [OF wheel4_ok _ _ c, of 20 "[]"] by fastforce
qed

text \<open>
  C15. \<open>add_timeout\<close> accepts a node whose deadline is less than a turn of the wheel away:
  it does not fault, the node joins the wheel, no node loses its data, the lists outside
  the wheel are untouched and the wheel stays well-formed (so that the polls hand the node out in time).
\<close>

theorem add_timeout_schedules:
  assumes "wheel_ok tw L h" and "unlinked h i" and "expire_of h i = Some e"
    and "unat (w_start tw) \<le> e" and "e < unat (w_start tw) + nat (w_size tw)"
  shows "\<exists>h' L'. add_timeout (Some i) tw h = Some (None, h') \<and> wheel_ok tw L' h' \<and>
     wheel_set tw L' = insert i (wheel_set tw L) \<and> data_of h' = data_of h \<and>
     (\<forall>l. l \<notin> set (tw_slots tw) \<longrightarrow> L' l = L l)"
proof -
  have shape: "wheel_shape tw L" using assms(1) by (simp add: wheel_ok_def)
  from add_timeout_ok [OF assms] obtain h' where h': "add_timeout (Some i) tw h = Some (None, h')"
    "wheel_ok tw (L(slot_at tw (e - unat (w_start tw)) \<mapsto> slot_list tw L (e - unat (w_start tw)) @ [i])) h'"
    "data_of h' = data_of h" by blast
  show ?thesis
    by (intro exI conjI, fact h', fact h')
      (use wheel_set_upd [OF shape] slot_at_in [OF shape] h'(3) assms(4,5) in auto)
qed

theorem add_timeout_schedules_witness:
  "\<exists>h' L'. add_timeout (Some 2) tw4 heap4 = Some (None, h') \<and> wheel_ok tw4 L' h' \<and>
     2 \<in> wheel_set tw4 L'"
proof -
  have "unlinked heap4 2" "expire_of heap4 2 = Some 103" "unat (w_start tw4) \<le> 103"
    "103 < unat (w_start tw4) + nat (w_size tw4)"
    by (simp_all add: unlinked_def heap4_def expire_of_def data_of_def item_data_def new_time_item_def tw4_def)
  from add_timeout_schedules [OF wheel4_ok this] show ?thesis by blast
qed

text \<open>
  \<open>add_timeout\<close> refuses, with \<open>-1\<close> and without touching the heap, every node whose
  deadline is more than a turn away and every node whose deadline has passed. The latter
  is caught by the first test, since the subtraction wraps around; the test
  \<open>diff < 0\<close> of the source never succeeds.
\<close>

lemma add_timeout_rejects:
  assumes "wheel_shape tw L" and "isms tw" and "titems h i = Some t"
    and "unat (ExpireTime t) < unat (w_start tw) \<and> unat (w_start tw) + nat (w_size tw) < 2 ^ 64 \<or>
      unat (ExpireTime t) > unat (w_start tw) + nat (w_size tw)"
  shows "add_timeout (Some i) tw h = Some (Some (- 1), h)"
proof -
  note sz = wheel_shapeD [OF assms(1)]
  have "nat (w_size tw) < unat (ExpireTime t - w_start tw)"
    using assms(4) unsigned_less [of "w_start tw"] by (auto simp: unat_sub_if' word_le_nat_alt)
  then have "u64_of_int (w_size tw) < ExpireTime t - w_start tw"
    using sz by (simp add: word_less_nat_alt)
  then show ?thesis using assms(2,3) by (simp add: add_timeout_def rd_item_def)
qed

text \<open>
  A timeout of exactly one turn (60000 milliseconds for the scheduler's wheel) passes
  the test \<open>diff > w_size_\<close> but wraps to the current slot: the very next poll, at the same
  time, hands the node out although its deadline is a whole turn away.
\<close>

lemma full_turn_fires_at_once:
  assumes "wheel_ok tw L h" and "unlinked h i"
    and "expire_of h i = Some (unat (w_start tw) + nat (w_size tw))"
    and "L ret = Some []" "ret \<notin> set (tw_slots tw)"
  shows "\<exists>h' tw' h'' L' due. add_timeout (Some i) tw h = Some (None, h') \<and>
     take_all_timeout (w_start tw) (Some ret) tw h' = Some (tw', h'') \<and> reps h'' L' \<and>
     L' ret = Some due \<and> i \<in> set due"
proof -
  have reps: "reps h L" and shape: "wheel_shape tw L" and ms: "isms tw"
    using assms(1) by (auto simp: wheel_ok_def)
  let ?L = "L(slot_at tw 0 \<mapsto> slot_list tw L 0 @ [i])"
  have "slot_at tw (nat (w_size tw)) = slot_at tw 0" using slot_at_period [of tw 0] by simp
  then have same: "slot_list tw L (nat (w_size tw)) = slot_list tw L 0" "slot_at tw (nat (w_size tw)) = slot_at tw 0"
    by (simp_all add: slot_list_def)
  from add_timeout_push [OF reps shape ms assms(2,3)] obtain h' where
    h': "add_timeout (Some i) tw h = Some (None, h')" "reps h' ?L" by (auto simp: same)
  have shape': "wheel_shape tw ?L" using shape by (rule wheel_shape_upd)
  have ret: "?L ret = Some []" using assms(4,5) slot_at_in [OF shape, of 0] by auto
  have one: "min (Suc (unat (w_start tw) - unat (w_start tw))) (nat (w_size tw)) = 1"
    using wheel_shapeD(1) [OF shape] by simp
  have le: "0 + 1 \<le> nat (w_size tw)" using wheel_shapeD(1) [OF shape] by simp
  from take_slots_ok [OF shape' h'(2) ret assms(5) le]
  obtain h'' L' where h'': "take_slots tw (Some ret) 0 1 h' = Some h''" "reps h'' L'"
    "L' ret = Some ([] @ concat (map (slot_list tw ?L) [0..<0 + 1]))" by (elim exE conjE)
  have "take_all_timeout (w_start tw) (Some ret) tw h' = Some (turned tw (w_start tw) 1, h'')"
    using take_all_timeout_eq [OF shape' ms, of "w_start tw" ret h'] h''(1) unfolding one by simp
  moreover have "i \<in> set (slot_list tw ?L 0)" by (simp add: slot_list_def)
  ultimately show ?thesis using h'(1) h''(2,3) by (simp del: fun_upd_apply) blast
qed

text \<open>
  A wheel in seconds (\<open>isms\<close> false) that is polled more often than once a second
  stands still: \<open>w_start\<close> follows the clock but the division drops the fraction each time,
  so \<open>w_index\<close> never moves and no list but that of the current slot is ever taken,
  however much time has passed.
\<close>

lemma second_wheel_stands_still:
  assumes "wheel_shape tw L" and "reps h L" and "\<not> isms tw" and "L ret = Some ys" and "ret \<notin> set (tw_slots tw)"
    and "short_gaps (unat (w_start tw)) nows"
  shows "\<exists>tw' h' L'. polls nows (Some ret) tw h = Some (tw', h') \<and> reps h' L' \<and>
    w_index tw' = w_index tw \<and> tw_slots tw' = tw_slots tw \<and>
    w_start tw' = last (w_start tw # nows) \<and>
    (\<forall>l. l \<noteq> ret \<longrightarrow> l \<noteq> slot_at tw 0 \<longrightarrow> L' l = L l)"
  using assms
proof (induction nows arbitrary: tw h L ys)
  case Nil
  then show ?case by auto
next
  case (Cons now nows)
  have le: "0 + 1 \<le> nat (w_size tw)" using wheel_shapeD(1) [OF Cons.prems(1)] by simp
  from take_slots_ok [OF Cons.prems(1,2,4,5) le] obtain h1 L1 where
    h1: "take_slots tw (Some ret) 0 1 h = Some h1" "reps h1 L1" "dom L1 = dom L"
      "L1 ret = Some (ys @ concat (map (slot_list tw L) [0..<0 + 1]))"
      "\<forall>l. l \<noteq> ret \<longrightarrow> l \<notin> slot_at tw ` {0..<0 + 1} \<longrightarrow> L1 l = L l"
    by (elim exE conjE)
  let ?tw = "tw\<lparr>w_start := now\<rparr>"
  have "take_all_timeout now (Some ret) tw h = Some (?tw, h1)"
    using take_sec_eq [OF Cons.prems(1,3), of now ret h] Cons.prems(6) h1(1) by (simp add: word_le_nat_alt)
  moreover have shape: "wheel_shape ?tw L1" using Cons.prems(1) h1(3) by (auto simp: wheel_shape_def)
  have pre: "\<not> isms ?tw" "ret \<notin> set (tw_slots ?tw)" "short_gaps (unat (w_start ?tw)) nows"
    using Cons.prems(3,5,6) by auto
  have s0: "slot_at ?tw 0 = slot_at tw 0" by (simp add: slot_at_def)
  from Cons.IH [OF shape h1(2) pre(1) h1(4) pre(2,3)] obtain tw' h' L' where
    "polls nows (Some ret) ?tw h1 = Some (tw', h')" "reps h' L'" "w_index tw' = w_index ?tw"
    "tw_slots tw' = tw_slots ?tw" "w_start tw' = last (w_start ?tw # nows)"
    "\<forall>l. l \<noteq> ret \<longrightarrow> l \<noteq> slot_at tw 0 \<longrightarrow> L' l = L1 l"
    unfolding s0 by (elim exE conjE)
  ultimately show ?case using h1(5) by (intro exI [of _ tw'] exI [of _ h'] exI [of _ L']) simp
qed

text \<open>
  The constructor: on fresh lists it builds an empty, well-formed wheel.
\<close>

lemma new_time_wheel_ok:
  assumes "0 < sz" and "sz \<le> INT_MAX" and "length as = nat sz" and "distinct as"
    and "reps h L" and "\<forall>a \<in> set as. L a = None" and "unat now + nat sz < 2 ^ 64"
    and "new_time_wheel as sz True now h = (tw, h')"
  shows "wheel_ok tw (\<lambda>l. if l \<in> set as then Some [] else L l) h' \<and>
     wheel_set tw (\<lambda>l. if l \<in> set as then Some [] else L l) = {}"
  using assms by (rule fresh_wheel)

end
