(* ===== verification/Co_Epoll.thy ===== *)
theory Co_Epoll
  imports Time_Link
begin

text \<open>
  The wrapper around \<open>epoll\<close> of \<open>co_epoll.h\<close> and \<open>co_epoll.cpp\<close>: the record of a
  pending wait (\<open>co_epoll_item\<close>), the map from descriptors to records, and the two
  lists the scheduler keeps there.

  The kernel is not part of the repository. What the code tells it is kept in
  \<open>interest\<close>, the descriptors added and not deleted with the pointer registered for
  them; what \<open>epoll_wait\<close> reports is an argument of the event loop (see
  \<open>events_ok\<close> of the scheduler). \<open>epoll_ctl\<close> is
  taken to accept every descriptor it is given once; where it refuses, reports are rarer.
\<close>

section \<open>State\<close>

text \<open>
  A \<open>co_epoll_item\<close>. \<open>register_event\<close> allocates it without initialisation; until
  \<open>t_item\<close> is written it is \<^term>\<open>None\<close> here, and reading through it is a fault.
\<close>

record co_epoll_item =
  ei_fd :: int
  ei_is_timeout :: bool
  ei_co :: ptr
  ei_t_item :: ptr

record co_epoll =
  item_map :: "int \<Rightarrow> addr option"
  interest :: "int \<Rightarrow> (u32 \<times> addr) option"
  active_link :: addr
  timeout_link :: addr

section \<open>Operations\<close>

definition new_co_epoll :: "addr \<Rightarrow> addr \<Rightarrow> theap \<Rightarrow> co_epoll \<times> theap" where
  "new_co_epoll a b h =
     (\<lparr>item_map = Map.empty, interest = Map.empty, active_link = a, timeout_link = b\<rparr>,
      new_link b (new_link a h))"

definition epoll_ctl_add :: "int \<Rightarrow> u32 \<times> addr \<Rightarrow> co_epoll \<Rightarrow> co_epoll" where
  "epoll_ctl_add fd ev e =
     (if interest e fd = None then e\<lparr>interest := (interest e)(fd \<mapsto> ev)\<rparr> else e)"

definition epoll_ctl_del :: "int \<Rightarrow> co_epoll \<Rightarrow> co_epoll" where
  "epoll_ctl_del fd e = e\<lparr>interest := (interest e)(fd := None)\<rparr>"

definition epoll_ctl_mod :: "int \<Rightarrow> u32 \<times> addr \<Rightarrow> co_epoll \<Rightarrow> co_epoll" where
  "epoll_ctl_mod fd ev e =
     (if interest e fd = None then e else e\<lparr>interest := (interest e)(fd \<mapsto> ev)\<rparr>)"

definition epoll_add :: "int \<Rightarrow> u32 \<Rightarrow> addr \<Rightarrow> co_epoll \<Rightarrow> int \<times> co_epoll" where
  "epoll_add fd event item e =
     (if item_map e fd \<noteq> None then (- 1, e)
      else (0, epoll_ctl_add fd (event, item) (e\<lparr>item_map := (item_map e)(fd \<mapsto> item)\<rparr>)))"

definition epoll_del :: "int \<Rightarrow> co_epoll \<Rightarrow> int \<times> co_epoll" where
  "epoll_del fd e =
     (if item_map e fd = None then (- 1, e)
      else let e = epoll_ctl_del fd e in (0, e\<lparr>item_map := (item_map e)(fd := None)\<rparr>))"

definition epoll_mod :: "int \<Rightarrow> u32 \<Rightarrow> co_epoll \<Rightarrow> int \<times> co_epoll" where
  "epoll_mod fd event e =
     (case item_map e fd of None \<Rightarrow> (- 1, e)
      | Some item \<Rightarrow> (0, epoll_ctl_mod fd (event, item) e))"

section \<open>Invariant\<close>

text \<open>The kernel has exactly the descriptors of \<open>item_map\<close>, each with its record.\<close>

definition epoll_ok :: "co_epoll \<Rightarrow> bool" where
  "epoll_ok e \<longleftrightarrow> (\<forall>fd item. item_map e fd = Some item \<longleftrightarrow> (\<exists>ev. interest e fd = Some (ev, item)))"

lemmas epoll_defs = epoll_ctl_add_def epoll_ctl_del_def epoll_ctl_mod_def epoll_add_def epoll_del_def
  epoll_mod_def Let_def

lemma epoll_ok_none: "epoll_ok e \<Longrightarrow> item_map e fd = None \<longleftrightarrow> interest e fd = None"
  unfolding epoll_ok_def by (metis not_None_eq surj_pair)

lemma epoll_add_ok: "epoll_ok e \<Longrightarrow> epoll_ok (snd (epoll_add fd ev a e))"
  using epoll_ok_none [of e fd] by (auto simp: epoll_ok_def epoll_defs)

lemma epoll_del_ok: "epoll_ok e \<Longrightarrow> epoll_ok (snd (epoll_del fd e))"
  by (auto simp: epoll_ok_def epoll_defs)

lemma epoll_mod_ok: "epoll_ok e \<Longrightarrow> epoll_ok (snd (epoll_mod fd ev e))"
  using epoll_ok_none [of e fd] by (auto simp: epoll_ok_def epoll_defs split: option.splits)

lemma epoll_links [simp]:
  "active_link (snd (epoll_add fd ev a e)) = active_link e"
  "timeout_link (snd (epoll_add fd ev a e)) = timeout_link e"
  "active_link (snd (epoll_del fd e)) = active_link e"
  "timeout_link (snd (epoll_del fd e)) = timeout_link e"
  by (simp_all add: epoll_defs)

lemma epoll_add_map: "item_map (snd (epoll_add fd ev a e)) =
    (if item_map e fd = None then (item_map e)(fd \<mapsto> a) else item_map e)"
  by (auto simp: epoll_defs)

lemma epoll_del_map: "item_map (snd (epoll_del fd e)) = (item_map e)(fd := None)"
  by (auto simp: epoll_defs)

end
