(* ===== verification/Scheduler.thy ===== *)
theory Scheduler
  imports Time_Wheel Co_Epoll
begin

text \<open>
  Coroutines and their scheduler: \<open>coroutine.h\<close>, \<open>coroutine.cpp\<close>, \<open>scheduler.h\<close> and
  \<open>scheduler.cpp\<close>, for the one scheduler of a thread.

  A coroutine that is not running has its C++ stack frozen inside a call of the library.
  What the library keeps in local variables there is the continuation \<open>kont\<close> of the
  coroutine, so each call that gives up control is split at its \<open>yield()\<close>: the part
  before it (\<open>register_begin\<close>) and the part that runs when the coroutine is resumed
  (\<open>register_end\<close>). The context switch itself is the subject of \<open>Co_Context\<close>.
\<close>

section \<open>State\<close>

text \<open>
  A coroutine object. \<open>co_conn\<close> is \<^term>\<open>None\<close> while the member \<open>conn_\<close> is not
  initialised, and \<open>Some p\<close> for the pointer \<open>p\<close>.
\<close>

record coroutine =
  co_func :: ptr
  co_start :: bool
  co_end :: bool
  co_ismain :: bool
  co_conn :: "ptr option"

text \<open>
  Where a coroutine is: not yet started; on the call stack; inside \<open>register_event\<close> with
  its locals \<open>fd\<close>, \<open>item\<close> and \<open>t_item\<close>; inside \<open>co_cond_wait\<close> with its locals, for
  the given condition; inside a plain \<open>yield()\<close>; at the end of \<open>co_func_wrapper\<close>.
\<close>

datatype kont =
    Fresh
  | Running
  | InRegister int addr addr
  | InWait addr addr addr
  | InYield
  | Finished

record sched =
  hp :: theap
  eitems :: "addr \<Rightarrow> co_epoll_item option"
  cos :: "addr \<Rightarrow> coroutine option"
  susp :: "addr \<Rightarrow> kont"
  co_call_stack :: "addr list"
  sch_epoll :: co_epoll
  sch_tw :: time_wheel
  destroy_co :: "addr list"
  co_deque :: "addr \<Rightarrow> addr list"

section \<open>Coroutines\<close>

definition new_main_coroutine :: coroutine where
  "new_main_coroutine =
     \<lparr>co_func = None, co_start = False, co_end = False, co_ismain = True, co_conn = None\<rparr>"

definition new_coroutine :: "ptr \<Rightarrow> coroutine" where
  "new_coroutine func =
     \<lparr>co_func = func, co_start = False, co_end = False, co_ismain = False, co_conn = Some None\<rparr>"

text \<open>\<open>new coroutine(sch, size, func, arg)\<close> at the address \<open>c\<close>.\<close>

definition spawn :: "addr \<Rightarrow> ptr \<Rightarrow> sched \<Rightarrow> sched" where
  "spawn c func s = s\<lparr>cos := (cos s)(c \<mapsto> new_coroutine func), susp := (susp s)(c := Fresh)\<rparr>"

text \<open>\<open>setconn\<close>, and the destructor, which frees the connection of the coroutine.\<close>

definition setconn :: "addr \<Rightarrow> ptr \<Rightarrow> sched \<Rightarrow> sched option" where
  "setconn c conn s = do {
     co \<leftarrow> cos s c;
     Some (s\<lparr>cos := (cos s)(c \<mapsto> co\<lparr>co_conn := Some conn\<rparr>)\<rparr>)
   }"

definition delete_coroutine :: "addr \<Rightarrow> sched \<Rightarrow> sched option" where
  "delete_coroutine c s = do {
     co \<leftarrow> cos s c;
     conn \<leftarrow> co_conn co;
     Some (s\<lparr>cos := (cos s)(c := None)\<rparr>)
   }"

text \<open>\<open>co_call_stack_.top()\<close>; undefined on an empty stack.\<close>

definition get_curr_co :: "sched \<Rightarrow> addr option" where
  "get_curr_co s = (case co_call_stack s of [] \<Rightarrow> None | c # _ \<Rightarrow> Some c)"

definition resume :: "addr \<Rightarrow> sched \<Rightarrow> sched option" where
  "resume c s = do {
     co1 \<leftarrow> get_curr_co s;
     co \<leftarrow> cos s c;
     let s = s\<lparr>cos := (cos s)(c \<mapsto> co\<lparr>co_start := True\<rparr>)\<rparr>;
     Some (s\<lparr>co_call_stack := c # co_call_stack s, susp := (susp s)(c := Running)\<rparr>)
   }"

text \<open>\<open>yield()\<close> of the running coroutine, which will continue at \<open>k\<close>.\<close>

definition yield_at :: "kont \<Rightarrow> sched \<Rightarrow> sched option" where
  "yield_at k s =
     (case co_call_stack s of
        c # c' # rest \<Rightarrow>
          Some (s\<lparr>co_call_stack := c' # rest, susp := (susp s)(c := k)\<rparr>)
      | _ \<Rightarrow> None)"

text \<open>The end of \<open>co_func_wrapper\<close>, after the function of the coroutine has returned.\<close>

definition co_func_end :: "sched \<Rightarrow> sched option" where
  "co_func_end s = do {
     c \<leftarrow> get_curr_co s;
     co \<leftarrow> cos s c;
     let s = s\<lparr>cos := (cos s)(c \<mapsto> co\<lparr>co_end := True\<rparr>), destroy_co := destroy_co s @ [c]\<rparr>;
     yield_at Finished s
   }"

section \<open>Waiting for a descriptor or a timeout\<close>

definition rd_eitem :: "ptr \<Rightarrow> sched \<Rightarrow> co_epoll_item option" where
  "rd_eitem p s = Option.bind p (eitems s)"

definition wr_eitem :: "ptr \<Rightarrow> (co_epoll_item \<Rightarrow> co_epoll_item) \<Rightarrow> sched \<Rightarrow> sched option" where
  "wr_eitem p f s = do {
     a \<leftarrow> p;
     e \<leftarrow> eitems s a;
     Some (s\<lparr>eitems := (eitems s)(a \<mapsto> f e)\<rparr>)
   }"

definition delete_eitem :: "addr \<Rightarrow> sched \<Rightarrow> sched option" where
  "delete_eitem a s = do { e \<leftarrow> eitems s a; Some (s\<lparr>eitems := (eitems s)(a := None)\<rparr>) }"

declare rd_eitem_def [mem_simps] wr_eitem_def [mem_simps] delete_eitem_def [mem_simps]

text \<open>Run a heap operation on the heap of the scheduler.\<close>

definition on_heap :: "(theap \<Rightarrow> theap option) \<Rightarrow> sched \<Rightarrow> sched option" where
  "on_heap f s = do { h \<leftarrow> f (hp s); Some (s\<lparr>hp := h\<rparr>) }"

text \<open>
  \<open>register_event\<close> up to its \<open>yield()\<close>, at the time \<open>now\<close>, with \<open>ae\<close> and \<open>at\<close> the
  addresses of the new \<open>co_epoll_item\<close> and \<open>time_item\<close>. The result is \<open>Inl r\<close> when the
  call returns \<open>r\<close> at once and \<open>Inr ()\<close> when it has yielded.
\<close>

definition register_begin ::
    "int \<Rightarrow> u32 \<Rightarrow> int \<Rightarrow> u64 \<Rightarrow> addr \<Rightarrow> addr \<Rightarrow> sched \<Rightarrow> ((int + unit) \<times> sched) option" where
  "register_begin fd events timeout now ae at s =
     (if timeout > get_max_size (sch_tw s) then Some (Inl (- 1), s)
      else do {
        co \<leftarrow> get_curr_co s;
        let s = s\<lparr>eitems := (eitems s)(ae \<mapsto>
                 \<lparr>ei_fd = fd, ei_is_timeout = False, ei_co = Some co, ei_t_item = None\<rparr>)\<rparr>;
        let s = (if fd > - 1
                 then s\<lparr>sch_epoll := snd (epoll_add fd events ae (sch_epoll s))\<rparr> else s);
        if timeout > 0 then do {
          let t_item = new_time_item (now + u64_of_int timeout) None None;
          let s = s\<lparr>hp := new_item at (t_item\<lparr>ti_item := Some ae\<rparr>) (hp s)\<rparr>;
          (_, h) \<leftarrow> add_timeout (Some at) (sch_tw s) (hp s);
          s \<leftarrow> wr_eitem (Some ae) (\<lambda>e. e\<lparr>ei_t_item := Some at\<rparr>) (s\<lparr>hp := h\<rparr>);
          s \<leftarrow> yield_at (InRegister fd ae at) s;
          Some (Inr (), s)
        } else if timeout = - 1 then do {
          let t_item = new_time_item 0 None None;
          let s = s\<lparr>hp := new_item at (t_item\<lparr>ti_item := Some ae\<rparr>) (hp s)\<rparr>;
          s \<leftarrow> wr_eitem (Some ae) (\<lambda>e. e\<lparr>ei_t_item := Some at\<rparr>) s;
          s \<leftarrow> yield_at (InRegister fd ae at) s;
          Some (Inr (), s)
        } else Some (Inl (- 1), s)
      })"

text \<open>\<open>register_event\<close> from its \<open>yield()\<close> to its end: the returned value and the state.\<close>

definition register_end :: "int \<Rightarrow> addr \<Rightarrow> addr \<Rightarrow> sched \<Rightarrow> (int \<times> sched) option" where
  "register_end fd item t_item s = do {
     let s = (if fd > - 1 then s\<lparr>sch_epoll := snd (epoll_del fd (sch_epoll s))\<rparr> else s);
     e \<leftarrow> eitems s item;
     let istimeout = ei_is_timeout e;
     s \<leftarrow> delete_eitem item s;
     s \<leftarrow> on_heap (delete_item (Some t_item)) s;
     Some (if istimeout then 1 else 0, s)
   }"

section \<open>The event loop\<close>

text \<open>
  One round of the loop over the events that \<open>epoll_wait\<close> reported. The flag says
  whether the loop returned from \<open>event_loop\<close> because the node was still in a list.
\<close>

definition handle_event :: "addr \<Rightarrow> sched \<Rightarrow> (bool \<times> sched) option" where
  "handle_event item s = do {
     e \<leftarrow> eitems s item;
     let t_item = ei_t_item e;
     s \<leftarrow> on_heap (wr_item t_item (\<lambda>t. t\<lparr>isremove := True\<rparr>)) s;
     t \<leftarrow> rd_item t_item (hp s);
     s \<leftarrow> (if ExpireTime t > 0 then on_heap (removeitem t_item) s else Some s);
     t \<leftarrow> rd_item t_item (hp s);
     if ti_link t \<noteq> None then Some (True, s)
     else do {
       s \<leftarrow> on_heap (link_push_back (Some (active_link (sch_epoll s))) t_item) s;
       Some (False, s)
     }
   }"

fun handle_events :: "addr list \<Rightarrow> sched \<Rightarrow> (bool \<times> sched) option" where
  "handle_events [] s = Some (False, s)"
| "handle_events (item # evs) s = do {
     (quit, s) \<leftarrow> handle_event item s;
     if quit then Some (True, s) else handle_events evs s
   }"

text \<open>The walk along the timeout list that marks every waiting record.\<close>

partial_function (option) mark_timeouts :: "ptr \<Rightarrow> sched \<Rightarrow> sched option" where
  "mark_timeouts ti s =
     (if ti = None then Some s
      else do {
        t \<leftarrow> rd_item ti (hp s);
        s \<leftarrow> wr_eitem (ti_item t) (\<lambda>e. e\<lparr>ei_is_timeout := True\<rparr>) s;
        mark_timeouts (ti_next t) s
      })"

text \<open>The event loop from the return of \<open>poll\<close> to the loop over the active list.\<close>

definition loop_collect :: "addr list \<Rightarrow> u64 \<Rightarrow> sched \<Rightarrow> (bool \<times> sched) option" where
  "loop_collect evs now s = do {
     let active = active_link (sch_epoll s);
     let timeout = timeout_link (sch_epoll s);
     (quit, s) \<leftarrow> handle_events evs s;
     if quit then Some (True, s)
     else do {
       (w, h) \<leftarrow> take_all_timeout now (Some timeout) (sch_tw s) (hp s);
       let s = s\<lparr>sch_tw := w, hp := h\<rparr>;
       k \<leftarrow> rd_link (Some timeout) (hp s);
       s \<leftarrow> mark_timeouts (tl_head k) s;
       s \<leftarrow> on_heap (link_splice (Some timeout) (Some active)) s;
       Some (False, s)
     }
   }"

text \<open>
  One round of the loop over the active list up to \<open>co->resume()\<close>: pop the head and read
  the coroutine of its record.
\<close>

definition loop_pop :: "sched \<Rightarrow> (addr \<times> sched) option" where
  "loop_pop s = do {
     (ti, h) \<leftarrow> link_pop (Some (active_link (sch_epoll s))) (hp s);
     let s = s\<lparr>hp := h\<rparr>;
     t \<leftarrow> rd_item ti (hp s);
     e \<leftarrow> rd_eitem (ti_item t) s;
     co \<leftarrow> ei_co e;
     Some (co, s)
   }"

fun clear_list :: "addr list \<Rightarrow> sched \<Rightarrow> sched option" where
  "clear_list [] s = Some s"
| "clear_list (c # cs) s = do {
     s \<leftarrow> delete_coroutine c (s\<lparr>destroy_co := cs\<rparr>);
     clear_list cs s
   }"

definition clear_co :: "sched \<Rightarrow> sched option" where
  "clear_co s = clear_list (destroy_co s) s"

section \<open>The constructor\<close>

text \<open>
  \<open>scheduler::scheduler()\<close> for a thread without a scheduler: the main coroutine at
  \<open>m\<close>, the lists at \<open>a\<close> and \<open>b\<close>, and the wheel of 60000 slots at \<open>slots\<close>.
\<close>

definition new_scheduler :: "addr \<Rightarrow> addr \<Rightarrow> addr \<Rightarrow> addr list \<Rightarrow> u64 \<Rightarrow> sched" where
  "new_scheduler m a b slots now =
     (let (e, h) = new_co_epoll a b \<lparr>titems = Map.empty, tlinks = Map.empty\<rparr>;
          (w, h) = new_time_wheel slots (60 * 1000) True now h
      in \<lparr>hp = h, eitems = Map.empty, cos = [m \<mapsto> new_main_coroutine],
          susp = (\<lambda>_. Fresh)(m := Running), co_call_stack = [m], sch_epoll = e, sch_tw = w,
          destroy_co = [], co_deque = (\<lambda>_. [])\<rparr>)"

end
