(* ===== verification/Co_Condition.thy ===== *)
theory Co_Condition
  imports Scheduler
begin

text \<open>
  The condition variables for coroutines, \<open>co_condition.h\<close> and \<open>co_condition.cpp\<close>.
  \<open>co_deque s c\<close> is the queue of the condition at the address \<open>c\<close>; a signal takes the
  record at its front and appends its node to the active list of the scheduler.
\<close>

section \<open>Operations\<close>

text \<open>\<open>co_cond_wait\<close> up to its \<open>yield()\<close>, and from there to its end.\<close>

definition wait_begin :: "addr \<Rightarrow> addr \<Rightarrow> addr \<Rightarrow> sched \<Rightarrow> sched option" where
  "wait_begin c ae at s = do {
     co \<leftarrow> get_curr_co s;
     let s = s\<lparr>eitems := (eitems s)(ae \<mapsto>
              \<lparr>ei_fd = - 1, ei_is_timeout = False, ei_co = Some co, ei_t_item = None\<rparr>)\<rparr>;
     let s = s\<lparr>hp := new_item at (new_time_item 0 None None) (hp s)\<rparr>;
     s \<leftarrow> wr_eitem (Some ae) (\<lambda>e. e\<lparr>ei_t_item := Some at\<rparr>) s;
     s \<leftarrow> on_heap (wr_item (Some at) (\<lambda>t. t\<lparr>ti_item := Some ae\<rparr>)) s;
     let s = s\<lparr>co_deque := (co_deque s)(c := co_deque s c @ [ae])\<rparr>;
     yield_at (InWait c ae at) s
   }"

definition wait_end :: "addr \<Rightarrow> addr \<Rightarrow> sched \<Rightarrow> (int \<times> sched) option" where
  "wait_end item t_item s = do {
     s \<leftarrow> delete_eitem item s;
     s \<leftarrow> on_heap (delete_item (Some t_item)) s;
     Some (1, s)
   }"

text \<open>
  The statements that append a node to the active list stand twice in the source, in
  \<open>co_cond_signal\<close> and in the loop of \<open>co_cond_broadcast\<close>.
\<close>

definition signal_append :: "ptr \<Rightarrow> ptr \<Rightarrow> theap \<Rightarrow> theap option" where
  "signal_append active item h = do {
     k \<leftarrow> rd_link active h;
     h \<leftarrow> (if tl_tail k \<noteq> None then do {
            h \<leftarrow> wr_item (tl_tail k) (\<lambda>t. t\<lparr>ti_next := item\<rparr>) h;
            h \<leftarrow> wr_item item (\<lambda>t. t\<lparr>ti_next := None\<rparr>) h;
            h \<leftarrow> wr_item item (\<lambda>t. t\<lparr>ti_prev := tl_tail k\<rparr>) h;
            wr_link active (\<lambda>k. k\<lparr>tl_tail := item\<rparr>) h
          } else do {
            h \<leftarrow> wr_link active (\<lambda>k. k\<lparr>tl_tail := item\<rparr>) h;
            h \<leftarrow> wr_link active (\<lambda>k. k\<lparr>tl_head := item\<rparr>) h;
            h \<leftarrow> wr_item item (\<lambda>t. t\<lparr>ti_prev := None\<rparr>) h;
            wr_item item (\<lambda>t. t\<lparr>ti_next := None\<rparr>) h
          });
     wr_item item (\<lambda>t. t\<lparr>ti_link := active\<rparr>) h
   }"

definition broadcast_append :: "ptr \<Rightarrow> ptr \<Rightarrow> theap \<Rightarrow> theap option" where
  "broadcast_append active item h = do {
     k \<leftarrow> rd_link active h;
     h \<leftarrow> (if tl_tail k \<noteq> None then do {
            h \<leftarrow> wr_item (tl_tail k) (\<lambda>t. t\<lparr>ti_next := item\<rparr>) h;
            h \<leftarrow> wr_item item (\<lambda>t. t\<lparr>ti_next := None\<rparr>) h;
            h \<leftarrow> wr_item item (\<lambda>t. t\<lparr>ti_prev := tl_tail k\<rparr>) h;
            wr_link active (\<lambda>k. k\<lparr>tl_tail := item\<rparr>) h
          } else do {
            h \<leftarrow> wr_link active (\<lambda>k. k\<lparr>tl_tail := item\<rparr>) h;
            h \<leftarrow> wr_link active (\<lambda>k. k\<lparr>tl_head := item\<rparr>) h;
            h \<leftarrow> wr_item item (\<lambda>t. t\<lparr>ti_prev := None\<rparr>) h;
            wr_item item (\<lambda>t. t\<lparr>ti_next := None\<rparr>) h
          });
     wr_item item (\<lambda>t. t\<lparr>ti_link := active\<rparr>) h
   }"

definition co_cond_signal :: "addr \<Rightarrow> sched \<Rightarrow> (int \<times> sched) option" where
  "co_cond_signal c s =
     (case co_deque s c of
        [] \<Rightarrow> Some (- 1, s)
      | front # rest \<Rightarrow> do {
          e \<leftarrow> eitems s front;
          let item = ei_t_item e;
          let s = s\<lparr>co_deque := (co_deque s)(c := rest)\<rparr>;
          s \<leftarrow> on_heap (signal_append (Some (active_link (sch_epoll s))) item) s;
          Some (1, s)
        })"

text \<open>The loop of \<open>co_cond_broadcast\<close>, over the records that are in the queue.\<close>

fun broadcast_loop :: "addr \<Rightarrow> addr list \<Rightarrow> sched \<Rightarrow> sched option" where
  "broadcast_loop c [] s = Some s"
| "broadcast_loop c (front # rest) s = do {
     e \<leftarrow> eitems s front;
     let item = ei_t_item e;
     let s = s\<lparr>co_deque := (co_deque s)(c := rest)\<rparr>;
     s \<leftarrow> on_heap (broadcast_append (Some (active_link (sch_epoll s))) item) s;
     broadcast_loop c rest s
   }"

definition co_cond_broadcast :: "addr \<Rightarrow> sched \<Rightarrow> (int \<times> sched) option" where
  "co_cond_broadcast c s = do { s \<leftarrow> broadcast_loop c (co_deque s c) s; Some (1, s) }"

section \<open>Waking a coroutine\<close>

text \<open>Both copies do what \<open>add_timeout\<close> does at the end of a list.\<close>

lemma wr_item_twice:
  "Option.bind (wr_item p f h) (\<lambda>h. Option.bind (wr_item p g h) k) = Option.bind (wr_item p (\<lambda>t. g (f t)) h) k"
  by (cases p; simp add: wr_item_def; cases "titems h (the p)"; simp)

lemma wr_link_twice:
  "Option.bind (wr_link p f h) (\<lambda>h. Option.bind (wr_link p g h) k) = Option.bind (wr_link p (\<lambda>t. g (f t)) h) k"
  by (cases p; simp add: wr_link_def; cases "tlinks h (the p)"; simp)

lemma update_order:
  "(t :: time_item)\<lparr>ti_prev := a, ti_next := b\<rparr> = t\<lparr>ti_next := b, ti_prev := a\<rparr>"
  "(k :: time_link)\<lparr>tl_tail := a, tl_head := b\<rparr> = k\<lparr>tl_head := b, tl_tail := a\<rparr>"
  by (cases t; simp) (cases k; simp)

lemma append_push_back:
  "signal_append (Some l) item h = link_push_back (Some l) item h"
  "broadcast_append (Some l) item h = link_push_back (Some l) item h"
proof -
  show "signal_append (Some l) item h = link_push_back (Some l) item h"
  proof (cases "rd_link (Some l) h")
    case (Some k)
    then show ?thesis
      by (cases "tl_tail k") (simp_all add: signal_append_def link_push_back_def wr_item_twice wr_link_twice update_order)
  qed (simp add: signal_append_def link_push_back_def)
  then show "broadcast_append (Some l) item h = link_push_back (Some l) item h"
    by (simp add: signal_append_def broadcast_append_def)
qed

definition wake_front :: "addr \<Rightarrow> addr \<Rightarrow> addr list \<Rightarrow> sched \<Rightarrow> sched option" where
  "wake_front c front rest s = do {
     e \<leftarrow> eitems s front;
     let s = s\<lparr>co_deque := (co_deque s)(c := rest)\<rparr>;
     on_heap (link_push_back (Some (active_link (sch_epoll s))) (ei_t_item e)) s
   }"

lemma on_heap_push:
  "on_heap (signal_append (Some l) item) = on_heap (link_push_back (Some l) item)"
  "on_heap (broadcast_append (Some l) item) = on_heap (link_push_back (Some l) item)"
  by (simp_all add: on_heap_def fun_eq_iff append_push_back)

lemma co_cond_signal_front:
  "co_cond_signal c s =
     (case co_deque s c of [] \<Rightarrow> Some (- 1, s)
      | front # rest \<Rightarrow> do { s \<leftarrow> wake_front c front rest s; Some (1, s) })"
  by (auto simp: co_cond_signal_def wake_front_def on_heap_push Let_def split: list.splits option.splits)

lemma broadcast_loop_front:
  "broadcast_loop c (front # rest) s = do { s \<leftarrow> wake_front c front rest s; broadcast_loop c rest s }"
  by (auto simp: wake_front_def on_heap_push Let_def split: option.splits)

declare broadcast_loop.simps(2) [simp del] broadcast_loop_front [simp]

section \<open>Signals\<close>

text \<open>\<open>co_cond_signal\<close> called \<open>n\<close> times.\<close>

primrec signals :: "addr \<Rightarrow> nat \<Rightarrow> sched \<Rightarrow> sched option" where
  "signals c 0 s = Some s"
| "signals c (Suc n) s = do { (_, s) \<leftarrow> co_cond_signal c s; signals c n s }"

lemma wake_front_queue:
  "wake_front k e rest s = Some s' \<Longrightarrow> co_deque s' = (co_deque s)(k := rest) \<and> eitems s' = eitems s"
  by (auto simp: wake_front_def on_heap_def Let_def bind_eq_Some_conv)

lemma co_cond_signal_queue:
  assumes "co_cond_signal k s = Some (r, s')"
  shows "co_deque s' = (co_deque s)(k := List.tl (co_deque s k)) \<and> eitems s' = eitems s"
  using assms wake_front_queue by (auto simp: co_cond_signal_front bind_eq_Some_conv fun_eq_iff split: list.splits)

lemma broadcast_queue:
  "broadcast_loop k es s = Some s' \<Longrightarrow> co_deque s k = es \<Longrightarrow> co_deque s' = (co_deque s)(k := []) \<and> eitems s' = eitems s"
proof (induction es arbitrary: s)
  case (Cons e es)
  from Cons.prems(1) obtain s1 where s1: "wake_front k e es s = Some s1" "broadcast_loop k es s1 = Some s'"
    by (auto simp: bind_eq_Some_conv)
  with wake_front_queue [OF s1(1)] Cons.IH [OF s1(2)] show ?case by (auto simp: fun_eq_iff)
qed (auto simp: fun_eq_iff)

lemma broadcast_loop_signals: "co_deque s c = es \<Longrightarrow> broadcast_loop c es s = signals c (length es) s"
proof (induction es arbitrary: s)
  case (Cons e es)
  show ?case
  proof (cases "wake_front c e es s")
    case (Some s')
    then have "co_deque s' c = es" using wake_front_queue by simp
    with Cons Some show ?thesis by (simp add: co_cond_signal_front)
  qed (use Cons.prems in \<open>simp add: co_cond_signal_front\<close>)
qed simp

end
