(* ===== verification/Sched_Waits.thy ===== *)
theory Sched_Waits
  imports Co_Condition
begin

text \<open>
  The bookkeeping behind the scheduler: which suspended coroutine owns which
  \<open>co_epoll_item\<close> and \<open>time_item\<close>, and where the node of a waiting coroutine is (in the
  wheel, in the active list, in the queue of a condition, or nowhere).

  \<open>waits_ok\<close> speaks about plain functions and sets: \<open>su\<close> the continuations, \<open>own\<close> the
  coroutine and the node of each record, \<open>it\<close> the record of each node, \<open>ex\<close> its
  deadline, \<open>fr\<close> whether it is in no list, \<open>W\<close> the nodes of the wheel, \<open>A\<close> the active
  nodes, \<open>dq\<close> the queues of the conditions and \<open>im\<close> the map from descriptors to
  records. One lemma per transition of the scheduler says how it moves.
\<close>

fun node_of :: "kont \<Rightarrow> (addr \<times> addr) option" where
  "node_of (InRegister fd e t) = Some (e, t)"
| "node_of (InWait k e t) = Some (e, t)"
| "node_of _ = None"

definition recs_ok :: "(addr \<Rightarrow> kont) \<Rightarrow> (addr \<Rightarrow> (ptr \<times> ptr) option) \<Rightarrow> (addr \<Rightarrow> ptr) \<Rightarrow> bool" where
  "recs_ok su own it \<longleftrightarrow>
     (\<forall>c e t. node_of (su c) = Some (e, t) \<longrightarrow> own e = Some (Some c, Some t) \<and> it t = Some e)"

definition reg_ok :: "(addr \<Rightarrow> kont) \<Rightarrow> (addr \<Rightarrow> nat option) \<Rightarrow> (addr \<Rightarrow> bool) \<Rightarrow> addr set \<Rightarrow>
    addr set \<Rightarrow> (int \<Rightarrow> addr option) \<Rightarrow> bool" where
  "reg_ok su ex fr W A im \<longleftrightarrow>
     (\<forall>c fd e t. su c = InRegister fd e t \<longrightarrow>
        (t \<in> W \<and> ex t \<noteq> Some 0 \<or> fr t \<and> ex t = Some 0 \<or> t \<in> A) \<and> (fd > - 1 \<longrightarrow> im fd = Some e))"

definition cond_ok :: "(addr \<Rightarrow> kont) \<Rightarrow> (addr \<Rightarrow> bool) \<Rightarrow> addr set \<Rightarrow> (addr \<Rightarrow> addr list) \<Rightarrow> bool" where
  "cond_ok su fr A dq \<longleftrightarrow>
     (\<forall>c k e t. su c = InWait k e t \<longrightarrow> t \<in> A \<or> fr t \<and> e \<in> set (dq k))"

definition own_ok :: "(addr \<Rightarrow> kont) \<Rightarrow> addr set \<Rightarrow> addr set \<Rightarrow> bool" where
  "own_ok su W A \<longleftrightarrow>
     (\<forall>t \<in> W. \<exists>c fd e. su c = InRegister fd e t) \<and> (\<forall>t \<in> A. \<exists>c e. node_of (su c) = Some (e, t))"

definition map_ok :: "(addr \<Rightarrow> kont) \<Rightarrow> (int \<Rightarrow> addr option) \<Rightarrow> bool" where
  "map_ok su im \<longleftrightarrow>
     (\<forall>fd e. im fd = Some e \<longrightarrow> fd > - 1 \<and> (\<exists>c t. su c = InRegister fd e t))"

definition queue_ok :: "(addr \<Rightarrow> kont) \<Rightarrow> (addr \<Rightarrow> bool) \<Rightarrow> (addr \<Rightarrow> addr list) \<Rightarrow> bool" where
  "queue_ok su fr dq \<longleftrightarrow>
     (\<forall>k. distinct (dq k) \<and> (\<forall>e \<in> set (dq k). \<exists>c t. su c = InWait k e t \<and> fr t))"

definition waits_ok :: "(addr \<Rightarrow> kont) \<Rightarrow> (addr \<Rightarrow> (ptr \<times> ptr) option) \<Rightarrow> (addr \<Rightarrow> ptr) \<Rightarrow>
    (addr \<Rightarrow> nat option) \<Rightarrow> (addr \<Rightarrow> bool) \<Rightarrow> addr set \<Rightarrow> addr set \<Rightarrow> (addr \<Rightarrow> addr list) \<Rightarrow>
    (int \<Rightarrow> addr option) \<Rightarrow> bool" where
  "waits_ok su own it ex fr W A dq im \<longleftrightarrow> recs_ok su own it \<and> reg_ok su ex fr W A im \<and>
     cond_ok su fr A dq \<and> own_ok su W A \<and> map_ok su im \<and> queue_ok su fr dq"

lemma waitsD:
  assumes "waits_ok su own it ex fr W A dq im"
  shows "recs_ok su own it" "reg_ok su ex fr W A im" "cond_ok su fr A dq" "own_ok su W A"
    "map_ok su im" "queue_ok su fr dq"
  using assms by (auto simp: waits_ok_def)

lemma node_of_cases:
  assumes "node_of k = Some (e, t)"
  obtains fd where "k = InRegister fd e t" | cd where "k = InWait cd e t"
  using assms by (cases k) auto

lemma recs_inj:
  assumes "recs_ok su own it" and "node_of (su c) = Some (e, t)" and "node_of (su c') = Some (e', t')"
  shows "e = e' \<longleftrightarrow> c = c'" "t = t' \<longleftrightarrow> c = c'"
  using assms unfolding recs_ok_def by (metis option.inject prod.inject)+

lemma recsD:
  assumes "recs_ok su own it"
  shows "node_of (su c) = Some (e, t) \<Longrightarrow> own e = Some (Some c, Some t) \<and> it t = Some e"
    "su c = InRegister fd e t \<Longrightarrow> own e = Some (Some c, Some t) \<and> it t = Some e"
    "su c = InWait cd e t \<Longrightarrow> own e = Some (Some c, Some t) \<and> it t = Some e"
  using assms unfolding recs_ok_def by (metis node_of.simps(1,2))+

lemma queue_owner:
  assumes w: "waits_ok su own it ex fr W A dq im" and "e \<in> set (dq k)" and c: "node_of (su c) = Some (e, t)"
  shows "su c = InWait k e t"
proof -
  from waitsD(6) [OF w] assms(2) have "\<exists>c' t'. su c' = InWait k e t'" unfolding queue_ok_def by blast
  then obtain c' t' where c': "su c' = InWait k e t'" by blast
  with recs_inj(1) [OF waitsD(1) [OF w] c, of c' e t'] have "c' = c" by simp
  with c c' show ?thesis by simp
qed

text \<open>A change of continuation that concerns no wait.\<close>

lemma waits_quiet:
  assumes "waits_ok su own it ex fr W A dq im" and "node_of (su c) = None" and "node_of k = None"
  shows "waits_ok (su(c := k)) own it ex fr W A dq im"
proof -
  define su' where "su' = su(c := k)"
  have R: "su' c' = InRegister fd e t \<longleftrightarrow> su c' = InRegister fd e t" for c' fd e t
    using assms(2,3) by (auto simp: su'_def)
  have I: "su' c' = InWait cd e t \<longleftrightarrow> su c' = InWait cd e t" for c' cd e t
    using assms(2,3) by (auto simp: su'_def)
  have N: "node_of (su' c') = node_of (su c')" for c' using assms(2,3) by (simp add: su'_def)
  have "waits_ok su' own it ex fr W A dq im"
    using assms(1)
    unfolding waits_ok_def recs_ok_def reg_ok_def cond_ok_def own_ok_def map_ok_def queue_ok_def R I N .
  then show ?thesis by (simp add: su'_def)
qed

lemmas waits_defs = recs_ok_def reg_ok_def cond_ok_def own_ok_def map_ok_def queue_ok_def

text \<open>A new wait, of either kind, with fresh objects \<open>ae\<close> and \<open>at\<close>.\<close>

lemma waits_fresh:
  assumes "waits_ok su own it ex fr W A dq im" and "own ae = None" and "it at = None"
    and "node_of (su c) = Some (e, t)"
  shows "e \<noteq> ae" "t \<noteq> at"
  using waitsD(1) [OF assms(1)] assms(2-4) by (auto simp: recs_ok_def)

lemma recs_new:
  assumes "waits_ok su own it ex fr W A dq im" and "own ae = None" and "it at = None"
    and "node_of k = Some (ae, at)"
  shows "recs_ok (su(c := k)) (own(ae \<mapsto> (Some c, Some at))) (it(at \<mapsto> ae))"
  using waitsD(1) [OF assms(1)] assms(2-4) by (auto simp: recs_ok_def)

lemma own_new:
  assumes "waits_ok su own it ex fr W A dq im" and "node_of (su c) = None"
  shows "own_ok (su(c := k)) W A"
  using waitsD(4) [OF assms(1)] assms(2) unfolding own_ok_def
  by (metis fun_upd_apply node_of.simps(1) option.discI)

lemma map_new:
  assumes "waits_ok su own it ex fr W A dq im" and "node_of (su c) = None"
  shows "map_ok (su(c := k)) im"
  using waitsD(5) [OF assms(1)] assms(2) unfolding map_ok_def
  by (metis fun_upd_apply node_of.simps(1) option.discI)

lemma queue_new:
  assumes "waits_ok su own it ex fr W A dq im" and "node_of (su c) = None" and "it at = None"
  shows "queue_ok (su(c := k)) (fr(at := b)) dq"
proof -
  have "\<exists>c' t. (su(c := k)) c' = InWait cd e t \<and> (fr(at := b)) t" if "e \<in> set (dq cd)" for cd e
  proof -
    from that waitsD(6) [OF assms(1)] obtain c' t where c': "su c' = InWait cd e t" "fr t"
      unfolding queue_ok_def by blast
    then have "it t = Some e" "c' \<noteq> c"
      using recsD(3) [OF waitsD(1) [OF assms(1)] c'(1)] assms(2) by auto
    with c' assms(3) show ?thesis by (intro exI [of _ c'] exI [of _ t]) auto
  qed
  with waitsD(6) [OF assms(1)] show ?thesis by (simp add: queue_ok_def)
qed

lemma waits_register:
  assumes w: "waits_ok su own it ex fr W A dq im"
    and new: "node_of (su c) = None" "own ae = None" "it at = None"
    and im: "fd > - 1 \<longrightarrow> im fd = None"
  shows "waits_ok (su(c := InRegister fd ae at)) (own(ae \<mapsto> (Some c, Some at))) (it(at \<mapsto> ae))
     (ex(at \<mapsto> n)) (fr(at := (n = 0))) (if n = 0 then W else insert at W) A dq
     (if fd > - 1 then im(fd \<mapsto> ae) else im)"
  unfolding waits_ok_def
proof (intro conjI)
  let ?W = "if n = 0 then W else insert at W" and ?im = "if fd > - 1 then im(fd \<mapsto> ae) else im"
  note fresh = waits_fresh [OF w new(2,3)]
  show "recs_ok (su(c := InRegister fd ae at)) (own(ae \<mapsto> (Some c, Some at))) (it(at \<mapsto> ae))"
    by (rule recs_new [OF w new(2,3)]) simp
  show "reg_ok (su(c := InRegister fd ae at)) (ex(at \<mapsto> n)) (fr(at := (n = 0))) ?W A ?im"
    unfolding reg_ok_def
  proof (intro allI impI)
    fix c' fd' e t assume c': "(su(c := InRegister fd ae at)) c' = InRegister fd' e t"
    show "(t \<in> ?W \<and> (ex(at \<mapsto> n)) t \<noteq> Some 0 \<or> (fr(at := (n = 0))) t \<and> (ex(at \<mapsto> n)) t = Some 0 \<or> t \<in> A) \<and>
       (fd' > - 1 \<longrightarrow> ?im fd' = Some e)"
    proof (cases "c' = c")
      case True
      with c' show ?thesis by auto
    next
      case False
      with c' have s: "su c' = InRegister fd' e t" by simp
      then have "t \<noteq> at" using fresh(2) [of c' e t] by simp
      moreover have "fd' > - 1 \<Longrightarrow> fd' \<noteq> fd" using waitsD(2) [OF w] s im by (auto simp: reg_ok_def)
      ultimately show ?thesis using waitsD(2) [OF w] s by (auto simp: reg_ok_def)
    qed
  qed
  show "cond_ok (su(c := InRegister fd ae at)) (fr(at := (n = 0))) A dq"
    unfolding cond_ok_def
  proof (intro allI impI)
    fix c' k e t assume "(su(c := InRegister fd ae at)) c' = InWait k e t"
    then have s: "su c' = InWait k e t" by (auto split: if_splits)
    then have "t \<noteq> at" using fresh(2) [of c' e t] by simp
    with waitsD(3) [OF w] s show "t \<in> A \<or> (fr(at := (n = 0))) t \<and> e \<in> set (dq k)"
      unfolding cond_ok_def by simp
  qed
  show "own_ok (su(c := InRegister fd ae at)) ?W A"
    using own_new [OF w new(1)] by (auto simp: own_ok_def)
  show "map_ok (su(c := InRegister fd ae at)) ?im"
    using map_new [OF w new(1)] by (auto simp: map_ok_def)
  show "queue_ok (su(c := InRegister fd ae at)) (fr(at := (n = 0))) dq"
    by (rule queue_new [OF w new(1,3)])
qed

lemma queue_push:
  assumes "queue_ok su fr dq" and "e \<notin> set (dq cd)" and "su c = InWait cd e t" and "fr t"
  shows "queue_ok su fr (dq(cd := dq cd @ [e]))"
  using assms by (auto simp: queue_ok_def)

lemma waits_wait:
  assumes w: "waits_ok su own it ex fr W A dq im"
    and new: "node_of (su c) = None" "own ae = None" "it at = None"
  shows "waits_ok (su(c := InWait cd ae at)) (own(ae \<mapsto> (Some c, Some at))) (it(at \<mapsto> ae))
     (ex(at \<mapsto> 0)) (fr(at := True)) W A (dq(cd := dq cd @ [ae])) im"
  unfolding waits_ok_def
proof (intro conjI)
  note fresh = waits_fresh [OF w new(2,3)]
  show "recs_ok (su(c := InWait cd ae at)) (own(ae \<mapsto> (Some c, Some at))) (it(at \<mapsto> ae))"
    by (rule recs_new [OF w new(2,3)]) simp
  show "reg_ok (su(c := InWait cd ae at)) (ex(at \<mapsto> 0)) (fr(at := True)) W A im"
    unfolding reg_ok_def
  proof (intro allI impI)
    fix c' fd' e t assume "(su(c := InWait cd ae at)) c' = InRegister fd' e t"
    then have s: "su c' = InRegister fd' e t" by (auto split: if_splits)
    then have "t \<noteq> at" using fresh(2) [of c' e t] by simp
    with waitsD(2) [OF w] s show "(t \<in> W \<and> (ex(at \<mapsto> 0)) t \<noteq> Some 0 \<or>
        (fr(at := True)) t \<and> (ex(at \<mapsto> 0)) t = Some 0 \<or> t \<in> A) \<and> (fd' > - 1 \<longrightarrow> im fd' = Some e)"
      unfolding reg_ok_def by simp
  qed
  show "cond_ok (su(c := InWait cd ae at)) (fr(at := True)) A (dq(cd := dq cd @ [ae]))"
    using waitsD(3) [OF w] fresh(2) unfolding cond_ok_def by auto
  show "own_ok (su(c := InWait cd ae at)) W A"
    by (rule own_new [OF w new(1)])
  show "map_ok (su(c := InWait cd ae at)) im"
    by (rule map_new [OF w new(1)])
  have q: "queue_ok (su(c := InWait cd ae at)) (fr(at := True)) dq"
    by (rule queue_new [OF w new(1,3)])
  moreover have "ae \<notin> set (dq cd)"
  proof
    assume "ae \<in> set (dq cd)"
    with waitsD(6) [OF w] obtain c' t where "su c' = InWait cd ae t" unfolding queue_ok_def by blast
    then show False using fresh(1) [of c' ae t] by simp
  qed
  ultimately show "queue_ok (su(c := InWait cd ae at)) (fr(at := True)) (dq(cd := dq cd @ [ae]))"
    by (rule queue_push) auto
qed

text \<open>
  The node of a waiting coroutine becomes active, because of an event or a signal; its
  record leaves the queue it may be in.
\<close>

lemma waits_activate:
  assumes w: "waits_ok su own it ex fr W A dq im"
    and c: "node_of (su c) = Some (e, t)"
    and dq: "\<And>k. set (dq' k) = set (dq k) - {e}" "\<And>k. distinct (dq' k)"
  shows "waits_ok su own it ex (fr(t := False)) (W - {t}) (insert t A) dq' im"
  unfolding waits_ok_def
proof (intro conjI)
  note inj = recs_inj [OF waitsD(1) [OF w] c]
  show "recs_ok su own it" "map_ok su im" using waitsD [OF w] by simp_all
  show "reg_ok su ex (fr(t := False)) (W - {t}) (insert t A) im"
    using waitsD(2) [OF w] by (auto simp: reg_ok_def)
  show "own_ok su (W - {t}) (insert t A)"
    using waitsD(4) [OF w] c by (auto simp: own_ok_def)
  show "cond_ok su (fr(t := False)) (insert t A) dq'"
    unfolding cond_ok_def
  proof (intro allI impI)
    fix c' k e' t' assume s: "su c' = InWait k e' t'"
    then have "e = e' \<longleftrightarrow> t = t'" using inj [of c' e' t'] by simp
    with s waitsD(3) [OF w] show "t' \<in> insert t A \<or> (fr(t := False)) t' \<and> e' \<in> set (dq' k)"
      unfolding cond_ok_def dq by auto
  qed
  show "queue_ok su (fr(t := False)) dq'"
    unfolding queue_ok_def
  proof (intro allI conjI ballI)
    fix k e' assume "e' \<in> set (dq' k)"
    then have e': "e' \<in> set (dq k)" "e' \<noteq> e" unfolding dq by auto
    with waitsD(6) [OF w] obtain c' t' where s: "su c' = InWait k e' t'" "fr t'"
      unfolding queue_ok_def by blast
    with inj [of c' e' t'] e' have "t' \<noteq> t" by auto
    with s show "\<exists>c' t'. su c' = InWait k e' t' \<and> (fr(t := False)) t'" by auto
  qed (rule dq)
qed

lemma waits_take:
  assumes "waits_ok su own it ex fr W A dq im" and "D \<subseteq> W"
  shows "waits_ok su own it ex fr (W - D) (A \<union> D) dq im"
proof -
  have "\<exists>c e. node_of (su c) = Some (e, t)" if "t \<in> A \<union> D" for t
    using that assms(2) waitsD(4) [OF assms(1)] node_of.simps(1) unfolding own_ok_def
    by (metis Un_iff subsetD)
  then have "own_ok su (W - D) (A \<union> D)"
    using waitsD(4) [OF assms(1)] by (auto simp: own_ok_def)
  moreover have "reg_ok su ex fr (W - D) (A \<union> D) im"
    using waitsD(2) [OF assms(1)] by (auto simp: reg_ok_def)
  moreover have "cond_ok su fr (A \<union> D) dq"
    using waitsD(3) [OF assms(1)] unfolding cond_ok_def by (metis UnCI)
  ultimately show ?thesis using waitsD [OF assms(1)] by (simp add: waits_ok_def)
qed

text \<open>The end of a wait: the record and the node are freed.\<close>

definition unmap :: "kont \<Rightarrow> (int \<Rightarrow> addr option) \<Rightarrow> int \<Rightarrow> addr option" where
  "unmap k im = (case k of InRegister fd e t \<Rightarrow> if fd > - 1 then im(fd := None) else im | _ \<Rightarrow> im)"

lemma waits_other:
  assumes "waits_ok su own it ex fr W A dq im" and "node_of (su c) = Some (e, t)" and "c' \<noteq> c"
  shows "node_of (su c') = Some (e', t') \<Longrightarrow> e' \<noteq> e \<and> t' \<noteq> t"
    "su c' = InRegister fd e' t' \<Longrightarrow> e' \<noteq> e \<and> t' \<noteq> t" "su c' = InWait k e' t' \<Longrightarrow> e' \<noteq> e \<and> t' \<noteq> t"
  using recs_inj [OF waitsD(1) [OF assms(1)] assms(2), of c' e' t'] assms(3) by auto

lemma reg_end:
  assumes w: "waits_ok su own it ex fr W A dq im" and c: "node_of (su c) = Some (e, t)"
  shows "reg_ok (su(c := Running)) (ex(t := None)) fr W (A - {t}) (unmap (su c) im)"
  unfolding reg_ok_def
proof (intro allI impI)
  fix c' fd e' t' assume "(su(c := Running)) c' = InRegister fd e' t'"
  then have s: "c' \<noteq> c" "su c' = InRegister fd e' t'" by (auto split: if_splits)
  note ne = waits_other(2) [OF w c s]
  have im: "fd > - 1 \<Longrightarrow> im fd = Some e'" using s waitsD(2) [OF w] unfolding reg_ok_def by blast
  have "unmap (su c) im fd = im fd" if "fd > - 1"
  proof (cases "su c")
    case (InRegister fd2 e2 t2)
    with c have "fd2 > - 1 \<Longrightarrow> im fd2 = Some e" using waitsD(2) [OF w] unfolding reg_ok_def by auto
    with InRegister im that ne show ?thesis by (auto simp: unmap_def)
  qed (simp_all add: unmap_def)
  with s ne im waitsD(2) [OF w]
  show "(t' \<in> W \<and> (ex(t := None)) t' \<noteq> Some 0 \<or> fr t' \<and> (ex(t := None)) t' = Some 0 \<or> t' \<in> A - {t}) \<and>
    (fd > - 1 \<longrightarrow> unmap (su c) im fd = Some e')"
    unfolding reg_ok_def by auto
qed

lemma map_end:
  assumes w: "waits_ok su own it ex fr W A dq im"
  shows "map_ok (su(c := Running)) (unmap (su c) im)"
  unfolding map_ok_def
proof (intro allI impI)
  fix fd e' assume "unmap (su c) im fd = Some e'"
  then have im: "im fd = Some e'" "\<And>e t. su c = InRegister fd e t \<Longrightarrow> \<not> fd > - 1"
    by (auto simp: unmap_def split: kont.splits if_splits)
  with waitsD(5) [OF w] obtain c' t' where "fd > - 1" "su c' = InRegister fd e' t'"
    unfolding map_ok_def by blast
  with im(2) show "fd > - 1 \<and> (\<exists>c' t'. (su(c := Running)) c' = InRegister fd e' t')" by (metis fun_upd_other)
qed

lemma queue_end:
  assumes w: "waits_ok su own it ex fr W A dq im" and c: "node_of (su c) = Some (e, t)" and t: "\<not> fr t"
  shows "queue_ok (su(c := Running)) fr dq"
  unfolding queue_ok_def
proof (intro allI conjI ballI)
  fix k e' assume "e' \<in> set (dq k)"
  with waitsD(6) [OF w] obtain c' t' where s: "su c' = InWait k e' t'" "fr t'"
    unfolding queue_ok_def by blast
  with t(1) c have "c' \<noteq> c" by auto
  with s show "\<exists>c' t'. (su(c := Running)) c' = InWait k e' t' \<and> fr t'" by (metis fun_upd_other)
qed (use waitsD(6) [OF w] in \<open>simp add: queue_ok_def\<close>)

lemma waits_end:
  assumes w: "waits_ok su own it ex fr W A dq im"
    and c: "node_of (su c) = Some (e, t)" and t: "\<not> fr t" "t \<notin> W"
  shows "waits_ok (su(c := Running)) (own(e := None)) (it(t := None)) (ex(t := None)) fr W (A - {t}) dq
     (unmap (su c) im)"
proof -
  let ?su = "su(c := Running)"
  have N: "node_of (?su c') = Some (e', t') \<longleftrightarrow> c' \<noteq> c \<and> node_of (su c') = Some (e', t')" for c' e' t'
    by simp
  have R: "?su c' = InRegister fd e' t' \<longleftrightarrow> c' \<noteq> c \<and> su c' = InRegister fd e' t'" for c' fd e' t' by simp
  have I: "?su c' = InWait k e' t' \<longleftrightarrow> c' \<noteq> c \<and> su c' = InWait k e' t'" for c' k e' t' by simp
  have "recs_ok ?su (own(e := None)) (it(t := None))"
    using waitsD(1) [OF w] waits_other(1) [OF w c] unfolding recs_ok_def N by (metis fun_upd_apply)
  moreover have "cond_ok ?su fr (A - {t}) dq"
    using waitsD(3) [OF w] waits_other(3) [OF w c] unfolding cond_ok_def I by blast
  moreover have "own_ok ?su W (A - {t})"
    using waitsD(4) [OF w] c t unfolding own_ok_def N R
    by (metis DiffE insertCI node_of.simps(1) option.inject prod.inject)
  ultimately show ?thesis
    using reg_end [OF w c] map_end [OF w] queue_end [OF w c t(1)] by (simp add: waits_ok_def)
qed

end
