(* ===== verification/Sched_Machine.thy ===== *)
theory Sched_Machine
  imports Sched_Waits
begin

text \<open>
  A thread with its scheduler as a state machine: the event loop, and everything the
  coroutines of the thread may ask of the library, in any order (\<open>thread_step\<close>), and its steps
  under the conditions that callers have to keep (\<open>call_ok\<close>, \<open>step\<close>). The invariant
  \<open>sched_inv\<close> ties the pointers, the wheel, the queues and the call stack together; the
  properties say that the machine never touches freed or unlinked memory and what a
  round of the event loop does.
\<close>

section \<open>The machine\<close>

text \<open>
  \<open>resume()\<close> of a coroutine, together with what it then executes inside the library
  before its own code continues. Resuming a coroutine that is on the call stack, or one
  that has finished, jumps to a dead context.
\<close>

definition resume_co :: "addr \<Rightarrow> sched \<Rightarrow> (int option \<times> sched) option" where
  "resume_co c s =
     (case susp s c of
        InRegister fd e t \<Rightarrow> do { s \<leftarrow> resume c s; (r, s) \<leftarrow> register_end fd e t s; Some (Some r, s) }
      | InWait k e t \<Rightarrow> do { s \<leftarrow> resume c s; (r, s) \<leftarrow> wait_end e t s; Some (Some r, s) }
      | Running \<Rightarrow> None
      | Finished \<Rightarrow> None
      | _ \<Rightarrow> do { s \<leftarrow> resume c s; Some (None, s) })"

definition loop_drain :: "sched \<Rightarrow> sched option" where
  "loop_drain s = do { (co, s) \<leftarrow> loop_pop s; (_, s) \<leftarrow> resume_co co s; Some s }"

definition active_empty :: "sched \<Rightarrow> bool" where
  "active_empty s \<longleftrightarrow>
     (case tlinks (hp s) (active_link (sch_epoll s)) of Some k \<Rightarrow> tl_head k = None | None \<Rightarrow> False)"

text \<open>
  Where the main coroutine is: outside \<open>event_loop\<close>, before \<open>poll\<close>, in the loop over the
  active list, in the function that \<open>event_loop\<close> calls after it.
\<close>

datatype mpc = Outside | AtPoll | AtDrain | InFunc

datatype sys = Sys mpc sched | Fault

definition outcome :: "mpc \<Rightarrow> sched option \<Rightarrow> sys" where
  "outcome pc r = (case r of None \<Rightarrow> Fault | Some s \<Rightarrow> Sys pc s)"

definition loop_collected :: "(bool \<times> sched) option \<Rightarrow> sys" where
  "loop_collected r =
     (case r of None \<Rightarrow> Fault | Some (quit, s) \<Rightarrow> Sys (if quit then Outside else AtDrain) s)"

text \<open>
  What \<open>epoll_wait\<close> may report: pointers registered for descriptors in its interest
  list, one per descriptor, at most the 1024 of the event array.
\<close>

definition events_ok :: "addr list \<Rightarrow> sched \<Rightarrow> bool" where
  "events_ok evs s \<longleftrightarrow> distinct evs \<and> length evs \<le> 1024 \<and>
     (\<forall>e \<in> set evs. \<exists>fd ev. interest (sch_epoll s) fd = Some (ev, e))"

text \<open>The clock has not run backwards and is not near the end of its range.\<close>

definition time_ok :: "u64 \<Rightarrow> sched \<Rightarrow> bool" where
  "time_ok now s \<longleftrightarrow> w_start (sch_tw s) \<le> now \<and> unat now - unat (w_start (sch_tw s)) < 2147483647 \<and>
     unat now + nat (w_size (sch_tw s)) < 2 ^ 64"

text \<open>Main runs its own code outside \<open>event_loop\<close> and in its function; the others always do.\<close>

definition user_turn :: "mpc \<Rightarrow> sched \<Rightarrow> bool" where
  "user_turn pc s \<longleftrightarrow> length (co_call_stack s) > 1 \<or> pc = Outside \<or> pc = InFunc"

text \<open>
  What a thread does: the moves of the event loop, and the calls of its coroutines. The
  addresses of \<open>RegisterEvent\<close> and \<open>CondWait\<close> are those of the record and the node they allocate.
\<close>

datatype action =
    Enter
  | Poll "addr list" u64
  | Drain
  | Drained
  | FuncBreak
  | FuncClear
  | NewCo addr "nat option"
  | SetConn addr ptr
  | ResumeCo addr
  | YieldCo
  | FinishCo
  | RegisterEvent int u32 int u64 addr addr
  | CondWait addr addr addr
  | CondSignal addr
  | CondBroadcast addr

text \<open>
  The thread, whatever its coroutines call. The only conditions are whose turn it is, what the
  kernel reports and the clock shows, and that new objects have unused addresses.
\<close>

inductive thread_step :: "action \<Rightarrow> sys \<Rightarrow> sys \<Rightarrow> bool" where
  "length (co_call_stack s) = 1 \<Longrightarrow> thread_step Enter (Sys Outside s) (Sys AtPoll s)"
| "length (co_call_stack s) = 1 \<Longrightarrow> events_ok evs s \<Longrightarrow> time_ok now s \<Longrightarrow>
     thread_step (Poll evs now) (Sys AtPoll s) (loop_collected (loop_collect evs now s))"
| "length (co_call_stack s) = 1 \<Longrightarrow> \<not> active_empty s \<Longrightarrow>
     thread_step Drain (Sys AtDrain s) (outcome AtDrain (loop_drain s))"
| "length (co_call_stack s) = 1 \<Longrightarrow> active_empty s \<Longrightarrow> thread_step Drained (Sys AtDrain s) (Sys InFunc s)"
| "length (co_call_stack s) = 1 \<Longrightarrow> thread_step FuncBreak (Sys InFunc s) (Sys Outside s)"
| "length (co_call_stack s) = 1 \<Longrightarrow> thread_step FuncClear (Sys InFunc s) (outcome AtPoll (clear_co s))"
| "user_turn pc s \<Longrightarrow> cos s c = None \<Longrightarrow> thread_step (NewCo c func) (Sys pc s) (Sys pc (spawn c func s))"
| "user_turn pc s \<Longrightarrow> thread_step (SetConn c conn) (Sys pc s) (outcome pc (setconn c conn s))"
| "user_turn pc s \<Longrightarrow> thread_step (ResumeCo c) (Sys pc s) (outcome pc (map_option snd (resume_co c s)))"
| "length (co_call_stack s) > 1 \<Longrightarrow> thread_step YieldCo (Sys pc s) (outcome pc (yield_at InYield s))"
| "length (co_call_stack s) > 1 \<Longrightarrow> thread_step FinishCo (Sys pc s) (outcome pc (co_func_end s))"
| "length (co_call_stack s) > 1 \<Longrightarrow> eitems s ae = None \<Longrightarrow> titems (hp s) at = None \<Longrightarrow>
     thread_step (RegisterEvent fd events timeout now ae at) (Sys pc s)
       (outcome pc (map_option snd (register_begin fd events timeout now ae at s)))"
| "length (co_call_stack s) > 1 \<Longrightarrow> eitems s ae = None \<Longrightarrow> titems (hp s) at = None \<Longrightarrow>
     thread_step (CondWait k ae at) (Sys pc s) (outcome pc (wait_begin k ae at s))"
| "user_turn pc s \<Longrightarrow> thread_step (CondSignal k) (Sys pc s) (outcome pc (map_option snd (co_cond_signal k s)))"
| "user_turn pc s \<Longrightarrow> thread_step (CondBroadcast k) (Sys pc s) (outcome pc (map_option snd (co_cond_broadcast k s)))"

text \<open>A run, with its actions and the states in which they were taken.\<close>

inductive thread_run :: "sys \<Rightarrow> (action \<times> sys) list \<Rightarrow> sys \<Rightarrow> bool" where
  run_start: "thread_run x [] x"
| run_more: "thread_run x tr y \<Longrightarrow> thread_step a y z \<Longrightarrow> thread_run x (tr @ [(a, y)]) z"

text \<open>
  The calls of \<open>register_event\<close> that are safe: with no timeout, with one that is refused
  at once, or with one whose deadline lies within a turn of the wheel, counted from the
  last poll; and on a descriptor that no other coroutine is waiting for.
\<close>

definition timeout_ok :: "int \<Rightarrow> u64 \<Rightarrow> sched \<Rightarrow> bool" where
  "timeout_ok timeout now s \<longleftrightarrow> timeout = - 1 \<or> timeout > w_size (sch_tw s) \<or>
     0 < timeout \<and> w_start (sch_tw s) \<le> now \<and>
     unat now + nat timeout < unat (w_start (sch_tw s)) + nat (w_size (sch_tw s))"

definition register_ok :: "int \<Rightarrow> int \<Rightarrow> u64 \<Rightarrow> addr \<Rightarrow> addr \<Rightarrow> sched \<Rightarrow> bool" where
  "register_ok fd timeout now ae at s \<longleftrightarrow> timeout_ok timeout now s \<and>
     (fd > - 1 \<longrightarrow> item_map (sch_epoll s) fd = None) \<and> eitems s ae = None \<and> titems (hp s) at = None"

text \<open>
  What the library expects of its callers and does not check: the calls of \<open>register_event\<close>
  above, and that only coroutines are resumed by hand that are new or have yielded. The other
  calls are always safe.
\<close>

fun call_ok :: "action \<Rightarrow> sys \<Rightarrow> bool" where
  "call_ok (RegisterEvent fd events timeout now ae at) (Sys pc s) \<longleftrightarrow>
     timeout_ok timeout now s \<and> (fd > - 1 \<longrightarrow> item_map (sch_epoll s) fd = None)"
| "call_ok (ResumeCo c) (Sys pc s) \<longleftrightarrow> cos s c \<noteq> None \<and> (susp s c = Fresh \<or> susp s c = InYield)"
| "call_ok (SetConn c conn) (Sys pc s) \<longleftrightarrow> cos s c \<noteq> None"
| "call_ok _ _ \<longleftrightarrow> True"

definition calls_ok :: "(action \<times> sys) list \<Rightarrow> bool" where
  "calls_ok tr \<longleftrightarrow> list_all (\<lambda>(a, x). call_ok a x) tr"

text \<open>The steps of a thread whose callers keep to this, without their actions.\<close>

inductive step :: "sys \<Rightarrow> sys \<Rightarrow> bool" where
  enter: "length (co_call_stack s) = 1 \<Longrightarrow> step (Sys Outside s) (Sys AtPoll s)"
| poll: "length (co_call_stack s) = 1 \<Longrightarrow> events_ok evs s \<Longrightarrow> time_ok now s \<Longrightarrow>
     step (Sys AtPoll s) (loop_collected (loop_collect evs now s))"
| drain: "length (co_call_stack s) = 1 \<Longrightarrow> \<not> active_empty s \<Longrightarrow>
     step (Sys AtDrain s) (outcome AtDrain (loop_drain s))"
| drained: "length (co_call_stack s) = 1 \<Longrightarrow> active_empty s \<Longrightarrow> step (Sys AtDrain s) (Sys InFunc s)"
| func_break: "length (co_call_stack s) = 1 \<Longrightarrow> step (Sys InFunc s) (Sys Outside s)"
| func_clear: "length (co_call_stack s) = 1 \<Longrightarrow>
     step (Sys InFunc s) (outcome AtPoll (clear_co s))"
| new_co: "user_turn pc s \<Longrightarrow> cos s c = None \<Longrightarrow> step (Sys pc s) (Sys pc (spawn c func s))"
| set_conn: "user_turn pc s \<Longrightarrow> cos s c \<noteq> None \<Longrightarrow> step (Sys pc s) (outcome pc (setconn c conn s))"
| resume_new: "user_turn pc s \<Longrightarrow> cos s c \<noteq> None \<Longrightarrow> susp s c = Fresh \<or> susp s c = InYield \<Longrightarrow>
     step (Sys pc s) (outcome pc (map_option snd (resume_co c s)))"
| yield: "length (co_call_stack s) > 1 \<Longrightarrow> step (Sys pc s) (outcome pc (yield_at InYield s))"
| finish: "length (co_call_stack s) > 1 \<Longrightarrow> step (Sys pc s) (outcome pc (co_func_end s))"
| register: "length (co_call_stack s) > 1 \<Longrightarrow> register_ok fd timeout now ae at s \<Longrightarrow>
     step (Sys pc s) (outcome pc (map_option snd (register_begin fd events timeout now ae at s)))"
| wait: "length (co_call_stack s) > 1 \<Longrightarrow> eitems s ae = None \<Longrightarrow> titems (hp s) at = None \<Longrightarrow>
     step (Sys pc s) (outcome pc (wait_begin k ae at s))"
| signal: "user_turn pc s \<Longrightarrow> step (Sys pc s) (outcome pc (map_option snd (co_cond_signal k s)))"
| broadcast: "user_turn pc s \<Longrightarrow> step (Sys pc s) (outcome pc (map_option snd (co_cond_broadcast k s)))"

lemma step_iff: "step x y \<longleftrightarrow> (\<exists>a. thread_step a x y \<and> call_ok a x)"
proof
  show "\<exists>a. thread_step a x y \<and> call_ok a x" if "step x y"
    using that
    by (cases rule: step.cases) (fastforce intro: thread_step.intros simp: register_ok_def)+
  show "step x y" if "\<exists>a. thread_step a x y \<and> call_ok a x"
    using that by (auto elim!: thread_step.cases intro: step.intros simp: register_ok_def)
qed

lemma thread_run_steps:
  assumes "thread_run x tr y" and "calls_ok tr"
  shows "step\<^sup>*\<^sup>* x y"
  using assms
proof (induction rule: thread_run.induct)
  case (run_more x tr y a z)
  then have "step y z" "calls_ok tr" by (auto simp: step_iff calls_ok_def)
  with run_more.IH show ?case by (meson rtranclp.rtrancl_into_rtrancl)
qed simp

lemma steps_thread_run:
  assumes "step\<^sup>*\<^sup>* x y"
  shows "\<exists>tr. thread_run x tr y \<and> calls_ok tr"
  using assms
proof (induction rule: rtranclp_induct)
  case base
  have "thread_run x [] x" "calls_ok []" by (simp_all add: run_start calls_ok_def)
  then show ?case by blast
next
  case (step y z)
  then obtain tr a where "thread_run x tr y" "calls_ok tr" "thread_step a y z" "call_ok a y" by (auto simp: step_iff)
  then have "thread_run x (tr @ [(a, y)]) z" "calls_ok (tr @ [(a, y)])" by (simp_all add: run_more calls_ok_def)
  then show ?case by blast
qed

section \<open>The invariant\<close>

definition own_of :: "sched \<Rightarrow> addr \<Rightarrow> (ptr \<times> ptr) option" where
  "own_of s e = map_option (\<lambda>x. (ei_co x, ei_t_item x)) (eitems s e)"

lemma own_of_upd [simp]:
  "own_of (s\<lparr>hp := h\<rparr>) = own_of s" "own_of (s\<lparr>co_deque := d\<rparr>) = own_of s"
  "own_of (s\<lparr>susp := f\<rparr>) = own_of s" "own_of (s\<lparr>co_call_stack := st\<rparr>) = own_of s"
  "own_of (s\<lparr>sch_epoll := ep\<rparr>) = own_of s" "own_of (s\<lparr>sch_tw := tw\<rparr>) = own_of s"
  "own_of (s\<lparr>cos := g\<rparr>) = own_of s" "own_of (s\<lparr>destroy_co := ds\<rparr>) = own_of s"
  by (simp_all add: own_of_def fun_eq_iff)

definition item_of :: "theap \<Rightarrow> addr \<Rightarrow> ptr" where
  "item_of h t = Option.bind (data_of h t) (\<lambda>(_, _, _, i, _). i)"

definition lists_ok :: "(addr \<Rightarrow> addr list option) \<Rightarrow> addr list \<Rightarrow> sched \<Rightarrow> bool" where
  "lists_ok L A s \<longleftrightarrow> wheel_ok (sch_tw s) L (hp s) \<and>
     L (active_link (sch_epoll s)) = Some A \<and> L (timeout_link (sch_epoll s)) = Some [] \<and>
     active_link (sch_epoll s) \<noteq> timeout_link (sch_epoll s) \<and>
     active_link (sch_epoll s) \<notin> set (tw_slots (sch_tw s)) \<and>
     timeout_link (sch_epoll s) \<notin> set (tw_slots (sch_tw s)) \<and> epoll_ok (sch_epoll s)"

lemma lists_ok_upd [simp]:
  "lists_ok L A (s\<lparr>co_deque := d\<rparr>) = lists_ok L A s" "lists_ok L A (s\<lparr>susp := f\<rparr>) = lists_ok L A s"
  "lists_ok L A (s\<lparr>co_call_stack := st\<rparr>) = lists_ok L A s" "lists_ok L A (s\<lparr>cos := g\<rparr>) = lists_ok L A s"
  "lists_ok L A (s\<lparr>destroy_co := ds\<rparr>) = lists_ok L A s" "lists_ok L A (s\<lparr>eitems := es\<rparr>) = lists_ok L A s"
  by (simp_all add: lists_ok_def)

definition waits :: "(addr \<Rightarrow> addr list option) \<Rightarrow> addr list \<Rightarrow> sched \<Rightarrow> bool" where
  "waits L A s \<longleftrightarrow> waits_ok (susp s) (own_of s) (item_of (hp s)) (expire_of (hp s)) (unlinked (hp s))
     (wheel_set (sch_tw s) L) (set A) (co_deque s) (item_map (sch_epoll s))"

definition stack_ok :: "addr \<Rightarrow> sched \<Rightarrow> bool" where
  "stack_ok m s \<longleftrightarrow> co_call_stack s \<noteq> [] \<and> last (co_call_stack s) = m \<and> distinct (co_call_stack s) \<and>
     (\<forall>c. c \<in> set (co_call_stack s) \<longleftrightarrow> susp s c = Running) \<and>
     (\<forall>c. susp s c \<noteq> Fresh \<longrightarrow> susp s c \<noteq> Finished \<longrightarrow> cos s c \<noteq> None)"

definition destroy_ok :: "addr \<Rightarrow> sched \<Rightarrow> bool" where
  "destroy_ok m s \<longleftrightarrow> (\<forall>c co. cos s c = Some co \<longrightarrow> c \<noteq> m \<longrightarrow> co_conn co \<noteq> None) \<and>
     distinct (destroy_co s) \<and> (\<forall>c \<in> set (destroy_co s). susp s c = Finished \<and> cos s c \<noteq> None)"

definition quiet :: "addr list \<Rightarrow> sched \<Rightarrow> bool" where
  "quiet A s \<longleftrightarrow> (\<forall>c fd e t. susp s c = InRegister fd e t \<longrightarrow> t \<notin> set A)"

definition flags :: "addr list \<Rightarrow> sched \<Rightarrow> bool" where
  "flags A s \<longleftrightarrow> (\<forall>c fd e t x. susp s c = InRegister fd e t \<longrightarrow> eitems s e = Some x \<longrightarrow>
     ei_is_timeout x \<longrightarrow> t \<in> set A)"

definition sched_inv :: "addr \<Rightarrow> mpc \<Rightarrow> sched \<Rightarrow> bool" where
  "sched_inv m pc s \<longleftrightarrow> stack_ok m s \<and> destroy_ok m s \<and>
     (\<exists>L A. lists_ok L A s \<and> waits L A s \<and> flags A s \<and> (pc \<noteq> AtDrain \<longrightarrow> quiet A s))"

section \<open>Starting to wait\<close>

lemma new_item_data:
  "expire_of (new_item a t h) = (expire_of h)(a \<mapsto> unat (ExpireTime t))"
  "item_of (new_item a t h) = (item_of h)(a := ti_item t)"
  "unlinked (new_item a t h) = (unlinked h)(a := (ti_link t = None))"
  by (auto simp: fun_eq_iff expire_of_def item_of_def unlinked_def data_of_def new_item_def item_data_def)

lemma same_data:
  assumes "data_of h' = data_of h"
  shows "expire_of h' = expire_of h" "item_of h' = item_of h"
  using assms by (auto simp: fun_eq_iff expire_of_def item_of_def)

lemma unused_item: "titems h a = None \<Longrightarrow> item_of h a = None"
  by (simp add: item_of_def data_of_def)

lemma unused_not_in_wheel:
  assumes "wheel_ok tw L h" and "titems h a = None"
  shows "a \<notin> wheel_set tw L"
proof
  assume "a \<in> wheel_set tw L"
  then obtain d where "d < nat (w_size tw)" and "a \<in> set (slot_list tw L d)"
    by (auto simp: wheel_set_def)
  with assms(1) have "expire_of h a \<noteq> None" by (auto simp: wheel_ok_def timed_def)
  with assms(2) show False by (simp add: expire_of_def data_of_def)
qed

lemma wheel_new_item:
  assumes "wheel_ok tw L h" and "titems h a = None"
  shows "wheel_ok tw L (new_item a t h)"
proof (rule wheel_ok_frame [OF assms(1)])
  show "reps (new_item a t h) L" using assms by (simp add: wheel_ok_def reps_new_item)
  show "expire_of (new_item a t h) x = expire_of h x" if "x \<in> wheel_set tw L" for x
    using that unused_not_in_wheel [OF assms] by (auto simp: new_item_data)
qed simp

text \<open>The wheel with a new node that expires after a timeout.\<close>

lemma add_timeout_new:
  assumes ok: "wheel_ok tw L h" and at: "titems h at = None" "ti_link t = None"
    and e: "unat (w_start tw) \<le> unat (ExpireTime t)"
      "unat (ExpireTime t) < unat (w_start tw) + nat (w_size tw)"
  shows "\<exists>h' L'. add_timeout (Some at) tw (new_item at t h) = Some (None, h') \<and> wheel_ok tw L' h' \<and>
     (\<forall>l. l \<notin> set (tw_slots tw) \<longrightarrow> L' l = L l) \<and> wheel_set tw L' = insert at (wheel_set tw L) \<and>
     expire_of h' = (expire_of h)(at \<mapsto> unat (ExpireTime t)) \<and> item_of h' = (item_of h)(at := ti_item t) \<and>
     unlinked h' = (unlinked h)(at := False)"
proof -
  let ?d = "unat (ExpireTime t) - unat (w_start tw)"
  let ?L = "L(slot_at tw ?d \<mapsto> slot_list tw L ?d @ [at])"
  have shape: "wheel_shape tw L" using ok by (simp add: wheel_ok_def)
  have "unlinked (new_item at t h) at" "expire_of (new_item at t h) at = Some (unat (ExpireTime t))"
    using at(2) by (simp_all add: new_item_data)
  from add_timeout_ok [OF wheel_new_item [OF ok at(1)] this e] obtain h' where
    h': "add_timeout (Some at) tw (new_item at t h) = Some (None, h')" "wheel_ok tw ?L h'"
      "data_of h' = data_of (new_item at t h)" "unlinked h' = (unlinked (new_item at t h))(at := False)"
    by blast
  have "wheel_set tw ?L = insert at (wheel_set tw L)"
    using wheel_set_upd [OF shape] e by simp
  moreover have "\<forall>l. l \<notin> set (tw_slots tw) \<longrightarrow> ?L l = L l"
    using slot_at_in [OF shape] by auto
  ultimately show ?thesis
    using h' same_data [OF h'(3)] by (intro exI [of _ h'] exI [of _ ?L]) (simp add: new_item_data)
qed

text \<open>What a sleeping coroutine leaves behind, and the state in which its caller runs on.\<close>

definition asleep :: "addr \<Rightarrow> kont \<Rightarrow> sched \<Rightarrow> sched \<Rightarrow> bool" where
  "asleep c k s s' \<longleftrightarrow> co_call_stack s' = List.tl (co_call_stack s) \<and> susp s' = (susp s)(c := k) \<and>
     cos s' = cos s \<and> destroy_co s' = destroy_co s \<and>
     (\<forall>e x. eitems s' e = Some x \<longrightarrow> ei_is_timeout x \<longrightarrow> eitems s e = Some x) \<and>
     eitems s \<subseteq>\<^sub>m eitems s' \<and> sch_tw s' = sch_tw s"

lemma stack_okD:
  assumes "stack_ok m s"
  shows "co_call_stack s \<noteq> []" "last (co_call_stack s) = m" "distinct (co_call_stack s)"
    "c \<in> set (co_call_stack s) \<longleftrightarrow> susp s c = Running"
    "susp s c \<noteq> Fresh \<Longrightarrow> susp s c \<noteq> Finished \<Longrightarrow> cos s c \<noteq> None"
  using assms unfolding stack_ok_def by blast+

lemma stack_top:
  assumes "stack_ok m s" and "co_call_stack s = c # st"
  shows "susp s c = Running" "cos s c \<noteq> None" "st \<noteq> [] \<Longrightarrow> c \<noteq> m"
proof -
  show r: "susp s c = Running" using stack_okD(4) [OF assms(1), of c] assms(2) by simp
  show "cos s c \<noteq> None" using stack_okD(5) [OF assms(1), of c] r by simp
  show "c \<noteq> m" if "st \<noteq> []" using stack_okD(2,3) [OF assms(1)] assms(2) that by auto
qed

lemma asleep_ok:
  assumes "stack_ok m s" and "destroy_ok m s" and "co_call_stack s = c # c' # rest"
    and "asleep c k s s'" and "k \<noteq> Running" "k \<noteq> Finished"
  shows "stack_ok m s'" "destroy_ok m s'"
proof -
  note top = stack_top [OF assms(1,3)]
  have s': "co_call_stack s' = c' # rest" "susp s' = (susp s)(c := k)" "cos s' = cos s"
    "destroy_co s' = destroy_co s"
    using assms(3,4) by (simp_all add: asleep_def)
  have "\<forall>x. x \<in> set (c' # rest) \<longleftrightarrow> susp s' x = Running"
    using stack_okD(3) [OF assms(1)] stack_okD(4) [OF assms(1)] assms(3,5) s'(2) by auto
  moreover have "\<forall>x. susp s' x \<noteq> Fresh \<longrightarrow> susp s' x \<noteq> Finished \<longrightarrow> cos s' x \<noteq> None"
    using stack_okD(5) [OF assms(1)] top(2) s'(2,3) by simp
  ultimately show "stack_ok m s'"
    using stack_okD(2,3) [OF assms(1)] assms(3) s'(1) by (simp add: stack_ok_def)
  show "destroy_ok m s'"
    using assms(2) top(1) s' by (auto simp: destroy_ok_def)
qed

text \<open>The state after \<open>register_begin\<close> and after \<open>wait_begin\<close>, with the new heap \<open>h\<close>.\<close>

definition slept :: "addr \<Rightarrow> kont \<Rightarrow> addr \<Rightarrow> co_epoll_item \<Rightarrow> theap \<Rightarrow> sched \<Rightarrow> sched" where
  "slept c k ae x h s = s\<lparr>hp := h, eitems := (eitems s)(ae \<mapsto> x),
     co_call_stack := List.tl (co_call_stack s), susp := (susp s)(c := k)\<rparr>"

lemma slept_simps [simp]:
  "hp (slept c k ae x h s) = h" "sch_tw (slept c k ae x h s) = sch_tw s"
  "sch_epoll (slept c k ae x h s) = sch_epoll s" "co_deque (slept c k ae x h s) = co_deque s"
  "susp (slept c k ae x h s) = (susp s)(c := k)"
  "own_of (slept c k ae x h s) = (own_of s)(ae \<mapsto> (ei_co x, ei_t_item x))"
  by (auto simp: slept_def own_of_def fun_eq_iff)

lemma asleep_slept: "\<not> ei_is_timeout x \<Longrightarrow> eitems s ae = None \<Longrightarrow> asleep c k s (slept c k ae x h s)"
  by (auto simp: asleep_def slept_def map_le_def)

lemma register_run:
  assumes st: "co_call_stack s = c # c' # rest" and le: "timeout \<le> w_size (sch_tw s)"
    and T: "T = (new_time_item (if timeout = - 1 then 0 else now + u64_of_int timeout) None None)\<lparr>ti_item := Some ae\<rparr>"
    and run: "timeout = - 1 \<and> h = new_item at T (hp s) \<or>
      0 < timeout \<and> add_timeout (Some at) (sch_tw s) (new_item at T (hp s)) = Some (r, h)"
  shows "register_begin fd events timeout now ae at s =
    Some (Inr (), (slept c (InRegister fd ae at) ae
      \<lparr>ei_fd = fd, ei_is_timeout = False, ei_co = Some c, ei_t_item = Some at\<rparr> h s)
      \<lparr>sch_epoll := if fd > - 1 then snd (epoll_add fd events ae (sch_epoll s)) else sch_epoll s\<rparr>)"
  using run
proof (elim disjE conjE)
  assume "timeout = - 1" "h = new_item at T (hp s)"
  with st le T show ?thesis
    by (simp add: register_begin_def get_max_size_def get_curr_co_def Let_def mem_simps yield_at_def slept_def)
next
  assume "0 < timeout" "add_timeout (Some at) (sch_tw s) (new_item at T (hp s)) = Some (r, h)"
  with st le T show ?thesis
    by (simp add: register_begin_def get_max_size_def get_curr_co_def Let_def mem_simps yield_at_def slept_def)
qed

lemma deadline_unat:
  assumes "wheel_ok tw L h" and "0 < timeout" and "unat now + nat timeout < unat (w_start tw) + nat (w_size tw)"
  shows "unat (now + u64_of_int timeout) = unat now + nat timeout"
proof -
  have "unat now + nat timeout < 2 ^ 64" using assms(1,3) by (simp add: wheel_ok_def)
  then show ?thesis
    using assms(2) unat_u64_of_int [of timeout] by (subst unat_add_u64) auto
qed

lemma lists_okD:
  assumes "lists_ok L A s"
  shows "wheel_ok (sch_tw s) L (hp s)" "L (active_link (sch_epoll s)) = Some A"
    "L (timeout_link (sch_epoll s)) = Some []" "active_link (sch_epoll s) \<noteq> timeout_link (sch_epoll s)"
    "active_link (sch_epoll s) \<notin> set (tw_slots (sch_tw s))"
    "timeout_link (sch_epoll s) \<notin> set (tw_slots (sch_tw s))" "epoll_ok (sch_epoll s)"
    "reps (hp s) L" "wheel_shape (sch_tw s) L"
  using assms by (auto simp: lists_ok_def wheel_ok_def)

text \<open>The node of \<open>register_event\<close>: in the wheel if there is a timeout, in no list otherwise.\<close>

lemma register_node:
  assumes ok: "lists_ok L A s" and r: "register_ok fd timeout now ae at s"
    and le: "\<not> timeout > w_size (sch_tw s)"
    and T: "ti_link T = None" "ti_item T = Some ae"
      "ExpireTime T = (if timeout = - 1 then 0 else now + u64_of_int timeout)"
    and n: "n = (if timeout = - 1 then 0 else unat now + nat timeout)"
  shows "\<exists>q h L'. (timeout = - 1 \<and> h = new_item at T (hp s) \<or>
      0 < timeout \<and> add_timeout (Some at) (sch_tw s) (new_item at T (hp s)) = Some (q, h)) \<and>
     wheel_ok (sch_tw s) L' h \<and> (\<forall>l. l \<notin> set (tw_slots (sch_tw s)) \<longrightarrow> L' l = L l) \<and>
     wheel_set (sch_tw s) L' = (if n = 0 then wheel_set (sch_tw s) L else insert at (wheel_set (sch_tw s) L)) \<and>
     expire_of h = (expire_of (hp s))(at \<mapsto> n) \<and> item_of h = (item_of (hp s))(at \<mapsto> ae) \<and>
     unlinked h = (unlinked (hp s))(at := (n = 0))"
proof -
  note w = lists_okD(1) [OF ok]
  have at: "titems (hp s) at = None" using r by (simp add: register_ok_def)
  show ?thesis
  proof (cases "timeout = - 1")
    case True
    then show ?thesis
      using wheel_new_item [OF w at, of T] T
      by (intro exI [of _ None] exI [of _ "new_item at T (hp s)"] exI [of _ L]) (simp add: new_item_data n)
  next
    case pos: False
    then have now: "0 < timeout" "w_start (sch_tw s) \<le> now"
      "unat now + nat timeout < unat (w_start (sch_tw s)) + nat (w_size (sch_tw s))"
      using r le by (auto simp: register_ok_def timeout_ok_def)
    then have d: "unat (ExpireTime T) = unat now + nat timeout"
      using deadline_unat [OF w now(1,3)] pos by (simp add: T)
    obtain h L' where "add_timeout (Some at) (sch_tw s) (new_item at T (hp s)) = Some (None, h)"
      "wheel_ok (sch_tw s) L' h" "\<forall>l. l \<notin> set (tw_slots (sch_tw s)) \<longrightarrow> L' l = L l"
      "wheel_set (sch_tw s) L' = insert at (wheel_set (sch_tw s) L)"
      "expire_of h = (expire_of (hp s))(at \<mapsto> unat now + nat timeout)" "item_of h = (item_of (hp s))(at \<mapsto> ae)"
      "unlinked h = (unlinked (hp s))(at := False)"
      using add_timeout_new [OF w at T(1)] now T(2) d by (auto simp: word_le_nat_alt)
    then show ?thesis
      using now(1) pos by (intro exI [of _ None] exI [of _ h] exI [of _ L']) (simp add: n)
  qed
qed

lemma register_begin_ok:
  assumes st: "co_call_stack s = c # c' # rest" "susp s c = Running"
    and ok: "lists_ok L A s" "waits L A s" and r: "register_ok fd timeout now ae at s"
  shows "\<exists>r s' L'. register_begin fd events timeout now ae at s = Some (r, s') \<and> lists_ok L' A s' \<and>
     waits L' A s' \<and> (r = Inl (- 1) \<and> s' = s \<and> timeout > w_size (sch_tw s) \<or>
       r = Inr () \<and> asleep c (InRegister fd ae at) s s' \<and> co_deque s' = co_deque s \<and> timeout \<le> w_size (sch_tw s) \<and>
       expire_of (hp s') = (expire_of (hp s))(at \<mapsto> (if timeout = - 1 then 0 else unat now + nat timeout)))"
proof (cases "timeout > w_size (sch_tw s)")
  case True
  with ok show ?thesis by (auto simp: register_begin_def get_max_size_def)
next
  case False
  let ?x = "\<lparr>ei_fd = fd, ei_is_timeout = False, ei_co = Some c, ei_t_item = Some at\<rparr>"
  let ?ep = "if fd > - 1 then snd (epoll_add fd events ae (sch_epoll s)) else sch_epoll s"
  define T where "T = (new_time_item (if timeout = - 1 then 0 else now + u64_of_int timeout) None None)\<lparr>ti_item := Some ae\<rparr>"
  have T: "ti_link T = None" "ti_item T = Some ae"
    "ExpireTime T = (if timeout = - 1 then 0 else now + u64_of_int timeout)"
    by (simp_all add: T_def new_time_item_def)
  have at: "titems (hp s) at = None" and ae: "own_of s ae = None"
    and im: "fd > - 1 \<longrightarrow> item_map (sch_epoll s) fd = None"
    using r by (simp_all add: register_ok_def own_of_def)
  define n where "n = (if timeout = - 1 then 0 else unat now + nat timeout)"
  from register_node [OF ok(1) r False T n_def] obtain q h L' where run: "timeout = - 1 \<and> h = new_item at T (hp s) \<or>
      0 < timeout \<and> add_timeout (Some at) (sch_tw s) (new_item at T (hp s)) = Some (q, h)"
    and h: "wheel_ok (sch_tw s) L' h" "\<forall>l. l \<notin> set (tw_slots (sch_tw s)) \<longrightarrow> L' l = L l"
     "wheel_set (sch_tw s) L' = (if n = 0 then wheel_set (sch_tw s) L else insert at (wheel_set (sch_tw s) L))"
     "expire_of h = (expire_of (hp s))(at \<mapsto> n)" "item_of h = (item_of (hp s))(at \<mapsto> ae)"
     "unlinked h = (unlinked (hp s))(at := (n = 0))"
    by (elim exE conjE)
  let ?s = "(slept c (InRegister fd ae at) ae ?x h s)\<lparr>sch_epoll := ?ep\<rparr>"
  have run': "register_begin fd events timeout now ae at s = Some (Inr (), ?s)"
    using register_run [OF st(1) _ T_def run] False by simp
  have lists: "lists_ok L' A ?s"
    using lists_okD [OF ok(1)] h(1,2) by (simp add: lists_ok_def epoll_add_ok)
  have fresh: "node_of (susp s c) = None" using st(2) by simp
  have "item_map ?ep = (if fd > - 1 then (item_map (sch_epoll s))(fd \<mapsto> ae) else item_map (sch_epoll s))"
    using im by (simp add: epoll_add_map)
  then have "waits L' A ?s"
    using waits_register [OF ok(2) [unfolded waits_def] fresh ae unused_item [OF at] im, of n] h
    by (simp add: waits_def)
  moreover have "asleep c (InRegister fd ae at) s ?s"
    using asleep_slept [of ?x s ae c "InRegister fd ae at" h] r by (simp add: asleep_def register_ok_def)
  ultimately show ?thesis
    using run' lists False h(4) by (intro exI [of _ "Inr ()"] exI [of _ ?s] exI [of _ L']) (simp add: n_def)
qed

lemma wait_begin_ok:
  assumes st: "co_call_stack s = c # c' # rest" "susp s c = Running"
    and ok: "lists_ok L A s" "waits L A s" and new: "eitems s ae = None" "titems (hp s) at = None"
  shows "\<exists>s'. wait_begin cd ae at s = Some s' \<and> lists_ok L A s' \<and> waits L A s' \<and>
     asleep c (InWait cd ae at) s s' \<and> co_deque s' = (co_deque s)(cd := co_deque s cd @ [ae]) \<and>
     expire_of (hp s') = (expire_of (hp s))(at \<mapsto> 0)"
proof -
  let ?x = "\<lparr>ei_fd = - 1, ei_is_timeout = False, ei_co = Some c, ei_t_item = Some at\<rparr>"
  define T where "T = (new_time_item 0 None None)\<lparr>ti_item := Some ae\<rparr>"
  let ?h = "new_item at T (hp s)"
  let ?s = "(slept c (InWait cd ae at) ae ?x ?h s)\<lparr>co_deque := (co_deque s)(cd := co_deque s cd @ [ae])\<rparr>"
  have run: "wait_begin cd ae at s = Some ?s"
    using st(1) by (simp add: wait_begin_def get_curr_co_def Let_def mem_simps on_heap_def yield_at_def
      slept_def new_item_def T_def)
  have "lists_ok L A ?s"
    using lists_okD [OF ok(1)] wheel_new_item [OF lists_okD(1) [OF ok(1)] new(2), of T]
    by (simp add: lists_ok_def)
  moreover have "waits L A ?s"
    using waits_wait [OF ok(2) [unfolded waits_def], of c ae at cd] st(2) new unused_item [OF new(2)]
    by (simp add: waits_def own_of_def new_item_data T_def new_time_item_def)
  moreover have "asleep c (InWait cd ae at) s ?s"
    using asleep_slept [of ?x s ae c "InWait cd ae at" ?h] new(1) by (simp add: asleep_def)
  moreover have "expire_of (hp ?s) = (expire_of (hp s))(at \<mapsto> 0)" by (simp add: new_item_data T_def new_time_item_def)
  ultimately show ?thesis using run by (intro exI [of _ ?s]) simp
qed

section \<open>Waking up\<close>

lemma waits_rec_at:
  assumes "waits L A s" and "node_of (susp s c) = Some (e, t)"
  shows "\<exists>x. eitems s e = Some x \<and> ei_co x = Some c \<and> ei_t_item x = Some t"
    "\<exists>y. titems (hp s) t = Some y \<and> ti_item y = Some e"
  using recsD(1) [OF waitsD(1) [OF assms(1) [unfolded waits_def]] assms(2)]
  by (auto simp: own_of_def item_of_def data_of_def item_data_def bind_eq_Some_conv)

lemma unlinked_not_in_wheel:
  assumes "lists_ok L A s" and "unlinked (hp s) t"
  shows "t \<notin> wheel_set (sch_tw s) L"
  using tl.free_not_listed [OF lists_okD(8) [OF assms(1)] assms(2)] slot_at_listed [OF lists_okD(9) [OF assms(1)]]
  by (auto simp: wheel_set_def)

lemma wheel_push_other:
  assumes ok: "lists_ok L A s" and "unlinked (hp s) t"
  shows "\<exists>h. link_push_back (Some (active_link (sch_epoll s))) (Some t) (hp s) = Some h \<and>
     lists_ok (L(active_link (sch_epoll s) \<mapsto> A @ [t])) (A @ [t]) (s\<lparr>hp := h\<rparr>) \<and>
     data_of h = data_of (hp s) \<and> unlinked h = (unlinked (hp s))(t := False) \<and>
     wheel_set (sch_tw s) (L(active_link (sch_epoll s) \<mapsto> A @ [t])) = wheel_set (sch_tw s) L"
proof -
  let ?L = "L(active_link (sch_epoll s) \<mapsto> A @ [t])"
  note l = lists_okD [OF ok]
  from tl.push_ok [OF l(8,2) assms(2)] obtain h where
    h: "link_push_back (Some (active_link (sch_epoll s))) (Some t) (hp s) = Some h" "reps h ?L"
      "data_of h = data_of (hp s)" "unlinked h = (unlinked (hp s))(t := False)" by blast
  have other: "\<And>k. k \<in> set (tw_slots (sch_tw s)) \<Longrightarrow> ?L k = L k" using l(5) by auto
  have "wheel_ok (sch_tw s) ?L h"
    by (rule wheel_ok_frame [OF l(1) h(2) other]) (simp_all add: same_data [OF h(3)])
  then have "lists_ok ?L (A @ [t]) (s\<lparr>hp := h\<rparr>)" using l by (simp add: lists_ok_def)
  with h wheel_set_frame [OF l(9) other] show ?thesis by blast
qed

text \<open>What \<open>co_cond_signal\<close> and \<open>co_cond_broadcast\<close> keep.\<close>

definition awake :: "sched \<Rightarrow> sched \<Rightarrow> bool" where
  "awake s s' \<longleftrightarrow> susp s' = susp s \<and> cos s' = cos s \<and> co_call_stack s' = co_call_stack s \<and>
     destroy_co s' = destroy_co s \<and> sch_epoll s' = sch_epoll s \<and> eitems s' = eitems s \<and>
     sch_tw s' = sch_tw s \<and> expire_of (hp s') = expire_of (hp s)"

lemma wake_front_ok:
  assumes ok: "lists_ok L A s" "waits L A s" and q: "co_deque s k = e # rest"
  shows "\<exists>s' t c L'. wake_front k e rest s = Some s' \<and> susp s c = InWait k e t \<and>
     lists_ok L' (A @ [t]) s' \<and> waits L' (A @ [t]) s' \<and> co_deque s' = (co_deque s)(k := rest) \<and> awake s s'"
proof -
  note w = ok(2) [unfolded waits_def]
  have "\<exists>c t. susp s c = InWait k e t \<and> unlinked (hp s) t"
    using waitsD(6) [OF w] q by (simp add: queue_ok_def)
  then obtain c t where c: "susp s c = InWait k e t" "unlinked (hp s) t" by blast
  have node: "node_of (susp s c) = Some (e, t)" using c(1) by simp
  from waits_rec_at(1) [OF ok(2) node] obtain x where
    x: "eitems s e = Some x" "ei_t_item x = Some t" by blast
  let ?L = "L(active_link (sch_epoll s) \<mapsto> A @ [t])"
  from wheel_push_other [OF ok(1) c(2)] obtain h where
    h: "link_push_back (Some (active_link (sch_epoll s))) (Some t) (hp s) = Some h"
      "lists_ok ?L (A @ [t]) (s\<lparr>hp := h\<rparr>)" "data_of h = data_of (hp s)"
      "unlinked h = (unlinked (hp s))(t := False)" "wheel_set (sch_tw s) ?L = wheel_set (sch_tw s) L"
    by blast
  let ?s = "s\<lparr>hp := h, co_deque := (co_deque s)(k := rest)\<rparr>"
  have run: "wake_front k e rest s = Some ?s"
    using x h(1) by (simp add: wake_front_def Let_def on_heap_def)
  have dq: "set (((co_deque s)(k := rest)) j) = set (co_deque s j) - {e}"
    "distinct (((co_deque s)(k := rest)) j)" for j
  proof -
    have d: "distinct (co_deque s j)" for j using waitsD(6) [OF w] by (simp add: queue_ok_def)
    have "e \<notin> set (co_deque s j)" if "j \<noteq> k"
      using queue_owner [OF w _ node, of j] c(1) that by auto
    then show "set (((co_deque s)(k := rest)) j) = set (co_deque s j) - {e}"
      "distinct (((co_deque s)(k := rest)) j)"
      using d [of j] q by auto
  qed
  have "t \<notin> wheel_set (sch_tw s) L" using unlinked_not_in_wheel [OF ok(1) c(2)] .
  then have "waits ?L (A @ [t]) ?s"
    using waits_activate [where dq' = "(co_deque s)(k := rest)", OF w node dq] h(4,5) same_data [OF h(3)]
    by (simp add: waits_def insert_commute)
  moreover have "lists_ok ?L (A @ [t]) ?s"
    using h(2) by simp
  moreover have "awake s ?s" using same_data(1) [OF h(3)] by (simp add: awake_def)
  ultimately show ?thesis using run c(1) by (intro exI [of _ ?s] exI [of _ t] exI [of _ c] exI [of _ ?L]) simp
qed

lemma quiet_wake:
  assumes "quiet A s" and "recs_ok (susp s) own it" and "susp s c = InWait k e t"
  shows "quiet (A @ [t]) s"
  unfolding quiet_def
proof (intro allI impI)
  fix c' fd e' t' assume s: "susp s c' = InRegister fd e' t'"
  with assms(3) have "c \<noteq> c'" by auto
  with recs_inj(2) [OF assms(2), of c e t c' e' t'] assms(3) s have "t' \<noteq> t" by auto
  with assms(1) s show "t' \<notin> set (A @ [t])" by (auto simp: quiet_def)
qed

lemma broadcast_loop_ok:
  assumes "lists_ok L A s" "waits L A s" and "co_deque s k = es"
  shows "\<exists>s' ts L'. broadcast_loop k es s = Some s' \<and>
     list_all2 (\<lambda>e t. \<exists>c. susp s c = InWait k e t) es ts \<and>
     lists_ok L' (A @ ts) s' \<and> waits L' (A @ ts) s' \<and> co_deque s' = (co_deque s)(k := []) \<and> awake s s' \<and>
     (quiet A s \<longrightarrow> quiet (A @ ts) s')"
  using assms
proof (induction es arbitrary: L A s)
  case Nil
  then show ?case
    by (intro exI [of _ s] exI [of _ "[]"] exI [of _ L]) (auto simp: awake_def)
next
  case (Cons e es)
  from wake_front_ok [OF Cons.prems] obtain s1 t c L1 where
    s1: "wake_front k e es s = Some s1" "susp s c = InWait k e t" "lists_ok L1 (A @ [t]) s1"
      "waits L1 (A @ [t]) s1" "co_deque s1 = (co_deque s)(k := es)" "awake s s1"
    by (elim exE conjE)
  have "co_deque s1 k = es" using s1(5) by simp
  from Cons.IH [OF s1(3,4) this] obtain s' ts L' where
    s': "broadcast_loop k es s1 = Some s'" "list_all2 (\<lambda>e t. \<exists>c. susp s1 c = InWait k e t) es ts"
      "lists_ok L' ((A @ [t]) @ ts) s'" "waits L' ((A @ [t]) @ ts) s'"
      "co_deque s' = (co_deque s1)(k := [])" "awake s1 s'" "quiet (A @ [t]) s1 \<longrightarrow> quiet ((A @ [t]) @ ts) s'"
    by (elim exE conjE)
  have q: "quiet A s \<Longrightarrow> quiet (A @ [t]) s1"
    using quiet_wake [OF _ waitsD(1) [OF Cons.prems(2) [unfolded waits_def]] s1(2)] s1(6) by (simp add: quiet_def awake_def)
  show ?case
    using s' s1 q by (intro exI [of _ s'] exI [of _ "t # ts"] exI [of _ L']) (auto simp: awake_def)
qed

lemma co_cond_signal_ok:
  assumes "lists_ok L A s" "waits L A s"
  shows "\<exists>r s' A' L'. co_cond_signal k s = Some (r, s') \<and> lists_ok L' A' s' \<and> waits L' A' s' \<and>
     awake s s' \<and> set A \<subseteq> set A' \<and> (quiet A s \<longrightarrow> quiet A' s')"
proof (cases "co_deque s k")
  case Nil
  then show ?thesis using assms
    by (intro exI [of _ "- 1"] exI [of _ s] exI [of _ A] exI [of _ L]) (simp add: co_cond_signal_front awake_def)
next
  case (Cons e rest)
  from wake_front_ok [OF assms Cons] obtain s1 t c L1 where
    s1: "wake_front k e rest s = Some s1" "susp s c = InWait k e t" "lists_ok L1 (A @ [t]) s1"
      "waits L1 (A @ [t]) s1" "co_deque s1 = (co_deque s)(k := rest)" "awake s s1"
    by (elim exE conjE)
  have "quiet A s \<Longrightarrow> quiet (A @ [t]) s1"
    using quiet_wake [OF _ waitsD(1) [OF assms(2) [unfolded waits_def]] s1(2)] s1(6) by (simp add: quiet_def awake_def)
  with Cons s1 show ?thesis
    by (intro exI [of _ 1] exI [of _ s1] exI [of _ "A @ [t]"] exI [of _ L1])
      (auto simp: co_cond_signal_front awake_def)
qed

section \<open>Collecting events and timeouts\<close>

lemma wheel_remove:
  assumes ok: "wheel_ok tw L h" and t: "t \<in> wheel_set tw L"
  shows "\<exists>h' L'. removeitem (Some t) h = Some h' \<and> wheel_ok tw L' h' \<and>
     (\<forall>l. l \<notin> set (tw_slots tw) \<longrightarrow> L' l = L l) \<and> wheel_set tw L' = wheel_set tw L - {t} \<and>
     data_of h' = data_of h \<and> unlinked h' = (unlinked h)(t := True)"
proof -
  have shape: "wheel_shape tw L" and reps: "reps h L" using ok by (auto simp: wheel_ok_def)
  from t obtain d where d: "d < nat (w_size tw)" "t \<in> set (slot_list tw L d)" by (auto simp: wheel_set_def)
  let ?xs = "remove1 t (slot_list tw L d)"
  let ?L = "L(slot_at tw d \<mapsto> ?xs)"
  note ld = slot_at_listed [OF shape, of d]
  from tl.remove_member [OF reps ld d(2)] obtain h' where
    h': "removeitem (Some t) h = Some h'" "reps h' ?L" "data_of h' = data_of h"
      "unlinked h' = (unlinked h)(t := True)" by blast
  have sl: "slot_list tw ?L i = (if i = d then ?xs else slot_list tw L i)" if "i < nat (w_size tw)" for i
    using slot_list_upd [OF shape d(1) that] by simp
  have xs: "set ?xs = set (slot_list tw L d) - {t}"
    using tl.lists_distinct [OF reps ld] by simp
  have other: "t \<notin> set (slot_list tw L i)" if "i < nat (w_size tw)" "i \<noteq> d" for i
    using tl.lists_disjoint [OF reps slot_at_listed [OF shape, of i] ld] slot_at_inj [OF shape that(1) d(1)] that(2) d(2)
    by blast
  have "timed tw ?L h'"
    unfolding timed_def
  proof (intro allI impI ballI)
    fix i x assume i: "i < nat (w_size tw)" and "x \<in> set (slot_list tw ?L i)"
    then have "x \<in> set (slot_list tw L i)" using sl [OF i] xs by (auto split: if_splits)
    with i ok show "expire_of h' x = Some (unat (w_start tw) + i)"
      using same_data(1) [OF h'(3)] by (auto simp: wheel_ok_def timed_def)
  qed
  then have "wheel_ok tw ?L h'"
    using ok h'(2) wheel_shape_upd [OF shape] by (simp add: wheel_ok_def)
  moreover have "wheel_set tw ?L = wheel_set tw L - {t}"
    using sl xs other by (auto simp: wheel_set_def split: if_splits)
  moreover have "\<forall>l. l \<notin> set (tw_slots tw) \<longrightarrow> ?L l = L l" using slot_at_in [OF shape] by auto
  ultimately show ?thesis using h' by blast
qed

lemma touch_isremove:
  assumes "lists_ok L A s" and "titems (hp s) t = Some y"
  shows "\<exists>h. wr_item (Some t) (\<lambda>t. t\<lparr>isremove := True\<rparr>) (hp s) = Some h \<and> lists_ok L A (s\<lparr>hp := h\<rparr>) \<and>
     expire_of h = expire_of (hp s) \<and> item_of h = item_of (hp s) \<and> unlinked h = unlinked (hp s)"
proof -
  note l = lists_okD [OF assms(1)]
  from reps_touch [OF l(8) assms(2), of "\<lambda>t. t\<lparr>isremove := True\<rparr>"] obtain h where
    h: "wr_item (Some t) (\<lambda>t. t\<lparr>isremove := True\<rparr>) (hp s) = Some h" "reps h L"
      "data_of h = (data_of (hp s))(t \<mapsto> item_data (y\<lparr>isremove := True\<rparr>))" "unlinked h = unlinked (hp s)"
    by auto
  have d: "expire_of h = expire_of (hp s)" "item_of h = item_of (hp s)"
    using assms(2) h(3) by (auto simp: fun_eq_iff expire_of_def item_of_def data_of_def item_data_def)
  have "wheel_ok (sch_tw s) L h" by (rule wheel_ok_frame [OF l(1) h(2)]) (simp_all add: d)
  then show ?thesis using h d l by (auto simp: lists_ok_def)
qed

lemma expire_of_item: "expire_of h t = Some n \<longleftrightarrow> (\<exists>y. titems h t = Some y \<and> unat (ExpireTime y) = n)"
  by (auto simp: expire_of_def data_of_def item_data_def)

lemma event_unlink:
  assumes ok: "lists_ok L A s"
    and place: "t \<in> wheel_set (sch_tw s) L \<and> 0 < d \<or> unlinked (hp s) t \<and> \<not> 0 < d"
  shows "\<exists>h L'. (if d > (0 :: u64) then removeitem (Some t) (hp s) else Some (hp s)) = Some h \<and>
     lists_ok L' A (s\<lparr>hp := h\<rparr>) \<and> wheel_set (sch_tw s) L' = wheel_set (sch_tw s) L - {t} \<and>
     data_of h = data_of (hp s) \<and> unlinked h = (unlinked (hp s))(t := True)"
  using place
proof (elim disjE conjE)
  assume tw: "t \<in> wheel_set (sch_tw s) L" "0 < d"
  from wheel_remove [OF lists_okD(1) [OF ok] tw(1)] obtain h L' where
    h: "removeitem (Some t) (hp s) = Some h" "wheel_ok (sch_tw s) L' h"
      "\<forall>l. l \<notin> set (tw_slots (sch_tw s)) \<longrightarrow> L' l = L l" "wheel_set (sch_tw s) L' = wheel_set (sch_tw s) L - {t}"
      "data_of h = data_of (hp s)" "unlinked h = (unlinked (hp s))(t := True)" by blast
  moreover have "lists_ok L' A (s\<lparr>hp := h\<rparr>)" using h lists_okD [OF ok] by (simp add: lists_ok_def)
  ultimately show ?thesis using tw(2) by auto
next
  assume fr: "unlinked (hp s) t" "\<not> 0 < d"
  moreover have "unlinked (hp s) = (unlinked (hp s))(t := True)" using fr(1) by (simp add: fun_eq_iff)
  ultimately show ?thesis
    using ok unlinked_not_in_wheel [OF ok fr(1)] by (intro exI [of _ "hp s"] exI [of _ L]) simp
qed

lemma handle_event_ok:
  assumes ok: "lists_ok L A s" "waits L A s" and c: "susp s c = InRegister fd e t" and t: "t \<notin> set A"
  shows "\<exists>h L'. handle_event e s = Some (False, s\<lparr>hp := h\<rparr>) \<and>
     lists_ok L' (A @ [t]) (s\<lparr>hp := h\<rparr>) \<and> waits L' (A @ [t]) (s\<lparr>hp := h\<rparr>) \<and>
     expire_of h = expire_of (hp s) \<and> wheel_set (sch_tw s) L' = wheel_set (sch_tw s) L - {t}"
proof -
  note w = ok(2) [unfolded waits_def]
  have node: "node_of (susp s c) = Some (e, t)" using c by simp
  from waits_rec_at [OF ok(2) node] obtain x y where
    x: "eitems s e = Some x" "ei_t_item x = Some t" and y: "titems (hp s) t = Some y" by blast
  from touch_isremove [OF ok(1) y] obtain h1 where
    h1: "wr_item (Some t) (\<lambda>t. t\<lparr>isremove := True\<rparr>) (hp s) = Some h1" "lists_ok L A (s\<lparr>hp := h1\<rparr>)"
      "expire_of h1 = expire_of (hp s)" "item_of h1 = item_of (hp s)" "unlinked h1 = unlinked (hp s)" by blast
  let ?s1 = "s\<lparr>hp := h1\<rparr>"
  have t1: "titems h1 t = Some (y\<lparr>isremove := True\<rparr>)" using h1(1) y by (auto simp: wr_item_def)
  have place: "t \<in> wheel_set (sch_tw s) L \<and> 0 < ExpireTime y \<or> unlinked (hp s) t \<and> \<not> 0 < ExpireTime y"
  proof -
    have "expire_of (hp s) t = Some (unat (ExpireTime y))" using y by (simp add: expire_of_item)
    then show ?thesis
      using waitsD(2) [OF w] c t unfolding reg_ok_def
      by (metis option.inject word_gt_0 unat_eq_0)
  qed
  have "t \<in> wheel_set (sch_tw s) L \<and> 0 < ExpireTime y \<or> unlinked (hp ?s1) t \<and> \<not> 0 < ExpireTime y"
    using place h1(5) by simp
  from event_unlink [OF h1(2), of t "ExpireTime y"] this
  obtain h2 L2 where h2: "(if ExpireTime y > 0 then removeitem (Some t) h1 else Some h1) = Some h2"
    "lists_ok L2 A (s\<lparr>hp := h2\<rparr>)" "wheel_set (sch_tw s) L2 = wheel_set (sch_tw s) L - {t}"
    "data_of h2 = data_of h1" "unlinked h2 = (unlinked h1)(t := True)" by auto
  have u2: "unlinked (hp (s\<lparr>hp := h2\<rparr>)) t" using h2(5) by simp
  then obtain y2 where y2: "titems h2 t = Some y2" "ti_link y2 = None" by (auto simp: unlinked_def)
  let ?L = "L2(active_link (sch_epoll s) \<mapsto> A @ [t])"
  from wheel_push_other [OF h2(2) u2] obtain h where
    h: "link_push_back (Some (active_link (sch_epoll s))) (Some t) h2 = Some h"
      "lists_ok ?L (A @ [t]) (s\<lparr>hp := h\<rparr>)" "data_of h = data_of h2" "unlinked h = (unlinked h2)(t := False)"
      "wheel_set (sch_tw s) ?L = wheel_set (sch_tw s) L2"
    by auto
  have run: "handle_event e s = Some (False, s\<lparr>hp := h\<rparr>)"
    using x h1(1) t1 y h2(1) y2 h(1)
    by (auto simp: handle_event_def Let_def on_heap_def rd_item_def split: if_splits)
  have d: "expire_of h = expire_of (hp s)" "item_of h = item_of (hp s)"
    using same_data [OF h(3)] same_data [OF h2(4)] h1(3,4) by simp_all
  have dq: "set (co_deque s j) = set (co_deque s j) - {e}" "distinct (co_deque s j)" for j
  proof -
    have "e \<notin> set (co_deque s j)" using queue_owner [OF w _ node, of j] c by auto
    then show "set (co_deque s j) = set (co_deque s j) - {e}" by simp
    show "distinct (co_deque s j)" using waitsD(6) [OF w] by (simp add: queue_ok_def)
  qed
  have "unlinked h = (unlinked (hp s))(t := False)" using h(4) h2(5) h1(5) by (simp add: fun_eq_iff)
  then have "waits ?L (A @ [t]) (s\<lparr>hp := h\<rparr>)"
    using waits_activate [where dq' = "co_deque s", OF w node dq] h(5) h2(3) d
    by (simp add: waits_def)
  then show ?thesis using run h(2,5) h2(3) d(1) by blast
qed

lemma handle_events_ok:
  assumes "lists_ok L A s" "waits L A s" and "distinct evs"
    and "\<And>e. e \<in> set evs \<Longrightarrow> \<exists>c fd t. susp s c = InRegister fd e t \<and> t \<notin> set A"
  shows "\<exists>h L' ts. handle_events evs s = Some (False, s\<lparr>hp := h\<rparr>) \<and>
     list_all2 (\<lambda>e t. \<exists>c fd. susp s c = InRegister fd e t) evs ts \<and>
     lists_ok L' (A @ ts) (s\<lparr>hp := h\<rparr>) \<and> waits L' (A @ ts) (s\<lparr>hp := h\<rparr>) \<and>
     expire_of h = expire_of (hp s) \<and> wheel_set (sch_tw s) L' = wheel_set (sch_tw s) L - set ts"
  using assms
proof (induction evs arbitrary: L A s)
  case Nil
  then show ?case by (intro exI [of _ "hp s"] exI [of _ L] exI [of _ "[]"]) simp
next
  case (Cons e evs)
  from Cons.prems(4) [of e] obtain c fd t where c: "susp s c = InRegister fd e t" "t \<notin> set A" by auto
  from handle_event_ok [OF Cons.prems(1,2) c] obtain h1 L1 where
    h1: "handle_event e s = Some (False, s\<lparr>hp := h1\<rparr>)" "lists_ok L1 (A @ [t]) (s\<lparr>hp := h1\<rparr>)"
      "waits L1 (A @ [t]) (s\<lparr>hp := h1\<rparr>)" "expire_of h1 = expire_of (hp s)"
      "wheel_set (sch_tw s) L1 = wheel_set (sch_tw s) L - {t}" by blast
  have rest: "\<exists>c fd t'. susp (s\<lparr>hp := h1\<rparr>) c = InRegister fd e' t' \<and> t' \<notin> set (A @ [t])" if "e' \<in> set evs" for e'
  proof -
    from that Cons.prems(4) [of e'] obtain c' fd' t' where c': "susp s c' = InRegister fd' e' t'" "t' \<notin> set A"
      by auto
    have "e' \<noteq> e" using that Cons.prems(3) by auto
    with recs_inj [OF waitsD(1) [OF Cons.prems(2) [unfolded waits_def]], of c e t c' e' t'] c(1) c'(1)
    have "t' \<noteq> t" by auto
    with c' show ?thesis by auto
  qed
  have "distinct evs" using Cons.prems(3) by simp
  from Cons.IH [OF h1(2,3) this rest] obtain h L' ts where
    h: "handle_events evs (s\<lparr>hp := h1\<rparr>) = Some (False, s\<lparr>hp := h\<rparr>)"
      "list_all2 (\<lambda>e t. \<exists>c fd. susp s c = InRegister fd e t) evs ts"
      "lists_ok L' (A @ t # ts) (s\<lparr>hp := h\<rparr>)" "waits L' (A @ t # ts) (s\<lparr>hp := h\<rparr>)"
      "expire_of h = expire_of h1" "wheel_set (sch_tw s) L' = wheel_set (sch_tw s) L1 - set ts"
    by auto
  show ?case
    using h h1 c(1) by (intro exI [of _ h] exI [of _ L'] exI [of _ "t # ts"]) auto
qed

definition mark :: "(addr \<Rightarrow> ptr) \<Rightarrow> addr set \<Rightarrow> (addr \<Rightarrow> co_epoll_item option) \<Rightarrow> addr \<Rightarrow> co_epoll_item option" where
  "mark it D ei e = map_option (\<lambda>x. if \<exists>t \<in> D. it t = Some e then x\<lparr>ei_is_timeout := True\<rparr> else x) (ei e)"

lemma own_of_mark [simp]: "own_of (s\<lparr>eitems := mark it D (eitems s)\<rparr>) = own_of s"
  by (auto simp: own_of_def mark_def fun_eq_iff option.map_comp comp_def intro!: option.map_cong)

lemma mark_timeouts_ok:
  assumes "dseg (titems (hp s)) l p xs None"
    and "\<And>t. t \<in> set xs \<Longrightarrow> \<exists>e x. item_of (hp s) t = Some e \<and> eitems s e = Some x"
  shows "mark_timeouts (hd_ptr xs None) s = Some (s\<lparr>eitems := mark (item_of (hp s)) (set xs) (eitems s)\<rparr>)"
  using assms
proof (induction xs arbitrary: p s)
  case Nil
  then show ?case by (simp add: mark_timeouts.simps mark_def option.map_ident)
next
  case (Cons t xs)
  from Cons.prems(1) obtain y where y: "titems (hp s) t = Some y" "ti_next y = hd_ptr xs None"
    and rest: "dseg (titems (hp s)) l (Some t) xs None" by auto
  from Cons.prems(2) [of t] obtain e x where e: "item_of (hp s) t = Some e" "eitems s e = Some x" by auto
  then have ye: "ti_item y = Some e" using y(1) by (simp add: item_of_def data_of_def item_data_def)
  let ?s = "s\<lparr>eitems := (eitems s)(e \<mapsto> x\<lparr>ei_is_timeout := True\<rparr>)\<rparr>"
  have IH: "mark_timeouts (hd_ptr xs None) ?s =
      Some (?s\<lparr>eitems := mark (item_of (hp ?s)) (set xs) (eitems ?s)\<rparr>)"
  proof (rule Cons.IH [of ?s "Some t"])
    fix t' assume "t' \<in> set xs"
    with Cons.prems(2) [of t'] obtain e' x' where "item_of (hp s) t' = Some e'" "eitems s e' = Some x'" by auto
    then show "\<exists>e' x'. item_of (hp ?s) t' = Some e' \<and> eitems ?s e' = Some x'"
      by (intro exI [of _ e']) simp
  qed (simp add: rest)
  have "mark_timeouts (hd_ptr (t # xs) None) s = mark_timeouts (hd_ptr xs None) ?s"
    using y e ye by (subst mark_timeouts.simps) (simp add: mem_simps)
  moreover have "mark (item_of (hp s)) (set xs) (eitems ?s) = mark (item_of (hp s)) (set (t # xs)) (eitems s)"
    using e by (auto simp: mark_def fun_eq_iff)
  ultimately show ?case using IH by simp
qed

text \<open>What a round of the loop leaves alone before it resumes coroutines.\<close>

definition collected :: "sched \<Rightarrow> sched \<Rightarrow> bool" where
  "collected s s' \<longleftrightarrow> susp s' = susp s \<and> cos s' = cos s \<and> co_call_stack s' = co_call_stack s \<and>
     destroy_co s' = destroy_co s \<and> sch_epoll s' = sch_epoll s \<and> co_deque s' = co_deque s \<and>
     w_size (sch_tw s') = w_size (sch_tw s) \<and> expire_of (hp s') = expire_of (hp s)"

text \<open>Every node that the wheel hands out leads to its record.\<close>

lemma mark_due:
  assumes ok: "waits L A s" and "set due \<subseteq> wheel_set (sch_tw s) L" and d: "data_of h = data_of (hp s)"
    and "dseg (titems h) l None due None"
  shows "mark_timeouts (hd_ptr due None) (s\<lparr>sch_tw := tw, hp := h\<rparr>) =
     Some (s\<lparr>sch_tw := tw, hp := h, eitems := mark (item_of (hp s)) (set due) (eitems s)\<rparr>)"
proof -
  have "\<exists>e x. item_of h t = Some e \<and> eitems s e = Some x" if "t \<in> set due" for t
  proof -
    from that assms(2) waitsD(4) [OF ok [unfolded waits_def]] have "\<exists>c fd e. susp s c = InRegister fd e t"
      unfolding own_ok_def by blast
    then obtain c fd e where "node_of (susp s c) = Some (e, t)" by (metis node_of.simps(1))
    with waits_rec_at [OF ok this] show ?thesis
      using same_data(2) [OF d] by (auto simp: item_of_def data_of_def item_data_def)
  qed
  with assms(4) show ?thesis
    using mark_timeouts_ok [of "s\<lparr>sch_tw := tw, hp := h\<rparr>" l None due] same_data(2) [OF d] by simp
qed

lemma take_and_merge_ok:
  assumes ok: "lists_ok L A s" "waits L A s" and now: "time_ok now s"
  shows "\<exists>tw h2 h L' due. take_all_timeout now (Some (timeout_link (sch_epoll s))) (sch_tw s) (hp s) = Some (tw, h2) \<and>
     mark_timeouts (hd_ptr due None) (s\<lparr>sch_tw := tw, hp := h2\<rparr>) =
       Some (s\<lparr>sch_tw := tw, hp := h2, eitems := mark (item_of (hp s)) (set due) (eitems s)\<rparr>) \<and>
     (\<exists>k. tlinks h2 (timeout_link (sch_epoll s)) = Some k \<and> tl_head k = hd_ptr due None) \<and>
     link_splice (Some (timeout_link (sch_epoll s))) (Some (active_link (sch_epoll s))) h2 = Some h \<and>
     lists_ok L' (A @ due) (s\<lparr>sch_tw := tw, hp := h\<rparr>) \<and> waits L' (A @ due) (s\<lparr>sch_tw := tw, hp := h\<rparr>) \<and>
     data_of h = data_of (hp s) \<and> w_start tw = now \<and> w_size tw = w_size (sch_tw s) \<and>
     sorted (map (\<lambda>x. the (expire_of (hp s) x)) due) \<and>
     (\<forall>x. x \<in> set due \<longleftrightarrow> x \<in> wheel_set (sch_tw s) L \<and> (\<exists>n \<le> unat now. expire_of (hp s) x = Some n)) \<and>
     wheel_set tw L' = wheel_set (sch_tw s) L - set due"
proof -
  let ?a = "active_link (sch_epoll s)" and ?to = "timeout_link (sch_epoll s)"
  note l = lists_okD [OF ok(1)]
  have now': "w_start (sch_tw s) \<le> now" "unat now - unat (w_start (sch_tw s)) < 2147483647"
    "unat now + nat (w_size (sch_tw s)) < 2 ^ 64" using now by (simp_all add: time_ok_def)
  obtain tw h2 L2 due where tk: "take_all_timeout now (Some ?to) (sch_tw s) (hp s) = Some (tw, h2)"
    and w2: "wheel_ok tw L2 h2" and tw: "w_start tw = now" "w_size tw = w_size (sch_tw s)" "tw_slots tw = tw_slots (sch_tw s)"
    and d2: "data_of h2 = data_of (hp s)" "unlinked h2 = unlinked (hp s)"
    and L2: "\<forall>l. l \<noteq> ?to \<longrightarrow> l \<notin> set (tw_slots (sch_tw s)) \<longrightarrow> L2 l = L l" "L2 ?to = Some ([] @ due)"
    and due: "sorted (map (\<lambda>x. the (expire_of (hp s) x)) due)"
      "\<forall>x. x \<in> set due \<longleftrightarrow> x \<in> wheel_set (sch_tw s) L \<and> (\<exists>n \<le> unat now. expire_of (hp s) x = Some n)"
    and ws2: "wheel_set tw L2 = wheel_set (sch_tw s) L - set due"
    using take_all_timeout_exact [OF l(1,3,6) now'] by (elim exE conjE) metis
  have r2: "reps h2 L2" using w2 by (simp add: wheel_ok_def)
  have a2: "L2 ?a = Some A" and t2: "L2 ?to = Some due" using L2 l(2,4,5) by auto
  from reps_dll [OF r2 t2] have seg: "dseg (titems h2) ?to None due None"
    and k: "\<exists>k. tlinks h2 ?to = Some k \<and> tl_head k = hd_ptr due None"
    by (auto simp: dll_def)
  have sub: "set due \<subseteq> wheel_set (sch_tw s) L" using due(2) by blast
  note mk = mark_due [OF ok(2) sub d2(1) seg, of tw]
  let ?L = "L2(?to \<mapsto> [], ?a \<mapsto> A @ due)"
  from tl.splice_ok [OF r2 t2 a2 l(4) [symmetric]] obtain h where
    h: "link_splice (Some ?to) (Some ?a) h2 = Some h" "reps h ?L" "data_of h = data_of h2" "unlinked h = unlinked h2"
    by blast
  have shape2: "wheel_shape tw L2" using w2 by (simp add: wheel_ok_def)
  have other: "\<And>k. k \<in> set (tw_slots tw) \<Longrightarrow> ?L k = L2 k" using l(5,6) tw(3) by auto
  have "wheel_ok tw ?L h"
    by (rule wheel_ok_frame [OF w2 h(2) other]) (simp_all add: same_data [OF h(3)])
  then have lists: "lists_ok ?L (A @ due) (s\<lparr>sch_tw := tw, hp := h\<rparr>)"
    using l tw(3) by (simp add: lists_ok_def)
  have ws: "wheel_set tw ?L = wheel_set (sch_tw s) L - set due"
    using wheel_set_frame [where L' = ?L, OF shape2 other] ws2 by simp
  from waits_take [OF ok(2) [unfolded waits_def] sub]
  have "waits ?L (A @ due) (s\<lparr>sch_tw := tw, hp := h\<rparr>)"
    using ws h(4) d2(2) same_data [of h "hp s"] h(3) d2(1) by (simp add: waits_def)
  then show ?thesis
    using tk mk k h(1) lists ws tw(1,2) due h(3) d2(1)
    by (intro exI [of _ tw] exI [of _ h2] exI [of _ h] exI [of _ ?L] exI [of _ due]) simp
qed

lemma loop_collect_ok:
  assumes ok: "lists_ok L A s" "waits L A s" and now: "time_ok now s"
    and evs: "distinct evs" "\<And>e. e \<in> set evs \<Longrightarrow> \<exists>c fd t. susp s c = InRegister fd e t \<and> t \<notin> set A"
  shows "\<exists>s' L' ts due. loop_collect evs now s = Some (False, s') \<and> collected s s' \<and>
     list_all2 (\<lambda>e t. \<exists>c fd. susp s c = InRegister fd e t) evs ts \<and>
     lists_ok L' (A @ ts @ due) s' \<and> waits L' (A @ ts @ due) s' \<and>
     sorted (map (\<lambda>x. the (expire_of (hp s) x)) due) \<and>
     (\<forall>x. x \<in> set due \<longleftrightarrow> x \<in> wheel_set (sch_tw s) L - set ts \<and> (\<exists>n \<le> unat now. expire_of (hp s) x = Some n)) \<and>
     eitems s' = mark (item_of (hp s')) (set due) (eitems s) \<and> w_start (sch_tw s') = now"
proof -
  from handle_events_ok [OF ok evs] obtain h1 L1 ts where
    h1: "handle_events evs s = Some (False, s\<lparr>hp := h1\<rparr>)"
      "list_all2 (\<lambda>e t. \<exists>c fd. susp s c = InRegister fd e t) evs ts"
      "lists_ok L1 (A @ ts) (s\<lparr>hp := h1\<rparr>)" "waits L1 (A @ ts) (s\<lparr>hp := h1\<rparr>)"
      "expire_of h1 = expire_of (hp s)" "wheel_set (sch_tw s) L1 = wheel_set (sch_tw s) L - set ts"
    by blast
  have "time_ok now (s\<lparr>hp := h1\<rparr>)" using now by (simp add: time_ok_def)
  from take_and_merge_ok [OF h1(3,4) this] obtain tw h2 h L' due where
    t: "take_all_timeout now (Some (timeout_link (sch_epoll s))) (sch_tw s) h1 = Some (tw, h2)"
     "mark_timeouts (hd_ptr due None) (s\<lparr>hp := h1, sch_tw := tw, hp := h2\<rparr>) =
       Some (s\<lparr>hp := h1, sch_tw := tw, hp := h2, eitems := mark (item_of h1) (set due) (eitems s)\<rparr>)"
     "\<exists>k. tlinks h2 (timeout_link (sch_epoll s)) = Some k \<and> tl_head k = hd_ptr due None"
     "link_splice (Some (timeout_link (sch_epoll s))) (Some (active_link (sch_epoll s))) h2 = Some h"
     "lists_ok L' ((A @ ts) @ due) (s\<lparr>hp := h1, sch_tw := tw, hp := h\<rparr>)"
     "waits L' ((A @ ts) @ due) (s\<lparr>hp := h1, sch_tw := tw, hp := h\<rparr>)" "data_of h = data_of h1"
     "sorted (map (\<lambda>x. the (expire_of h1 x)) due)"
     "\<forall>x. x \<in> set due \<longleftrightarrow> x \<in> wheel_set (sch_tw s) L1 \<and> (\<exists>n \<le> unat now. expire_of h1 x = Some n)"
     "w_start tw = now" "w_size tw = w_size (sch_tw s)"
    by (simp del: append_assoc) blast
  let ?ei = "mark (item_of h1) (set due) (eitems s)"
  let ?s = "s\<lparr>sch_tw := tw, hp := h, eitems := ?ei\<rparr>"
  from t(3) obtain k where k: "rd_link (Some (timeout_link (sch_epoll s))) h2 = Some k" "tl_head k = hd_ptr due None"
    by (auto simp: rd_link_def)
  have run: "loop_collect evs now s = Some (False, ?s)"
    using h1(1) t(1,2,4) k by (simp add: loop_collect_def Let_def on_heap_def)
  have "lists_ok L' (A @ ts @ due) ?s" using t(5) by simp
  moreover have "waits L' (A @ ts @ due) ?s"
  proof -
    have "own_of ?s = own_of s"
      using own_of_mark [where s = "s\<lparr>sch_tw := tw, hp := h\<rparr>"] by simp
    with t(6) show ?thesis by (simp add: waits_def)
  qed
  ultimately show ?thesis
    using run h1(2,5,6) t(8-11) same_data [OF t(7)]
    by (intro exI [of _ ?s] exI [of _ L'] exI [of _ ts] exI [of _ due]) (simp add: collected_def)
qed

section \<open>Resuming\<close>

definition woken :: "addr \<Rightarrow> sched \<Rightarrow> sched \<Rightarrow> bool" where
  "woken c s s' \<longleftrightarrow> co_call_stack s' = c # co_call_stack s \<and> susp s' = (susp s)(c := Running) \<and>
     destroy_co s' = destroy_co s \<and> (\<exists>co. cos s c = Some co \<and> cos s' = (cos s)(c \<mapsto> co\<lparr>co_start := True\<rparr>))"

lemma woken_ok:
  assumes "stack_ok m s" "destroy_ok m s" "woken c s s'" "susp s c \<noteq> Running" "susp s c \<noteq> Finished"
  shows "stack_ok m s'" "destroy_ok m s'"
proof -
  from assms(3) obtain co where s': "co_call_stack s' = c # co_call_stack s" "susp s' = (susp s)(c := Running)"
    "destroy_co s' = destroy_co s" "cos s c = Some co" "cos s' = (cos s)(c \<mapsto> co\<lparr>co_start := True\<rparr>)"
    by (auto simp: woken_def)
  have "\<forall>x. x \<in> set (c # co_call_stack s) \<longleftrightarrow> susp s' x = Running"
    using stack_okD(4) [OF assms(1)] s'(2) by simp
  moreover have "\<forall>x. susp s' x \<noteq> Fresh \<longrightarrow> susp s' x \<noteq> Finished \<longrightarrow> cos s' x \<noteq> None"
    using stack_okD(5) [OF assms(1)] s'(2,5) by simp
  moreover have "c \<notin> set (co_call_stack s)" using stack_okD(4) [OF assms(1)] assms(4) by simp
  ultimately show "stack_ok m s'"
    using stack_okD(1,2,3) [OF assms(1)] s'(1) by (simp add: stack_ok_def)
  have "c \<notin> set (destroy_co s)" using assms(2,5) by (auto simp: destroy_ok_def)
  then show "destroy_ok m s'"
    using assms(2) s' by (auto simp: destroy_ok_def)
qed

lemma pop_ok:
  assumes ok: "lists_ok L (t # A) s" and w: "waits L (t # A) s"
  shows "\<exists>h c e. link_pop (Some (active_link (sch_epoll s))) (hp s) = Some (Some t, h) \<and>
     lists_ok (L(active_link (sch_epoll s) \<mapsto> A)) A (s\<lparr>hp := h\<rparr>) \<and> node_of (susp s c) = Some (e, t) \<and>
     data_of h = data_of (hp s) \<and> unlinked h = (unlinked (hp s))(t := True) \<and>
     wheel_set (sch_tw s) (L(active_link (sch_epoll s) \<mapsto> A)) = wheel_set (sch_tw s) L \<and>
     \<not> unlinked (hp s) t \<and> t \<notin> wheel_set (sch_tw s) L \<and> t \<notin> set A \<and> loop_pop s = Some (c, s\<lparr>hp := h\<rparr>)"
proof -
  let ?a = "active_link (sch_epoll s)"
  let ?L = "L(?a \<mapsto> A)"
  note l = lists_okD [OF ok]
  from tl.pop_ok [OF l(8,2)] obtain h where h: "link_pop (Some ?a) (hp s) = Some (Some t, h)" "reps h ?L"
    "data_of h = data_of (hp s)" "unlinked h = (unlinked (hp s))(t := True)" by blast
  have other: "\<And>k. k \<in> set (tw_slots (sch_tw s)) \<Longrightarrow> ?L k = L k" using l(5) by auto
  have "wheel_ok (sch_tw s) ?L h"
    by (rule wheel_ok_frame [OF l(1) h(2) other]) (simp_all add: same_data [OF h(3)])
  then have lists: "lists_ok ?L A (s\<lparr>hp := h\<rparr>)" using l by (simp add: lists_ok_def)
  from waitsD(4) [OF w [unfolded waits_def]] have "\<exists>c e. node_of (susp s c) = Some (e, t)"
    by (simp add: own_ok_def)
  then obtain c e where c: "node_of (susp s c) = Some (e, t)" by blast
  from waits_rec_at [OF w c] obtain x y where x: "eitems s e = Some x" "ei_co x = Some c"
    and y: "titems (hp s) t = Some y" "ti_item y = Some e" by blast
  have "item_of h t = Some e" using same_data(2) [OF h(3)] y by (simp add: item_of_def data_of_def item_data_def)
  then obtain y' where y': "titems h t = Some y'" "ti_item y' = Some e"
    by (auto simp: item_of_def data_of_def item_data_def bind_eq_Some_conv)
  have "loop_pop s = Some (c, s\<lparr>hp := h\<rparr>)"
    using h(1) x y' by (simp add: loop_pop_def Let_def rd_item_def rd_eitem_def)
  moreover have "t \<notin> wheel_set (sch_tw s) L"
  proof
    assume "t \<in> wheel_set (sch_tw s) L"
    then obtain d where "t \<in> set (slot_list (sch_tw s) L d)" by (auto simp: wheel_set_def)
    moreover have "slot_at (sch_tw s) d \<noteq> ?a" using slot_at_in [OF l(9), of d] l(5) by auto
    ultimately show False
      using tl.lists_disjoint [OF l(8) slot_at_listed [OF l(9), of d] l(2)] by auto
  qed
  moreover have "\<not> unlinked (hp s) t" using tl.free_not_listed [OF l(8) _ l(2), of t] by auto
  moreover have "t \<notin> set A" using tl.lists_distinct [OF l(8,2)] by simp
  ultimately show ?thesis
    using h(1,3,4) lists c wheel_set_frame [where L' = ?L, OF l(9) other]
    by (intro exI [of _ h] exI [of _ c] exI [of _ e]) simp
qed

definition unregister :: "kont \<Rightarrow> co_epoll \<Rightarrow> co_epoll" where
  "unregister k ep = (case k of InRegister fd e t \<Rightarrow> if fd > - 1 then snd (epoll_del fd ep) else ep | _ \<Rightarrow> ep)"

lemma unregister_ok:
  "item_map (unregister k ep) = unmap k (item_map ep)" "epoll_ok ep \<Longrightarrow> epoll_ok (unregister k ep)"
  "active_link (unregister k ep) = active_link ep" "timeout_link (unregister k ep) = timeout_link ep"
  by (auto simp: unregister_def unmap_def epoll_del_map epoll_del_ok split: kont.splits)

text \<open>The rest of \<open>register_event\<close> or \<open>co_cond_wait\<close>, for a coroutine whose node was popped.\<close>

lemma resume_waiting:
  assumes c: "node_of (susp s c) = Some (e, t)" and x: "eitems s e = Some x" and co: "cos s c = Some co"
    and st: "co_call_stack s \<noteq> []" and h: "delete_item (Some t) (hp s) = Some h"
  shows "resume_co c s = Some (Some (case susp s c of InRegister fd e t \<Rightarrow> if ei_is_timeout x then 1 else 0 | _ \<Rightarrow> 1),
    s\<lparr>cos := (cos s)(c \<mapsto> co\<lparr>co_start := True\<rparr>), co_call_stack := c # co_call_stack s,
      susp := (susp s)(c := Running), eitems := (eitems s)(e := None), hp := h,
      sch_epoll := unregister (susp s c) (sch_epoll s)\<rparr>)"
proof -
  have gc: "\<exists>d. get_curr_co s = Some d" using st by (auto simp: get_curr_co_def split: list.splits)
  from c show ?thesis
  proof (cases rule: node_of_cases)
    case (1 fd)
    then show ?thesis
      using x co gc h by (auto simp: resume_co_def resume_def register_end_def unregister_def Let_def mem_simps on_heap_def)
  next
    case (2 cd)
    then show ?thesis
      using x co gc h by (auto simp: resume_co_def resume_def wait_end_def unregister_def Let_def mem_simps on_heap_def)
  qed
qed

lemma loop_drain_ok:
  assumes st: "stack_ok m s" and ok: "lists_ok L (t # A) s" "waits L (t # A) s"
  shows "\<exists>s' L' c e. loop_drain s = Some s' \<and> node_of (susp s c) = Some (e, t) \<and> woken c s s' \<and>
     lists_ok L' A s' \<and> waits L' A s' \<and> eitems s' = (eitems s)(e := None) \<and>
     expire_of (hp s') = (expire_of (hp s))(t := None) \<and> sch_tw s' = sch_tw s \<and> co_deque s' = co_deque s"
proof -
  from pop_ok [OF ok] obtain h1 c e where
    h1: "lists_ok (L(active_link (sch_epoll s) \<mapsto> A)) A (s\<lparr>hp := h1\<rparr>)" and c: "node_of (susp s c) = Some (e, t)"
    and d1: "data_of h1 = data_of (hp s)" "unlinked h1 = (unlinked (hp s))(t := True)"
      "wheel_set (sch_tw s) (L(active_link (sch_epoll s) \<mapsto> A)) = wheel_set (sch_tw s) L"
    and t: "\<not> unlinked (hp s) t" "t \<notin> wheel_set (sch_tw s) L" "t \<notin> set A"
    and run1: "loop_pop s = Some (c, s\<lparr>hp := h1\<rparr>)" by blast
  let ?L = "L(active_link (sch_epoll s) \<mapsto> A)"
  from waits_rec_at [OF ok(2) c] obtain x where x: "eitems s e = Some x" by blast
  have "susp s c \<noteq> Fresh" "susp s c \<noteq> Finished" using c by auto
  with stack_okD(5) [OF st] obtain co where co: "cos s c = Some co" by blast
  note l1 = lists_okD [OF h1]
  have "unlinked h1 t" using d1(2) by simp
  from reps_delete_item [OF _ this] l1(8) obtain h where
    h: "delete_item (Some t) h1 = Some h" "reps h ?L" "data_of h = (data_of h1)(t := None)"
      "unlinked h = (unlinked h1)(t := False)" by auto
  let ?ep = "unregister (susp s c) (sch_epoll s)"
  let ?s = "s\<lparr>hp := h, sch_epoll := ?ep, cos := (cos s)(c \<mapsto> co\<lparr>co_start := True\<rparr>),
     co_call_stack := c # co_call_stack s, susp := (susp s)(c := Running), eitems := (eitems s)(e := None)\<rparr>"
  have run: "loop_drain s = Some ?s"
    using run1 resume_waiting [of "s\<lparr>hp := h1\<rparr>" c e t x co h] c x co stack_okD(1) [OF st] h(1)
    by (simp add: loop_drain_def)
  have ex: "expire_of h = (expire_of (hp s))(t := None)" "item_of h = (item_of (hp s))(t := None)"
    using h(3) d1(1) by (auto simp: fun_eq_iff expire_of_def item_of_def)
  have un: "unlinked h = unlinked (hp s)" using h(4) d1(2) t(1) by (auto simp: fun_eq_iff)
  have "wheel_ok (sch_tw s) ?L h1" using l1(1) by simp
  then have "wheel_ok (sch_tw s) ?L h"
  proof (rule wheel_ok_frame [OF _ h(2)])
    fix y assume "y \<in> wheel_set (sch_tw s) ?L"
    with t(2) d1(3) show "expire_of h y = expire_of h1 y"
      using same_data(1) [OF d1(1)] by (auto simp: ex)
  qed simp
  then have lists: "lists_ok ?L A ?s" using l1 by (simp add: lists_ok_def unregister_ok)
  have "own_of ?s = (own_of s)(e := None)" by (auto simp: own_of_def fun_eq_iff)
  then have "waits ?L A ?s"
    using waits_end [OF ok(2) [unfolded waits_def] c t(1,2)] ex un d1(3) t(3)
    by (simp add: waits_def unregister_ok)
  then show ?thesis
    using run c lists co ex(1) by (intro exI [of _ ?s] exI [of _ ?L] exI [of _ c] exI [of _ e]) (simp add: woken_def)
qed

section \<open>Preservation\<close>

lemma sched_invI:
  assumes "stack_ok m s" "destroy_ok m s" "lists_ok L A s" "waits L A s" "flags A s"
    "pc \<noteq> AtDrain \<Longrightarrow> quiet A s"
  shows "sched_inv m pc s"
  using assms by (auto simp: sched_inv_def)

lemma quiet_register:
  assumes "quiet A s" and "waits L A s" and "susp s' = (susp s)(c := InRegister fd ae at)" and "titems (hp s) at = None"
  shows "quiet A s'"
proof -
  have "at \<notin> set A"
  proof
    assume "at \<in> set A"
    then have "\<exists>c e. node_of (susp s c) = Some (e, at)"
      using waitsD(4) [OF assms(2) [unfolded waits_def]] by (auto simp: own_ok_def)
    then show False using waits_rec_at(2) [OF assms(2)] assms(4) by fastforce
  qed
  with assms(1,3) show ?thesis by (auto simp: quiet_def)
qed

lemma flags_asleep:
  assumes "flags A s" and "asleep c k s s'" and "waits L A s" and "\<And>fd e t. k = InRegister fd e t \<Longrightarrow> eitems s e = None"
  shows "flags A s'"
  unfolding flags_def
proof (intro allI impI)
  fix c' fd e t x assume a: "susp s' c' = InRegister fd e t" "eitems s' e = Some x" "ei_is_timeout x"
  then have e: "eitems s e = Some x" using assms(2) by (simp add: asleep_def)
  have "c' \<noteq> c"
  proof
    assume "c' = c"
    with a(1) assms(2) have "k = InRegister fd e t" by (simp add: asleep_def)
    with assms(4) e show False by simp
  qed
  with a(1) assms(2) have "susp s c' = InRegister fd e t" by (simp add: asleep_def)
  with assms(1) e a(3) show "t \<in> set A" unfolding flags_def by blast
qed

lemma flags_susp:
  assumes "flags A s" and "susp s' = (susp s)(c := k)" and "\<And>fd e t. k \<noteq> InRegister fd e t" and "eitems s' = eitems s"
  shows "flags A s'"
  using assms by (auto simp: flags_def split: if_splits)

lemma quiet_susp:
  assumes "quiet A s" and "susp s' = (susp s)(c := k)" and "\<And>fd e t. k \<noteq> InRegister fd e t"
  shows "quiet A s'"
  using assms by (auto simp: quiet_def)

lemma active_empty_iff:
  assumes "lists_ok L A s"
  shows "active_empty s \<longleftrightarrow> A = []"
  using reps_dll [OF lists_okD(8) [OF assms] lists_okD(2) [OF assms]] by (cases A) (auto simp: active_empty_def dll_def)

lemma item_owner:
  assumes "waits L A s" and "t' \<in> set A" and "item_of (hp s) t' = Some e" and "node_of (susp s c) = Some (e, t)"
  shows "t' = t"
proof -
  note w = waitsD [OF assms(1) [unfolded waits_def]]
  from w(4) assms(2) obtain c' e' where c': "node_of (susp s c') = Some (e', t')" unfolding own_ok_def by blast
  with recsD(1) [OF w(1) c'] assms(3) have "e' = e" by simp
  with recs_inj [OF w(1) c' assms(4)] show ?thesis by simp
qed

lemma marked_iff:
  assumes "waits L A s'" and "eitems s' = mark (item_of (hp s')) D (eitems s)" and "D \<subseteq> set A"
    and "node_of (susp s' c) = Some (e, t)" and "eitems s e = Some x"
  shows "\<exists>x'. eitems s' e = Some x' \<and> (ei_is_timeout x' \<longleftrightarrow> ei_is_timeout x \<or> t \<in> D)"
proof -
  have "(\<exists>t' \<in> D. item_of (hp s') t' = Some e) \<longleftrightarrow> t \<in> D"
  proof
    assume "\<exists>t' \<in> D. item_of (hp s') t' = Some e"
    then obtain t' where "t' \<in> D" "item_of (hp s') t' = Some e" by blast
    with item_owner [OF assms(1) _ _ assms(4), of t'] assms(3) show "t \<in> D" by blast
  next
    assume "t \<in> D"
    with recsD(1) [OF waitsD(1) [OF assms(1) [unfolded waits_def]] assms(4)]
    show "\<exists>t' \<in> D. item_of (hp s') t' = Some e" by blast
  qed
  then show ?thesis using assms(2,5) by (simp add: mark_def)
qed

lemma flags_mark:
  assumes fl: "flags A s" and co: "collected s s'" and w: "waits L A' s'"
    and m: "eitems s' = mark (item_of (hp s')) D (eitems s)" and D: "D \<subseteq> set A'" and A: "set A \<subseteq> set A'"
  shows "flags A' s'"
  unfolding flags_def
proof (intro allI impI)
  fix c fd e t x' assume a: "susp s' c = InRegister fd e t" "eitems s' e = Some x'" "ei_is_timeout x'"
  from a(2) m obtain x where x: "eitems s e = Some x" by (auto simp: mark_def)
  have "node_of (susp s' c) = Some (e, t)" using a(1) by simp
  from marked_iff [OF w m D this x] a(2,3) have "ei_is_timeout x \<or> t \<in> D" by auto
  then show "t \<in> set A'"
    using fl co a(1) x D A unfolding flags_def collected_def by (metis subsetD)
qed

lemma flags_woken:
  assumes fl: "flags (t # A) s" and w: "waits L (t # A) s" and c: "node_of (susp s c) = Some (e, t)"
    and wk: "woken c s s'" and ei: "eitems s' = (eitems s)(e := None)"
  shows "flags A s'"
  unfolding flags_def
proof (intro allI impI)
  fix c' fd e' t' x assume a: "susp s' c' = InRegister fd e' t'" "eitems s' e' = Some x" "ei_is_timeout x"
  then have s: "susp s c' = InRegister fd e' t'" "c' \<noteq> c" and x: "eitems s e' = Some x"
    using wk ei by (auto simp: woken_def split: if_splits)
  have "t' \<noteq> t" using recs_inj(2) [OF waitsD(1) [OF w [unfolded waits_def]] c, of c' e' t'] s by auto
  moreover have "t' \<in> set (t # A)" using fl s(1) x a(3) unfolding flags_def by blast
  ultimately show "t' \<in> set A" by simp
qed

lemma events_registered:
  assumes "lists_ok L A s" "waits L A s" "quiet A s" and "events_ok evs s" and "e \<in> set evs"
  shows "\<exists>c fd t. susp s c = InRegister fd e t \<and> t \<notin> set A"
proof -
  from assms(4,5) obtain fd ev where "interest (sch_epoll s) fd = Some (ev, e)" by (auto simp: events_ok_def)
  with lists_okD(7) [OF assms(1)] have "item_map (sch_epoll s) fd = Some e" unfolding epoll_ok_def by blast
  with waitsD(5) [OF assms(2) [unfolded waits_def]] have "\<exists>c t. susp s c = InRegister fd e t"
    unfolding map_ok_def by blast
  with assms(3) show ?thesis unfolding quiet_def by metis
qed

lemma step_poll:
  assumes inv: "sched_inv m AtPoll s" and "events_ok evs s" and "time_ok now s"
  shows "\<exists>s'. loop_collect evs now s = Some (False, s') \<and> sched_inv m AtDrain s'"
proof -
  from inv obtain L A where ok: "stack_ok m s" "destroy_ok m s" "lists_ok L A s" "waits L A s" "quiet A s" "flags A s"
    by (auto simp: sched_inv_def)
  have "distinct evs" using assms(2) by (simp add: events_ok_def)
  from loop_collect_ok [OF ok(3,4) assms(3) this events_registered [OF ok(3,4,5) assms(2)]] obtain s' L' ts due where
    s': "loop_collect evs now s = Some (False, s')" "collected s s'" "lists_ok L' (A @ ts @ due) s'"
      "waits L' (A @ ts @ due) s'" "eitems s' = mark (item_of (hp s')) (set due) (eitems s)"
    by blast
  have "flags (A @ ts @ due) s'" using flags_mark [OF ok(6) s'(2,4,5)] by auto
  moreover have "stack_ok m s'" "destroy_ok m s'"
    using ok(1,2) s'(2) by (simp_all add: collected_def stack_ok_def destroy_ok_def)
  ultimately show ?thesis using s' by (blast intro: sched_invI)
qed

lemma step_drain:
  assumes "sched_inv m AtDrain s" and "\<not> active_empty s"
  shows "\<exists>s'. loop_drain s = Some s' \<and> sched_inv m AtDrain s'"
proof -
  from assms(1) obtain L A where ok: "stack_ok m s" "destroy_ok m s" "lists_ok L A s" "waits L A s" "flags A s"
    by (auto simp: sched_inv_def)
  with assms(2) active_empty_iff obtain t A' where A: "A = t # A'" by (metis neq_Nil_conv)
  from loop_drain_ok [OF ok(1) ok(3,4) [unfolded A]] obtain s' L' c e where
    s': "loop_drain s = Some s'" "node_of (susp s c) = Some (e, t)" "woken c s s'" "lists_ok L' A' s'" "waits L' A' s'"
      "eitems s' = (eitems s)(e := None)" by blast
  have "flags A' s'" using flags_woken [OF ok(5) [unfolded A] ok(4) [unfolded A] s'(2,3,6)] .
  moreover have "susp s c \<noteq> Running" "susp s c \<noteq> Finished" using s'(2) by auto
  ultimately show ?thesis using woken_ok [OF ok(1,2) s'(3)] s'(1,4,5) by (blast intro: sched_invI)
qed

lemma clear_list_ok:
  assumes "\<And>c. c \<in> set cs \<Longrightarrow> \<exists>co. cos s c = Some co \<and> co_conn co \<noteq> None" and "distinct cs"
  shows "clear_list cs (s\<lparr>destroy_co := cs\<rparr>) =
    Some (s\<lparr>destroy_co := [], cos := (\<lambda>c. if c \<in> set cs then None else cos s c)\<rparr>)"
  using assms
proof (induction cs arbitrary: s)
  case Nil
  then show ?case by simp
next
  case (Cons c cs)
  from Cons.prems(1) [of c] obtain co conn where co: "cos s c = Some co" "co_conn co = Some conn" by auto
  let ?s = "s\<lparr>cos := (cos s)(c := None)\<rparr>"
  have IH: "clear_list cs (?s\<lparr>destroy_co := cs\<rparr>) =
    Some (?s\<lparr>destroy_co := [], cos := (\<lambda>d. if d \<in> set cs then None else cos ?s d)\<rparr>)"
    using Cons.prems by (intro Cons.IH) auto
  have eq: "(\<lambda>d. if d \<in> set cs then None else cos ?s d) = (\<lambda>d. if d \<in> set (c # cs) then None else cos s d)"
    by auto
  have swap: "?s\<lparr>destroy_co := cs\<rparr> = s\<lparr>destroy_co := cs, cos := (cos s)(c := None)\<rparr>" by simp
  show ?case
    using co IH unfolding eq swap by (simp add: delete_coroutine_def)
qed

lemma clear_co_ok:
  assumes "sched_inv m InFunc s"
  shows "clear_co s = Some (s\<lparr>destroy_co := [], cos := (\<lambda>c. if c \<in> set (destroy_co s) then None else cos s c)\<rparr>)"
    and "sched_inv m AtPoll (s\<lparr>destroy_co := [], cos := (\<lambda>c. if c \<in> set (destroy_co s) then None else cos s c)\<rparr>)"
proof -
  from assms obtain L A where ok: "stack_ok m s" "destroy_ok m s" "lists_ok L A s" "waits L A s" "quiet A s" "flags A s"
    by (auto simp: sched_inv_def)
  let ?D = "set (destroy_co s)"
  have fin: "susp s c = Finished \<and> (\<exists>co. cos s c = Some co)" if "c \<in> ?D" for c
    using that ok(2) by (auto simp: destroy_ok_def)
  have "susp s m = Running" using stack_okD [OF ok(1)] last_in_set [OF stack_okD(1) [OF ok(1)]] by auto
  then have conn: "\<exists>co. cos s c = Some co \<and> co_conn co \<noteq> None" if "c \<in> ?D" for c
    using that fin [OF that] ok(2) unfolding destroy_ok_def by (metis kont.distinct)
  let ?s = "s\<lparr>destroy_co := [], cos := (\<lambda>c. if c \<in> ?D then None else cos s c)\<rparr>"
  show "clear_co s = Some ?s"
    using clear_list_ok [of "destroy_co s" s, OF conn] ok(2) by (simp add: clear_co_def destroy_ok_def)
  have "stack_ok m ?s"
    using ok(1) fin by (auto simp: stack_ok_def)
  moreover have "destroy_ok m ?s" using ok(2) by (auto simp: destroy_ok_def split: if_splits)
  moreover have "waits L A ?s" "quiet A ?s" "flags A ?s"
    using ok(4,5,6) by (simp_all add: waits_def quiet_def flags_def)
  ultimately show "sched_inv m AtPoll ?s" using ok(3) by (blast intro: sched_invI lists_ok_upd [THEN iffD2])
qed

text \<open>The steps of the coroutines.\<close>

lemma step_spawn:
  assumes "sched_inv m pc s" and "cos s c = None"
  shows "sched_inv m pc (spawn c func s)"
proof -
  from assms obtain L A where ok: "stack_ok m s" "destroy_ok m s" "lists_ok L A s" "waits L A s"
    "pc \<noteq> AtDrain \<Longrightarrow> quiet A s" "flags A s" by (auto simp: sched_inv_def)
  have c: "susp s c = Fresh \<or> susp s c = Finished" using stack_okD(5) [OF ok(1), of c] assms(2) by blast
  then have "stack_ok m (spawn c func s)"
    using ok(1) unfolding stack_ok_def spawn_def by auto
  moreover have "destroy_ok m (spawn c func s)"
    using ok(2) assms(2) by (auto simp: destroy_ok_def spawn_def new_coroutine_def)
  moreover have "waits L A (spawn c func s)"
    using waits_quiet [OF ok(4) [unfolded waits_def], of c Fresh] c by (auto simp: waits_def spawn_def)
  moreover have "quiet A (spawn c func s)" if "quiet A s"
    using quiet_susp [OF that, of "spawn c func s" c Fresh] by (simp add: spawn_def)
  moreover have "flags A (spawn c func s)"
    using flags_susp [OF ok(6), of "spawn c func s" c Fresh] by (simp add: spawn_def)
  moreover have "lists_ok L A (spawn c func s)" using ok(3) by (simp add: spawn_def)
  ultimately show ?thesis using ok(5) by (blast intro: sched_invI)
qed

lemma step_setconn:
  assumes "sched_inv m pc s" and "cos s c \<noteq> None"
  shows "\<exists>s'. setconn c conn s = Some s' \<and> sched_inv m pc s'"
proof -
  from assms obtain L A co where ok: "stack_ok m s" "destroy_ok m s" "lists_ok L A s" "waits L A s"
    "pc \<noteq> AtDrain \<Longrightarrow> quiet A s" "flags A s" and co: "cos s c = Some co" by (auto simp: sched_inv_def)
  let ?s = "s\<lparr>cos := (cos s)(c \<mapsto> co\<lparr>co_conn := Some conn\<rparr>)\<rparr>"
  have "stack_ok m ?s" "destroy_ok m ?s"
    using ok(1,2) by (auto simp: stack_ok_def destroy_ok_def)
  moreover have "waits L A ?s" "quiet A s \<Longrightarrow> quiet A ?s" "flags A ?s"
    using ok(4,6) by (simp_all add: waits_def quiet_def flags_def)
  ultimately have "sched_inv m pc ?s" using ok(3,5) by (intro sched_invI [of m ?s L A]) simp_all
  with co show ?thesis by (simp add: setconn_def)
qed

lemma step_resume:
  assumes "sched_inv m pc s" and "cos s c \<noteq> None" and k: "susp s c = Fresh \<or> susp s c = InYield"
  shows "\<exists>s'. resume_co c s = Some (None, s') \<and> sched_inv m pc s'"
proof -
  from assms obtain L A co where ok: "stack_ok m s" "destroy_ok m s" "lists_ok L A s" "waits L A s"
    "pc \<noteq> AtDrain \<Longrightarrow> quiet A s" "flags A s" and co: "cos s c = Some co" by (auto simp: sched_inv_def)
  let ?s = "s\<lparr>cos := (cos s)(c \<mapsto> co\<lparr>co_start := True\<rparr>), co_call_stack := c # co_call_stack s,
    susp := (susp s)(c := Running)\<rparr>"
  have "get_curr_co s \<noteq> None" using stack_okD(1) [OF ok(1)] by (simp add: get_curr_co_def split: list.splits)
  then have run: "resume_co c s = Some (None, ?s)" using k co by (auto simp: resume_co_def resume_def)
  have wk: "woken c s ?s" using co by (simp add: woken_def)
  have "waits L A ?s"
    using waits_quiet [OF ok(4) [unfolded waits_def], of c Running] k by (auto simp: waits_def)
  moreover have "quiet A ?s" if "quiet A s" using quiet_susp [OF that, of ?s c Running] by simp
  moreover have "flags A ?s" using flags_susp [OF ok(6), of ?s c Running] by simp
  moreover have "stack_ok m ?s" "destroy_ok m ?s" using woken_ok [OF ok(1,2) wk] k by auto
  ultimately have "sched_inv m pc ?s" using ok(3,5) by (intro sched_invI [of m ?s L A]) simp_all
  with run show ?thesis by blast
qed

lemma stack_two:
  assumes "length st > 1" obtains c c' rest where "st = c # c' # rest"
  using assms by (cases st; cases "List.tl st") auto

lemma step_yield:
  assumes inv: "sched_inv m pc s" and len: "length (co_call_stack s) > 1"
  shows "\<exists>s'. yield_at InYield s = Some s' \<and> sched_inv m pc s'"
proof -
  from inv obtain L A where ok: "stack_ok m s" "destroy_ok m s" "lists_ok L A s" "waits L A s"
    "pc \<noteq> AtDrain \<Longrightarrow> quiet A s" "flags A s" by (auto simp: sched_inv_def)
  from len obtain c c' rest where st: "co_call_stack s = c # c' # rest" by (rule stack_two)
  note top = stack_top [OF ok(1) st]
  let ?s = "s\<lparr>co_call_stack := c' # rest, susp := (susp s)(c := InYield)\<rparr>"
  have run: "yield_at InYield s = Some ?s" using st by (simp add: yield_at_def)
  have sl: "asleep c InYield s ?s" using st by (simp add: asleep_def)
  have "waits L A ?s"
    using waits_quiet [OF ok(4) [unfolded waits_def], of c InYield] top(1) by (simp add: waits_def)
  moreover have "quiet A ?s" if "quiet A s" using quiet_susp [OF that, of ?s c InYield] by simp
  moreover have "flags A ?s" using flags_susp [OF ok(6), of ?s c InYield] by simp
  moreover have "stack_ok m ?s" "destroy_ok m ?s" using asleep_ok [OF ok(1,2) st sl] by auto
  ultimately have "sched_inv m pc ?s" using ok(3,5) by (intro sched_invI [of m ?s L A]) simp_all
  with run show ?thesis by blast
qed

lemma finished_stack:
  assumes ok: "stack_ok m s" "destroy_ok m s" and st: "co_call_stack s = c # c' # rest" and co: "cos s c = Some co"
    and s': "s' = s\<lparr>cos := (cos s)(c \<mapsto> co\<lparr>co_end := True\<rparr>), destroy_co := destroy_co s @ [c],
      co_call_stack := c' # rest, susp := (susp s)(c := Finished)\<rparr>"
  shows "stack_ok m s'" "destroy_ok m s'"
proof -
  note top = stack_top [OF ok(1) st]
  have "\<forall>x. x \<in> set (c' # rest) \<longleftrightarrow> susp s' x = Running"
    using stack_okD(3) [OF ok(1)] stack_okD(4) [OF ok(1)] st by (auto simp: s')
  moreover have "\<forall>x. susp s' x \<noteq> Fresh \<longrightarrow> susp s' x \<noteq> Finished \<longrightarrow> cos s' x \<noteq> None"
    using stack_okD(5) [OF ok(1)] by (simp add: s')
  ultimately show "stack_ok m s'"
    using stack_okD(2,3) [OF ok(1)] st by (simp add: stack_ok_def s')
  have "c \<notin> set (destroy_co s)" using ok(2) top(1) by (auto simp: destroy_ok_def)
  then show "destroy_ok m s'"
    using ok(2) top(3) co by (auto simp: destroy_ok_def s')
qed

lemma step_finish:
  assumes inv: "sched_inv m pc s" and len: "length (co_call_stack s) > 1"
  shows "\<exists>s'. co_func_end s = Some s' \<and> sched_inv m pc s'"
proof -
  from inv obtain L A where ok: "stack_ok m s" "destroy_ok m s" "lists_ok L A s" "waits L A s"
    "pc \<noteq> AtDrain \<Longrightarrow> quiet A s" "flags A s" by (auto simp: sched_inv_def)
  from len obtain c c' rest where st: "co_call_stack s = c # c' # rest" by (rule stack_two)
  note top = stack_top [OF ok(1) st]
  from top(2) obtain co where co: "cos s c = Some co" by blast
  let ?s = "s\<lparr>cos := (cos s)(c \<mapsto> co\<lparr>co_end := True\<rparr>), destroy_co := destroy_co s @ [c],
    co_call_stack := c' # rest, susp := (susp s)(c := Finished)\<rparr>"
  have run: "co_func_end s = Some ?s"
    using st co by (simp add: co_func_end_def get_curr_co_def yield_at_def Let_def)
  have "waits L A ?s"
    using waits_quiet [OF ok(4) [unfolded waits_def], of c Finished] top(1) by (simp add: waits_def)
  moreover have "quiet A ?s" if "quiet A s" using quiet_susp [OF that, of ?s c Finished] by simp
  moreover have "flags A ?s" using flags_susp [OF ok(6), of ?s c Finished] by simp
  ultimately have "sched_inv m pc ?s"
    using ok(3,5) finished_stack [OF ok(1,2) st co refl] by (intro sched_invI [of m ?s L A]) simp_all
  with run show ?thesis by blast
qed

lemma step_register:
  assumes inv: "sched_inv m pc s" and len: "length (co_call_stack s) > 1" and r: "register_ok fd timeout now ae at s"
  shows "\<exists>q s'. register_begin fd events timeout now ae at s = Some (q, s') \<and> sched_inv m pc s'"
proof -
  from inv obtain L A where ok: "stack_ok m s" "destroy_ok m s" "lists_ok L A s" "waits L A s"
    "pc \<noteq> AtDrain \<Longrightarrow> quiet A s" "flags A s" by (auto simp: sched_inv_def)
  from len obtain c c' rest where st: "co_call_stack s = c # c' # rest" by (rule stack_two)
  from register_begin_ok [OF st stack_top(1) [OF ok(1) st] ok(3,4) r] obtain q s' L' where
    s': "register_begin fd events timeout now ae at s = Some (q, s')" "lists_ok L' A s'" "waits L' A s'"
      "s' = s \<or> asleep c (InRegister fd ae at) s s'" by blast
  from s'(4) have "sched_inv m pc s'"
  proof
    assume sl: "asleep c (InRegister fd ae at) s s'"
    have "titems (hp s) at = None" using r by (simp add: register_ok_def)
    with sl have "quiet A s'" if "quiet A s" using quiet_register [OF that ok(4)] by (simp add: asleep_def)
    moreover have "flags A s'" using flags_asleep [OF ok(6) sl ok(4)] r by (auto simp: register_ok_def)
    ultimately show ?thesis
      using ok(5) s'(2,3) asleep_ok [OF ok(1,2) st sl] by (intro sched_invI [of m s' L' A]) auto
  qed (simp add: inv)
  with s'(1) show ?thesis by blast
qed

lemma step_wait:
  assumes inv: "sched_inv m pc s" and len: "length (co_call_stack s) > 1"
    and new: "eitems s ae = None" "titems (hp s) at = None"
  shows "\<exists>s'. wait_begin k ae at s = Some s' \<and> sched_inv m pc s'"
proof -
  from inv obtain L A where ok: "stack_ok m s" "destroy_ok m s" "lists_ok L A s" "waits L A s"
    "pc \<noteq> AtDrain \<Longrightarrow> quiet A s" "flags A s" by (auto simp: sched_inv_def)
  from len obtain c c' rest where st: "co_call_stack s = c # c' # rest" by (rule stack_two)
  from wait_begin_ok [OF st stack_top(1) [OF ok(1) st] ok(3,4) new] obtain s' where
    s': "wait_begin k ae at s = Some s'" "lists_ok L A s'" "waits L A s'" "asleep c (InWait k ae at) s s'" by blast
  have "quiet A s'" if "quiet A s" using quiet_susp [OF that, of s' c "InWait k ae at"] s'(4) by (simp add: asleep_def)
  moreover have "flags A s'" using flags_asleep [OF ok(6) s'(4) ok(4)] by auto
  ultimately have "sched_inv m pc s'"
    using ok(5) s'(2,3) asleep_ok [OF ok(1,2) st s'(4)] by (intro sched_invI [of m s' L A]) auto
  with s'(1) show ?thesis by blast
qed

lemma awake_flags: "flags A s \<Longrightarrow> awake s s' \<Longrightarrow> set A \<subseteq> set A' \<Longrightarrow> flags A' s'"
  unfolding flags_def awake_def by (metis subsetD)

lemma awake_ok:
  assumes "awake s s'"
  shows "stack_ok m s' = stack_ok m s" "destroy_ok m s' = destroy_ok m s"
  using assms by (simp_all add: awake_def stack_ok_def destroy_ok_def)

lemma step_signal:
  assumes "sched_inv m pc s"
  shows "\<exists>r s'. co_cond_signal k s = Some (r, s') \<and> sched_inv m pc s'"
proof -
  from assms obtain L A where ok: "stack_ok m s" "destroy_ok m s" "lists_ok L A s" "waits L A s"
    "pc \<noteq> AtDrain \<Longrightarrow> quiet A s" "flags A s" by (auto simp: sched_inv_def)
  from co_cond_signal_ok [OF ok(3,4)] obtain r s' A' L' where
    s': "co_cond_signal k s = Some (r, s')" "lists_ok L' A' s'" "waits L' A' s'" "awake s s'"
      "set A \<subseteq> set A'" "quiet A s \<longrightarrow> quiet A' s'" by blast
  with ok awake_ok [OF s'(4)] awake_flags [OF ok(6) s'(4,5)] show ?thesis by (metis sched_invI)
qed

lemma step_broadcast:
  assumes "sched_inv m pc s"
  shows "\<exists>r s'. co_cond_broadcast k s = Some (r, s') \<and> sched_inv m pc s'"
proof -
  from assms obtain L A where ok: "stack_ok m s" "destroy_ok m s" "lists_ok L A s" "waits L A s"
    "pc \<noteq> AtDrain \<Longrightarrow> quiet A s" "flags A s" by (auto simp: sched_inv_def)
  from broadcast_loop_ok [OF ok(3,4) refl] obtain s' ts L' where
    s': "broadcast_loop k (co_deque s k) s = Some s'" "lists_ok L' (A @ ts) s'" "waits L' (A @ ts) s'"
      "awake s s'" "quiet A s \<longrightarrow> quiet (A @ ts) s'" by blast
  then have "sched_inv m pc s'"
    using ok awake_ok [OF s'(4)] awake_flags [OF ok(6) s'(4), of "A @ ts"] by (intro sched_invI [of m s' L' "A @ ts"]) auto
  with s'(1) show ?thesis by (simp add: co_cond_broadcast_def)
qed

section \<open>Reachable states\<close>

definition sys_inv :: "addr \<Rightarrow> sys \<Rightarrow> bool" where
  "sys_inv m x = (case x of Fault \<Rightarrow> False | Sys pc s \<Rightarrow> sched_inv m pc s)"

lemma sys_inv_simps [simp]: "sys_inv m (Sys pc s) = sched_inv m pc s" "\<not> sys_inv m Fault"
  "sys_inv m (outcome pc (Some s)) = sched_inv m pc s"
  by (simp_all add: sys_inv_def outcome_def)

lemma sched_inv_pc: "sched_inv m pc s \<Longrightarrow> pc \<noteq> AtDrain \<Longrightarrow> sched_inv m pc' s"
  by (auto simp: sched_inv_def)

lemma sched_inv_drained:
  assumes "sched_inv m AtDrain s" and "active_empty s"
  shows "sched_inv m InFunc s"
proof -
  from assms(1) obtain L A where ok: "stack_ok m s" "destroy_ok m s" "lists_ok L A s" "waits L A s" "flags A s"
    by (auto simp: sched_inv_def)
  moreover have "quiet A s" using active_empty_iff [OF ok(3)] assms(2) by (simp add: quiet_def)
  ultimately show ?thesis by (blast intro: sched_invI)
qed

lemma step_inv: "step x y \<Longrightarrow> sys_inv m x \<Longrightarrow> sys_inv m y"
proof (induction rule: step.induct)
  case (poll s evs now)
  then show ?case using step_poll [of m s evs now] by (auto simp: loop_collected_def)
next
  case (drain s)
  then show ?case using step_drain [of m s] by auto
next
  case (func_clear s)
  then show ?case using clear_co_ok [of m s] by auto
next
  case (set_conn pc s c conn)
  then show ?case using step_setconn [of m pc s c conn] by auto
next
  case (resume_new pc s c)
  then show ?case using step_resume [of m pc s c] by auto
next
  case (yield s pc)
  then show ?case using step_yield [of m pc s] by auto
next
  case (finish s pc)
  then show ?case using step_finish [of m pc s] by auto
next
  case (register s fd timeout now ae at pc events)
  then show ?case using step_register [of m pc s fd timeout now ae at events] by auto
next
  case (wait s ae at pc k)
  then show ?case using step_wait [of m pc s ae at k] by auto
next
  case (signal pc s k)
  then show ?case using step_signal [of m pc s k] by auto
next
  case (broadcast pc s k)
  then show ?case using step_broadcast [of m pc s k] by auto
qed (auto intro: step_spawn sched_inv_drained elim: sched_inv_pc)

text \<open>The state of a thread whose scheduler has just been made.\<close>

definition fresh_sched :: "addr \<Rightarrow> addr \<Rightarrow> addr \<Rightarrow> addr list \<Rightarrow> u64 \<Rightarrow> bool" where
  "fresh_sched m a b slots now \<longleftrightarrow> distinct (a # b # slots) \<and> length slots = 60000 \<and> unat now + 60000 < 2 ^ 64"

lemma new_scheduler_inv:
  assumes "fresh_sched m a b slots now"
  shows "sched_inv m Outside (new_scheduler m a b slots now)"
proof -
  have as: "distinct slots" "a \<notin> set slots" "b \<notin> set slots" "a \<noteq> b" "length slots = nat 60000"
    "unat now + nat 60000 < 2 ^ 64" using assms by (auto simp: fresh_sched_def)
  define h0 where "h0 = new_link b (new_link a \<lparr>titems = Map.empty, tlinks = Map.empty\<rparr>)"
  have "reps \<lparr>titems = Map.empty, tlinks = Map.empty\<rparr> Map.empty" by (simp add: reps_def)
  then have r0: "reps h0 [a \<mapsto> [], b \<mapsto> []]"
    unfolding h0_def using as(4) by (intro reps_new_link) simp_all
  let ?L = "\<lambda>l. if l \<in> set slots then Some [] else [a \<mapsto> [], b \<mapsto> []] l"
  let ?s = "new_scheduler m a b slots now"
  obtain w h where wh: "new_time_wheel slots 60000 True now h0 = (w, h)" by fastforce
  have w: "w = \<lparr>w_size = 60000, w_start = now, w_index = 0, tw_slots = slots, isms = True\<rparr>"
    using wh by (simp add: new_time_wheel_def)
  have fw: "wheel_ok w ?L h \<and> wheel_set w ?L = {}"
    by (rule fresh_wheel [OF _ _ as(5,1) r0 _ as(6) wh]) (use as in \<open>auto simp: INT_MAX_def\<close>)
  have s: "hp ?s = h" "sch_tw ?s = w" "active_link (sch_epoll ?s) = a" "timeout_link (sch_epoll ?s) = b"
    "epoll_ok (sch_epoll ?s)" "item_map (sch_epoll ?s) = Map.empty" "co_deque ?s = (\<lambda>_. [])"
    "susp ?s = (\<lambda>_. Fresh)(m := Running)" "cos ?s = [m \<mapsto> new_main_coroutine]" "destroy_co ?s = []"
    "co_call_stack ?s = [m]"
    using wh by (simp_all add: new_scheduler_def new_co_epoll_def h0_def epoll_ok_def)
  have "lists_ok ?L [] ?s" using fw as s w by (simp add: lists_ok_def)
  moreover have "waits ?L [] ?s"
    using fw s by (simp add: waits_def waits_ok_def recs_ok_def reg_ok_def cond_ok_def own_ok_def map_ok_def queue_ok_def)
  moreover have "stack_ok m ?s" "destroy_ok m ?s" "flags [] ?s" "quiet [] ?s"
    using s by (auto simp: stack_ok_def destroy_ok_def flags_def quiet_def)
  ultimately show ?thesis by (blast intro: sched_invI)
qed

interpretation sched: machine step
  "\<lambda>x. \<exists>a b slots now. fresh_sched m a b slots now \<and> x = Sys Outside (new_scheduler m a b slots now)" "sys_inv m" for m
  by unfold_locales (use new_scheduler_inv step_inv in auto)

lemma reachable_inv:
  assumes "fresh_sched m a b slots now" and "step\<^sup>*\<^sup>* (Sys Outside (new_scheduler m a b slots now)) x"
  shows "sys_inv m x"
  using sched.inv_reach [OF _ assms(2)] assms(1) by blast

end
