(* ===== verification/Sched_Props.thy ===== *)
theory Sched_Props
  imports Sched_Machine
begin

text \<open>
  What the scheduler guarantees in every state a thread can reach: no access to freed or
  unlinked memory, the discipline of the call stack, what a round of \<open>event_loop\<close> does
  with events and timeouts, the order in which coroutines are resumed, and that no wait
  is lost. Two further properties show what happens outside the guards of the machine.
\<close>

section \<open>Facts about reachable states\<close>

lemma dseg_unique:
  "dseg m l p xs None \<Longrightarrow> dseg m l p ys None \<Longrightarrow> hd_ptr xs None = hd_ptr ys None \<Longrightarrow> xs = ys"
proof (induction xs arbitrary: p ys)
  case Nil
  then show ?case by (cases ys) auto
next
  case (Cons x xs)
  then obtain ys' where ys: "ys = x # ys'" by (cases ys) auto
  with Cons.prems have "hd_ptr xs None = hd_ptr ys' None" by auto
  with Cons ys show ?case by auto
qed

lemma dll_unique: "dll h l xs \<Longrightarrow> dll h l ys \<Longrightarrow> xs = ys"
  using dseg_unique by (auto simp: dll_def)

lemma lists_ok_active: "lists_ok L A s \<Longrightarrow> dll (hp s) (active_link (sch_epoll s)) A"
  by (meson lists_okD reps_dll)

lemma poll_round_inv:
  assumes inv: "sched_inv m AtPoll s" and evs: "events_ok evs s" and now: "time_ok now s"
    and A: "dll (hp s) (active_link (sch_epoll s)) A"
  shows "\<exists>s' ts due. loop_collect evs now s = Some (False, s') \<and> collected s s' \<and>
     dll (hp s') (active_link (sch_epoll s)) (A @ ts @ due) \<and>
     list_all2 (\<lambda>e t. \<exists>c fd. susp s c = InRegister fd e t) evs ts \<and>
     sorted (map (\<lambda>t. the (expire_of (hp s) t)) due) \<and>
     (\<forall>t \<in> set due. \<exists>c fd e. susp s c = InRegister fd e t) \<and>
     (\<forall>c fd e t. susp s c = InRegister fd e t \<longrightarrow>
        (t \<in> set due \<longleftrightarrow> t \<notin> set ts \<and> (\<exists>n. expire_of (hp s) t = Some n \<and> 0 < n \<and> n \<le> unat now)) \<and>
        (\<exists>x. eitems s' e = Some x \<and> (ei_is_timeout x \<longleftrightarrow> t \<in> set due))) \<and>
     w_start (sch_tw s') = now"
proof -
  from inv obtain L A' where ok: "lists_ok L A' s" "waits L A' s" "flags A' s" "quiet A' s"
    by (auto simp: sched_inv_def)
  have A': "A' = A" using dll_unique [OF lists_ok_active [OF ok(1)] A] .
  have d: "distinct evs" using evs by (simp add: events_ok_def)
  from loop_collect_ok [OF ok(1,2) now d events_registered [OF ok(1,2,4) evs]] obtain s' L' ts due where
    s': "loop_collect evs now s = Some (False, s')" "collected s s'"
      "list_all2 (\<lambda>e t. \<exists>c fd. susp s c = InRegister fd e t) evs ts"
      "lists_ok L' (A @ ts @ due) s'" "waits L' (A @ ts @ due) s'"
      "sorted (map (\<lambda>x. the (expire_of (hp s) x)) due)"
      "\<forall>x. x \<in> set due \<longleftrightarrow> x \<in> wheel_set (sch_tw s) L - set ts \<and> (\<exists>n \<le> unat now. expire_of (hp s) x = Some n)"
      "eitems s' = mark (item_of (hp s')) (set due) (eitems s)" "w_start (sch_tw s') = now"
    unfolding A' by blast
  have "(t \<in> set due \<longleftrightarrow> t \<notin> set ts \<and> (\<exists>n. expire_of (hp s) t = Some n \<and> 0 < n \<and> n \<le> unat now)) \<and>
        (\<exists>x. eitems s' e = Some x \<and> (ei_is_timeout x \<longleftrightarrow> t \<in> set due))"
    if c: "susp s c = InRegister fd e t" for c fd e t
  proof
    note w = waitsD [OF ok(2) [unfolded waits_def]]
    have "t \<notin> set A'" using ok(4) c unfolding quiet_def by blast
    then have place: "t \<in> wheel_set (sch_tw s) L \<and> expire_of (hp s) t \<noteq> Some 0 \<or>
        unlinked (hp s) t \<and> expire_of (hp s) t = Some 0"
      using w(2) c unfolding reg_ok_def by blast
    then show "t \<in> set due \<longleftrightarrow> t \<notin> set ts \<and> (\<exists>n. expire_of (hp s) t = Some n \<and> 0 < n \<and> n \<le> unat now)"
      using s'(7) unlinked_not_in_wheel [OF ok(1), of t] by (metis DiffE DiffI bot_nat_0.not_eq_extremum option.inject)
    have node: "node_of (susp s c) = Some (e, t)" using c by simp
    from waits_rec_at(1) [OF ok(2) node] obtain x where x: "eitems s e = Some x" by blast
    have "\<not> ei_is_timeout x" using ok(3) c x \<open>t \<notin> set A'\<close> unfolding flags_def by blast
    moreover have "node_of (susp s' c) = Some (e, t)" using node s'(2) by (simp add: collected_def)
    ultimately show "\<exists>x. eitems s' e = Some x \<and> (ei_is_timeout x \<longleftrightarrow> t \<in> set due)"
      using marked_iff [OF s'(5,8) _ _ x, of c t] by auto
  qed
  moreover have "\<forall>t \<in> set due. \<exists>c fd e. susp s c = InRegister fd e t"
    using s'(7) waitsD(4) [OF ok(2) [unfolded waits_def]] unfolding own_ok_def by blast
  moreover have "dll (hp s') (active_link (sch_epoll s)) (A @ ts @ due)"
    using lists_ok_active [OF s'(4)] s'(2) by (simp add: collected_def)
  ultimately show ?thesis using s'(1,2,3,6,9) by blast
qed

lemma drain_round_inv:
  assumes inv: "sched_inv m pc s" and A: "dll (hp s) (active_link (sch_epoll s)) (t # A)"
  shows "\<exists>c e h r s'. node_of (susp s c) = Some (e, t) \<and> loop_pop s = Some (c, s\<lparr>hp := h\<rparr>) \<and>
     resume_co c (s\<lparr>hp := h\<rparr>) = Some (Some r, s') \<and> dll (hp s') (active_link (sch_epoll s)) A \<and>
     co_call_stack s' = c # co_call_stack s \<and> susp s' = (susp s)(c := Running) \<and>
     (\<exists>x. eitems s e = Some x \<and> r = (case susp s c of InRegister fd e t \<Rightarrow> if ei_is_timeout x then 1 else 0 | _ \<Rightarrow> 1))"
proof -
  from inv obtain L A' where ok: "stack_ok m s" "lists_ok L A' s" "waits L A' s" by (auto simp: sched_inv_def)
  have A': "A' = t # A" using dll_unique [OF lists_ok_active [OF ok(2)] A] .
  note ok' = ok(2,3) [unfolded A']
  from loop_drain_ok [OF ok(1) ok'] obtain s' L' c' e' where s': "loop_drain s = Some s'" "woken c' s s'"
    "lists_ok L' A s'" by blast
  from pop_ok [OF ok'] obtain h c e where h: "node_of (susp s c) = Some (e, t)" "unlinked h = (unlinked (hp s))(t := True)"
    "loop_pop s = Some (c, s\<lparr>hp := h\<rparr>)" by blast
  from waits_rec_at(1) [OF ok'(2) h(1)] obtain x where x: "eitems s e = Some x" by blast
  have "susp s c \<noteq> Fresh" "susp s c \<noteq> Finished" using h(1) by auto
  with stack_okD(5) [OF ok(1)] obtain co where co: "cos s c = Some co" by blast
  have "titems h t \<noteq> None" using h(2) by (metis fun_upd_same option.discI unlinked_def)
  then obtain h' where h': "delete_item (Some t) h = Some h'" by (auto simp: delete_item_def)
  from resume_waiting [of "s\<lparr>hp := h\<rparr>" c e t x co h'] h(1) x co stack_okD(1) [OF ok(1)] h'
  obtain s'' where s'': "resume_co c (s\<lparr>hp := h\<rparr>) =
      Some (Some (case susp s c of InRegister fd e t \<Rightarrow> if ei_is_timeout x then 1 else 0 | _ \<Rightarrow> 1), s'')"
    "co_call_stack s'' = c # co_call_stack s" "susp s'' = (susp s)(c := Running)"
    "active_link (sch_epoll s'') = active_link (sch_epoll s)"
    by (simp add: unregister_ok)
  have "s'' = s'" using s'(1) h(3) s''(1) by (simp add: loop_drain_def)
  with lists_ok_active [OF s'(3)] s''(4) have "dll (hp s'') (active_link (sch_epoll s)) A" by simp
  with h s'' x show ?thesis by blast
qed

lemma signal_inv:
  assumes inv: "sched_inv m pc s" and q: "co_deque s k = e # rest" and A: "dll (hp s) (active_link (sch_epoll s)) A"
  shows "\<exists>c t s'. co_cond_signal k s = Some (1, s') \<and> susp s c = InWait k e t \<and> t \<notin> set A \<and>
     dll (hp s') (active_link (sch_epoll s)) (A @ [t]) \<and> co_deque s' = (co_deque s)(k := rest) \<and> awake s s'"
proof -
  from inv obtain L A' where ok: "lists_ok L A' s" "waits L A' s" by (auto simp: sched_inv_def)
  have A': "A' = A" using dll_unique [OF lists_ok_active [OF ok(1)] A] .
  from wake_front_ok [OF ok q, unfolded A'] obtain s' t c L' where
    s': "wake_front k e rest s = Some s'" "susp s c = InWait k e t" "lists_ok L' (A @ [t]) s'"
      "co_deque s' = (co_deque s)(k := rest)" "awake s s'"
    by (elim exE conjE)
  have d: "dll (hp s') (active_link (sch_epoll s)) (A @ [t])" using lists_ok_active [OF s'(3)] s'(5) by (simp add: awake_def)
  then have "t \<notin> set A" by (simp add: dll_def)
  with s' q d show ?thesis
    by (intro exI [of _ c] exI [of _ t] exI [of _ s']) (simp add: co_cond_signal_front)
qed

section \<open>A run for the witnesses\<close>

text \<open>
  A thread with main coroutine 1, the lists 2 and 3 and the slots \<open>slots0\<close>: it creates the
  coroutine 9 (\<open>run1\<close>), resumes it (\<open>run2\<close>), where it waits on the condition 30 with the
  record 40 and the node 41 (\<open>run3\<close>); main signals the condition (\<open>run4\<close>).
\<close>

definition slots0 :: "addr list" where
  "slots0 = [100..<60100]"

definition run0 :: sched where
  "run0 = new_scheduler 1 2 3 slots0 5"

definition run1 :: sched where
  "run1 = spawn 9 None run0"

definition run2 :: sched where
  "run2 = run1\<lparr>cos := (cos run1)(9 \<mapsto> (new_coroutine None)\<lparr>co_start := True\<rparr>), co_call_stack := [9, 1],
     susp := (susp run1)(9 := Running)\<rparr>"

definition run3 :: sched where
  "run3 = (slept 9 (InWait 30 40 41) 40
     \<lparr>ei_fd = - 1, ei_is_timeout = False, ei_co = Some 9, ei_t_item = Some 41\<rparr>
     (new_item 41 ((new_time_item 0 None None)\<lparr>ti_item := Some 40\<rparr>) (hp run2)) run2)
     \<lparr>co_deque := (co_deque run2)(30 := [40])\<rparr>"

lemma slots0: "distinct slots0" "length slots0 = 60000" "x \<in> set slots0 \<longleftrightarrow> 100 \<le> x \<and> x < 60100"
  unfolding slots0_def by (rule distinct_upt, subst length_upt, simp, subst set_upt, simp)

lemma fresh0: "fresh_sched 1 2 3 slots0 5"
  by (simp add: fresh_sched_def slots0)

lemma new_links_items: "titems (new_links as h) = titems h"
  by (induction as arbitrary: h) (auto simp: new_link_def)

lemma run0: "co_call_stack run0 = [1]" "cos run0 = [1 \<mapsto> new_main_coroutine]" "susp run0 = (\<lambda>_. Fresh)(1 := Running)"
  "eitems run0 = Map.empty" "titems (hp run0) = Map.empty" "co_deque run0 = (\<lambda>_. [])"
  "active_link (sch_epoll run0) = 2" "w_start (sch_tw run0) = 5" "w_size (sch_tw run0) = 60000"
  "interest (sch_epoll run0) = Map.empty" "item_map (sch_epoll run0) = Map.empty"
  by (simp_all add: run0_def new_scheduler_def new_co_epoll_def new_time_wheel_def new_links_items new_link_def)

lemma reach0: "step\<^sup>*\<^sup>* (Sys Outside run0) (Sys Outside run0)" by simp

lemma reach_poll: "step\<^sup>*\<^sup>* (Sys Outside run0) (Sys AtPoll run0)"
  using step.enter [of run0] by (simp add: run0)

lemma reach1: "step\<^sup>*\<^sup>* (Sys Outside run0) (Sys Outside run1)"
  using step.new_co [of Outside run0 9 None] by (simp add: run0 run1_def user_turn_def)

lemma reach2: "step\<^sup>*\<^sup>* (Sys Outside run0) (Sys Outside run2)"
proof -
  have "resume_co 9 run1 = Some (None, run2)"
    by (simp add: resume_co_def resume_def get_curr_co_def run1_def run2_def spawn_def run0)
  then have "step (Sys Outside run1) (Sys Outside run2)"
    using step.resume_new [of Outside run1 9] by (simp add: user_turn_def run1_def spawn_def outcome_def)
  with reach1 show ?thesis by (rule rtranclp.rtrancl_into_rtrancl)
qed

lemma reach3: "step\<^sup>*\<^sup>* (Sys Outside run0) (Sys Outside run3)"
proof -
  have "wait_begin 30 40 41 run2 = Some run3"
    by (simp add: wait_begin_def get_curr_co_def run2_def run3_def Let_def mem_simps on_heap_def yield_at_def
      slept_def new_item_def run1_def spawn_def run0)
  then have "step (Sys Outside run2) (Sys Outside run3)"
    using step.wait [of run2 40 41 Outside 30]
    by (simp add: outcome_def run2_def run1_def spawn_def run0)
  with reach2 show ?thesis by (rule rtranclp.rtrancl_into_rtrancl)
qed

lemma new_links_other: "a \<notin> set as \<Longrightarrow> tlinks (new_links as h) a = tlinks h a"
  by (induction as arbitrary: h) (auto simp: new_link_def)

lemma active0: "dll (hp run0) 2 []"
  by (simp add: run0_def new_scheduler_def new_co_epoll_def new_time_wheel_def dll_def new_links_other slots0
    new_link_def new_time_link_def)

lemma active3: "dll (hp run3) 2 []"
  using active0 by (simp add: dll_def run3_def run2_def run1_def spawn_def new_item_def)

lemma run3: "co_deque run3 30 = [40]" "susp run3 9 = InWait 30 40 41" "active_link (sch_epoll run3) = 2"
  by (simp_all add: run3_def run2_def run1_def spawn_def run0)

lemma inv3: "sched_inv 1 Outside run3"
  using reachable_inv [OF fresh0 reach3 [unfolded run0_def]] by simp

text \<open>The coroutine 9 sleeps on the descriptor 7 until the time 105.\<close>

lemma sleeper_run:
  "\<exists>s. register_begin 7 ev 100 5 50 51 run2 = Some (Inr (), s) \<and> step\<^sup>*\<^sup>* (Sys Outside run0) (Sys AtPoll s) \<and>
     sched_inv 1 AtPoll s \<and> susp s 9 = InRegister 7 50 51 \<and> expire_of (hp s) 51 = Some 105 \<and>
     length (co_call_stack s) = 1 \<and> events_ok [] s \<and> time_ok 70000 s"
proof -
  have st: "co_call_stack run2 = 9 # 1 # []" by (simp add: run2_def)
  have inv: "sched_inv 1 Outside run2" using reachable_inv [OF fresh0 reach2 [unfolded run0_def]] by simp
  then obtain L A where l: "stack_ok 1 run2" "lists_ok L A run2" "waits L A run2" by (auto simp: sched_inv_def)
  have tw: "w_start (sch_tw run2) = 5" "w_size (sch_tw run2) = 60000" by (simp_all add: run2_def run1_def spawn_def run0)
  have r: "register_ok 7 100 5 50 51 run2"
    using tw by (simp add: register_ok_def timeout_ok_def run2_def run1_def spawn_def run0)
  from register_begin_ok [OF st stack_top(1) [OF l(1) st] l(2,3) r, of ev] tw obtain s where
    s: "register_begin 7 ev 100 5 50 51 run2 = Some (Inr (), s)" "asleep 9 (InRegister 7 50 51) run2 s"
      "expire_of (hp s) = (expire_of (hp run2))(51 \<mapsto> 105)" by auto
  have len: "length (co_call_stack run2) > 1" "length (co_call_stack s) = 1" using st s(2) by (simp_all add: asleep_def)
  have "step (Sys Outside run2) (Sys Outside s)"
    using step.register [OF len(1) r, of Outside ev] s(1) by (simp add: outcome_def)
  with reach2 have "step\<^sup>*\<^sup>* (Sys Outside run0) (Sys Outside s)" by (rule rtranclp.rtrancl_into_rtrancl)
  moreover have "step (Sys Outside s) (Sys AtPoll s)" by (rule step.enter) (rule len(2))
  ultimately have reach: "step\<^sup>*\<^sup>* (Sys Outside run0) (Sys AtPoll s)" by (rule rtranclp.rtrancl_into_rtrancl)
  have "sched_inv 1 AtPoll s" using reachable_inv [OF fresh0 reach [unfolded run0_def]] by simp
  moreover have "susp s 9 = InRegister 7 50 51" "time_ok 70000 s"
    using s(2) tw by (simp_all add: asleep_def time_ok_def word_le_nat_alt)
  ultimately show ?thesis using s(1,3) reach len(2) by (simp add: events_ok_def)
qed

lemma wheel_expires: "wheel_ok tw L h \<Longrightarrow> t \<in> wheel_set tw L \<Longrightarrow> \<exists>n. expire_of h t = Some n"
  by (auto simp: wheel_ok_def wheel_set_def timed_def)

lemma reachable_run:
  assumes "fresh_sched m a b slots now" and "thread_run (Sys Outside (new_scheduler m a b slots now)) tr x" and "calls_ok tr"
  shows "sys_inv m x"
  using reachable_inv [OF assms(1) thread_run_steps [OF assms(2,3)]] .

section \<open>Properties\<close>

text \<open>
  C1. Memory safety of the scheduler, for callers that keep to \<open>call_ok\<close>. A run of a thread is any
  sequence of the moves of \<open>event_loop\<close> and of calls by its coroutines, with whatever events and
  times. Let every \<open>register_event\<close> in it have no timeout, or one above the size of the wheel, or a
  positive one whose deadline is less than a turn after the last poll, and wait for a descriptor that nobody
  else waits for; and let only new or yielded coroutines be resumed by hand. Then no step of
  \<open>event_loop\<close>, \<open>register_event\<close>, \<open>co_cond_wait\<close>, \<open>co_cond_signal\<close>, \<open>co_cond_broadcast\<close>,
  \<open>resume\<close>, \<open>yield\<close> or \<open>clear_co\<close> follows a null, dangling or uninitialised pointer, frees an object
  twice or resumes a dead coroutine.
\<close>

theorem scheduler_never_faults:
  assumes "fresh_sched m a b slots now" and "thread_run (Sys Outside (new_scheduler m a b slots now)) tr x"
    and "calls_ok tr"
  shows "x \<noteq> Fault"
  using reachable_run [OF assms] by (cases x) simp_all

theorem scheduler_never_faults_witness:
  "\<exists>s tr. register_begin 7 25 100 5 50 51 run2 = Some (Inr (), s) \<and>
     thread_run (Sys Outside run0) tr (loop_collected (loop_collect [] 70000 s)) \<and> loop_collect [] 70000 s \<noteq> None"
proof -
  obtain s where s: "register_begin 7 25 100 5 50 51 run2 = Some (Inr (), s)" "step\<^sup>*\<^sup>* (Sys Outside run0) (Sys AtPoll s)"
    "length (co_call_stack s) = 1" "events_ok [] s" "time_ok 70000 s" using sleeper_run [of 25] by blast
  have "step (Sys AtPoll s) (loop_collected (loop_collect [] 70000 s))" using step.poll [OF s(3-5)] .
  with s(2) have "step\<^sup>*\<^sup>* (Sys Outside run0) (loop_collected (loop_collect [] 70000 s))" by (rule rtranclp.rtrancl_into_rtrancl)
  then obtain tr where tr: "thread_run (Sys Outside run0) tr (loop_collected (loop_collect [] 70000 s))" "calls_ok tr"
    using steps_thread_run by blast
  from scheduler_never_faults [OF fresh0 tr(1) [unfolded run0_def] tr(2)] have "loop_collect [] 70000 s \<noteq> None"
    by (cases "loop_collect [] 70000 s") (simp_all add: loop_collected_def)
  with s(1) tr(1) show ?thesis by blast
qed

text \<open>
  C3. A round of \<open>event_loop\<close> up to the resumption of coroutines, in any reachable state:
  it never takes its early exit; it appends to the active list the nodes of the reported
  events, in their order, and then the nodes whose deadline has passed and that had no
  event, by deadline; and \<open>is_timeout\<close> ends up set for exactly the latter, so that
  \<open>register_event\<close> will return 1 for a timeout and 0 for an event.
\<close>

theorem poll_round:
  assumes "fresh_sched m a b slots now0" and "step\<^sup>*\<^sup>* (Sys Outside (new_scheduler m a b slots now0)) (Sys AtPoll s)"
    and "events_ok evs s" and "time_ok now s" and "dll (hp s) (active_link (sch_epoll s)) A"
  shows "\<exists>s' ts due. loop_collect evs now s = Some (False, s') \<and> collected s s' \<and>
     dll (hp s') (active_link (sch_epoll s)) (A @ ts @ due) \<and>
     list_all2 (\<lambda>e t. \<exists>c fd. susp s c = InRegister fd e t) evs ts \<and>
     sorted (map (\<lambda>t. the (expire_of (hp s) t)) due) \<and>
     (\<forall>t \<in> set due. \<exists>c fd e. susp s c = InRegister fd e t) \<and>
     (\<forall>c fd e t. susp s c = InRegister fd e t \<longrightarrow>
        (t \<in> set due \<longleftrightarrow> t \<notin> set ts \<and> (\<exists>n. expire_of (hp s) t = Some n \<and> 0 < n \<and> n \<le> unat now)) \<and>
        (\<exists>x. eitems s' e = Some x \<and> (ei_is_timeout x \<longleftrightarrow> t \<in> set due)))"
  using poll_round_inv [OF _ assms(3-5)] reachable_inv [OF assms(1,2), unfolded sys_inv_simps] by blast

theorem poll_round_witness:
  "\<exists>s s' due. register_begin 7 25 100 5 50 51 run2 = Some (Inr (), s) \<and> loop_collect [] 70000 s = Some (False, s') \<and> 51 \<in> set due \<and>
     (\<exists>A. dll (hp s') (active_link (sch_epoll s)) (A @ due)) \<and> (\<exists>x. eitems s' 50 = Some x \<and> ei_is_timeout x)"
proof -
  obtain s where s: "register_begin 7 25 100 5 50 51 run2 = Some (Inr (), s)" "step\<^sup>*\<^sup>* (Sys Outside run0) (Sys AtPoll s)"
    "sched_inv 1 AtPoll s" "susp s 9 = InRegister 7 50 51" "expire_of (hp s) 51 = Some 105"
    "events_ok [] s" "time_ok 70000 s" using sleeper_run [of 25] by blast
  from s(3) obtain L A where "lists_ok L A s" by (auto simp: sched_inv_def)
  from poll_round [OF fresh0 s(2) [unfolded run0_def] s(6,7) lists_ok_active [OF this]] obtain s' ts due where
    s': "loop_collect [] 70000 s = Some (False, s')" "dll (hp s') (active_link (sch_epoll s)) (A @ ts @ due)"
      "list_all2 (\<lambda>e t. \<exists>c fd. susp s c = InRegister fd e t) [] ts"
      "(51 \<in> set due \<longleftrightarrow> 51 \<notin> set ts \<and> (\<exists>n. expire_of (hp s) 51 = Some n \<and> 0 < n \<and> n \<le> unat (70000 :: u64))) \<and>
        (\<exists>x. eitems s' 50 = Some x \<and> (ei_is_timeout x \<longleftrightarrow> 51 \<in> set due))" using s(4) by blast
  with s(1,5) show ?thesis by auto
qed

text \<open>
  The loop over the active list resumes coroutines in the order of the list, each
  for its own node: the head is popped, the owner of its record goes on top of the call
  stack, and its pending call returns \<open>is_timeout\<close> (\<open>register_event\<close>) or 1
  (\<open>co_cond_wait\<close>).
\<close>

lemma resumes_in_order:
  assumes "fresh_sched m a b slots now" and "step\<^sup>*\<^sup>* (Sys Outside (new_scheduler m a b slots now)) (Sys pc s)"
    and "dll (hp s) (active_link (sch_epoll s)) (t # A)"
  shows "\<exists>c e h r s'. node_of (susp s c) = Some (e, t) \<and> loop_pop s = Some (c, s\<lparr>hp := h\<rparr>) \<and>
     resume_co c (s\<lparr>hp := h\<rparr>) = Some (Some r, s') \<and> dll (hp s') (active_link (sch_epoll s)) A \<and>
     co_call_stack s' = c # co_call_stack s \<and> susp s' = (susp s)(c := Running) \<and>
     (\<exists>x. eitems s e = Some x \<and> r = (case susp s c of InRegister fd e t \<Rightarrow> if ei_is_timeout x then 1 else 0 | _ \<Rightarrow> 1))"
  using drain_round_inv [OF _ assms(3)] reachable_inv [OF assms(1,2)] by simp

text \<open>
  \<open>co_cond_signal\<close> is fair: in any reachable state with waiters, it returns 1, takes
  the record of the coroutine that has waited longest from the queue and puts its node
  behind everything that is already active; no other coroutine is touched.
\<close>

lemma signal_wakes_first:
  assumes "fresh_sched m a b slots now" and "step\<^sup>*\<^sup>* (Sys Outside (new_scheduler m a b slots now)) (Sys pc s)"
    and "co_deque s k = e # rest" and "dll (hp s) (active_link (sch_epoll s)) A"
  shows "\<exists>c t s'. co_cond_signal k s = Some (1, s') \<and> susp s c = InWait k e t \<and> t \<notin> set A \<and>
     dll (hp s') (active_link (sch_epoll s)) (A @ [t]) \<and> co_deque s' = (co_deque s)(k := rest) \<and> awake s s'"
  using signal_inv [OF _ assms(3,4)] reachable_inv [OF assms(1,2)] by simp

text \<open>
  C19. The call stack: in any reachable state it is not empty, its bottom is the main
  coroutine, no coroutine is on it twice, it holds exactly the coroutines that are
  running or have resumed another one, and all of them exist.
\<close>

theorem stack_discipline:
  assumes "fresh_sched m a b slots now" and "step\<^sup>*\<^sup>* (Sys Outside (new_scheduler m a b slots now)) (Sys pc s)"
  shows "co_call_stack s \<noteq> [] \<and> last (co_call_stack s) = m \<and> distinct (co_call_stack s) \<and>
     set (co_call_stack s) = {c. susp s c = Running} \<and> (\<forall>c \<in> set (co_call_stack s). cos s c \<noteq> None)"
proof -
  have st: "stack_ok m s" using reachable_inv [OF assms] by (simp add: sched_inv_def)
  have "cos s c \<noteq> None" if "c \<in> set (co_call_stack s)" for c
    using stack_okD(4,5) [OF st, of c] that by simp
  with stack_okD [OF st] show ?thesis by blast
qed

theorem stack_discipline_witness: "set (co_call_stack run2) = {c. susp run2 c = Running} \<and> co_call_stack run2 = [9, 1]"
  using stack_discipline [OF fresh0 reach2 [unfolded run0_def]] by (simp add: run2_def)

text \<open>
  C14. No wait is lost, for callers that keep to \<open>call_ok\<close>. A coroutine inside \<open>co_cond_wait\<close> has its record
  in the queue of the condition or its node in the active list. One inside \<open>register_event\<close> has its
  node in the active list, or in the wheel when it has a deadline, or in no list when it asked
  for no timeout; and if it waits for a descriptor, \<open>epoll\<close> has been given this descriptor with the
  record of the coroutine and \<open>item_map_\<close> leads to it.
\<close>

theorem no_wait_lost:
  assumes "fresh_sched m a b slots now" and "thread_run (Sys Outside (new_scheduler m a b slots now)) tr (Sys pc s)"
    and "calls_ok tr" and "dll (hp s) (active_link (sch_epoll s)) A"
  shows "\<exists>L. wheel_ok (sch_tw s) L (hp s) \<and>
     (\<forall>c k e t. susp s c = InWait k e t \<longrightarrow> t \<in> set A \<or> e \<in> set (co_deque s k)) \<and>
     (\<forall>c fd e t. susp s c = InRegister fd e t \<longrightarrow>
        (t \<in> set A \<or> (\<exists>n > 0. expire_of (hp s) t = Some n \<and> t \<in> wheel_set (sch_tw s) L) \<or>
          expire_of (hp s) t = Some 0 \<and> unlinked (hp s) t) \<and>
        (fd > - 1 \<longrightarrow> item_map (sch_epoll s) fd = Some e \<and> (\<exists>ev. interest (sch_epoll s) fd = Some (ev, e))))"
proof -
  from reachable_run [OF assms(1-3)] obtain L A' where ok: "lists_ok L A' s" "waits L A' s"
    by (auto simp: sched_inv_def)
  have A': "A' = A" using dll_unique [OF lists_ok_active [OF ok(1)] assms(4)] .
  note w = waitsD [OF ok(2) [unfolded waits_def A']]
  have "\<forall>c k e t. susp s c = InWait k e t \<longrightarrow> t \<in> set A \<or> e \<in> set (co_deque s k)"
    using w(3) unfolding cond_ok_def by metis
  moreover have "(t \<in> set A \<or> (\<exists>n > 0. expire_of (hp s) t = Some n \<and> t \<in> wheel_set (sch_tw s) L) \<or>
          expire_of (hp s) t = Some 0 \<and> unlinked (hp s) t) \<and>
        (fd > - 1 \<longrightarrow> item_map (sch_epoll s) fd = Some e \<and> (\<exists>ev. interest (sch_epoll s) fd = Some (ev, e)))"
    if "susp s c = InRegister fd e t" for c fd e t
  proof -
    have reg: "t \<in> wheel_set (sch_tw s) L \<and> expire_of (hp s) t \<noteq> Some 0 \<or> unlinked (hp s) t \<and> expire_of (hp s) t = Some 0 \<or> t \<in> set A"
      "fd > - 1 \<longrightarrow> item_map (sch_epoll s) fd = Some e" using w(2) that unfolding reg_ok_def by blast+
    have "\<exists>n > 0. expire_of (hp s) t = Some n" if "t \<in> wheel_set (sch_tw s) L" "expire_of (hp s) t \<noteq> Some 0"
      using wheel_expires [OF lists_okD(1) [OF ok(1)] that(1)] that(2) by auto
    with reg lists_okD(7) [OF ok(1)] show ?thesis unfolding epoll_ok_def by blast
  qed
  ultimately show ?thesis using lists_okD(1) [OF ok(1)] by blast
qed

theorem no_wait_lost_witness:
  "\<exists>s A L. register_begin 7 25 100 5 50 51 run2 = Some (Inr (), s) \<and> dll (hp s) (active_link (sch_epoll s)) A \<and> (51 \<in> set A \<or> 51 \<in> wheel_set (sch_tw s) L) \<and>
     (\<exists>ev. interest (sch_epoll s) 7 = Some (ev, 50))"
proof -
  obtain s where s: "register_begin 7 25 100 5 50 51 run2 = Some (Inr (), s)" "step\<^sup>*\<^sup>* (Sys Outside run0) (Sys AtPoll s)"
    "sched_inv 1 AtPoll s" "susp s 9 = InRegister 7 50 51" "expire_of (hp s) 51 = Some 105" using sleeper_run [of 25] by blast
  from s(3) obtain L A where "lists_ok L A s" by (auto simp: sched_inv_def)
  note A = lists_ok_active [OF this]
  from steps_thread_run [OF s(2)] obtain tr where tr: "thread_run (Sys Outside run0) tr (Sys AtPoll s)" "calls_ok tr" by blast
  from no_wait_lost [OF fresh0 tr(1) [unfolded run0_def] tr(2) A] s(4) obtain L' where
    "(51 \<in> set A \<or> (\<exists>n > 0. expire_of (hp s) 51 = Some n \<and> 51 \<in> wheel_set (sch_tw s) L') \<or> expire_of (hp s) 51 = Some 0 \<and> unlinked (hp s) 51) \<and>
      ((7 :: int) > - 1 \<longrightarrow> item_map (sch_epoll s) 7 = Some 50 \<and> (\<exists>ev. interest (sch_epoll s) 7 = Some (ev, 50)))" by blast
  with s(1,5) A show ?thesis by auto
qed

text \<open>
  C20. \<open>co_cond_broadcast\<close> wakes everybody, for callers that keep to \<open>call_ok\<close>: it returns 1 and puts
  the nodes of all coroutines that wait on the condition, in the order in which they came,
  behind the nodes that are already active, correctly linked; the queue of the condition is
  empty and nothing else changes. This is exactly what \<open>co_cond_signal\<close> does when it is called once
  per waiting coroutine, and one signal more reports that nobody waits.
\<close>

theorem broadcast_wakes_all:
  assumes "fresh_sched m a b slots now" and "thread_run (Sys Outside (new_scheduler m a b slots now)) tr (Sys pc s)"
    and "calls_ok tr" and "dll (hp s) (active_link (sch_epoll s)) A"
  shows "\<exists>s' ts. co_cond_broadcast k s = Some (1, s') \<and>
     list_all2 (\<lambda>e t. \<exists>c. susp s c = InWait k e t) (co_deque s k) ts \<and>
     dll (hp s') (active_link (sch_epoll s)) (A @ ts) \<and> co_deque s' = (co_deque s)(k := []) \<and> awake s s' \<and>
     signals k (length (co_deque s k)) s = Some s' \<and> co_cond_signal k s' = Some (- 1, s')"
proof -
  from reachable_run [OF assms(1-3)] obtain L A' where ok: "lists_ok L A' s" "waits L A' s"
    by (auto simp: sched_inv_def)
  have A': "A' = A" using dll_unique [OF lists_ok_active [OF ok(1)] assms(4)] .
  from broadcast_loop_ok [OF ok refl, of k] obtain s' ts L' where
    s': "broadcast_loop k (co_deque s k) s = Some s'" "list_all2 (\<lambda>e t. \<exists>c. susp s c = InWait k e t) (co_deque s k) ts"
      "lists_ok L' (A @ ts) s'" "co_deque s' = (co_deque s)(k := [])" "awake s s'" unfolding A' by blast
  have "dll (hp s') (active_link (sch_epoll s)) (A @ ts)" using lists_ok_active [OF s'(3)] s'(5) by (simp add: awake_def)
  moreover have "signals k (length (co_deque s k)) s = Some s'" using broadcast_loop_signals [OF refl] s'(1) by metis
  ultimately show ?thesis
    using s' by (intro exI [of _ s'] exI [of _ ts]) (simp add: co_cond_broadcast_def co_cond_signal_front)
qed

theorem broadcast_wakes_all_witness:
  "\<exists>s' t. co_cond_broadcast 30 run3 = Some (1, s') \<and> dll (hp s') 2 [t] \<and> co_deque s' 30 = []"
proof -
  from steps_thread_run [OF reach3] obtain tr where tr: "thread_run (Sys Outside run0) tr (Sys Outside run3)" "calls_ok tr" by blast
  have A: "dll (hp run3) (active_link (sch_epoll run3)) []" using active3 by (simp add: run3)
  from broadcast_wakes_all [OF fresh0 tr(1) [unfolded run0_def] tr(2) A, of 30] run3 show ?thesis
    by (auto simp: list_all2_Cons1)
qed



lemma late_deadline_faults:
  assumes "co_call_stack s = c # c' # rest" and "isms (sch_tw s)" and "0 < timeout" and "timeout \<le> w_size (sch_tw s)"
    and "unat now + nat timeout < 2 ^ 64" and "w_size (sch_tw s) \<le> INT_MAX" and "w_start (sch_tw s) \<le> now"
    and "unat now + nat timeout > unat (w_start (sch_tw s)) + nat (w_size (sch_tw s))"
  shows "\<exists>s'. register_begin fd events timeout now ae at s = Some (Inr (), s') \<and>
     susp s' c = InRegister fd ae at \<and> unlinked (hp s') at \<and> handle_event ae s' = None \<and>
     co_call_stack s' = c' # rest \<and> sch_tw s' = sch_tw s \<and>
     (fd > - 1 \<longrightarrow> sch_epoll s' = snd (epoll_add fd events ae (sch_epoll s)))"
proof -
  define T where "T = (new_time_item (if timeout = - 1 then 0 else now + u64_of_int timeout) None None)\<lparr>ti_item := Some ae\<rparr>"
  let ?h = "new_item at T (hp s)"
  have T: "ExpireTime T = now + u64_of_int timeout" "ti_link T = None"
    using assms(3) by (simp_all add: T_def new_time_item_def)
  have "unat (u64_of_int timeout) = nat timeout" using assms(3,5) by (intro unat_u64_of_int) auto
  then have ex: "unat (ExpireTime T) = unat now + nat timeout" using assms(5) T(1) unat_add_u64 by simp
  then have "unat (ExpireTime T - w_start (sch_tw s)) = unat now + nat timeout - unat (w_start (sch_tw s))"
    using assms(7) by (subst unat_sub_u64) (simp_all add: word_le_nat_alt)
  moreover have "unat (u64_of_int (w_size (sch_tw s))) = nat (w_size (sch_tw s))"
    using assms(3,4,6) by (intro unat_u64_of_int) (auto simp: INT_MAX_def)
  ultimately have "ExpireTime T - w_start (sch_tw s) > u64_of_int (w_size (sch_tw s))"
    using assms(8) by (simp add: word_less_nat_alt)
  then have add: "add_timeout (Some at) (sch_tw s) ?h = Some (Some (- 1), ?h)"
    using assms(2) by (simp add: add_timeout_def rd_item_def new_item_def)
  let ?s = "(slept c (InRegister fd ae at) ae
      \<lparr>ei_fd = fd, ei_is_timeout = False, ei_co = Some c, ei_t_item = Some at\<rparr> ?h s)
      \<lparr>sch_epoll := if fd > - 1 then snd (epoll_add fd events ae (sch_epoll s)) else sch_epoll s\<rparr>"
  have run: "register_begin fd events timeout now ae at s = Some (Inr (), ?s)"
    using register_run [OF assms(1,4) T_def, of ?h at "Some (- 1)" fd events] add assms(3) by simp
  have "ExpireTime T > 0" using ex assms(3) by (simp add: word_less_nat_alt)
  moreover have "unlinked (hp ?s) at" using T(2) by (simp add: unlinked_def new_item_def)
  ultimately have "handle_event ae ?s = None"
    using T(2) by (simp add: handle_event_def on_heap_def mem_simps slept_def new_item_def removeitem_def)
  with run \<open>unlinked (hp ?s) at\<close> assms(1) show ?thesis by (intro exI [of _ ?s]) (simp add: slept_def)
qed

text \<open>
  C38. Outside the guards: \<open>register_event\<close> compares the timeout with the size of the
  wheel, but \<open>add_timeout\<close> counts from the last poll. A deadline that lies within the
  size but more than a turn after the last poll is refused by \<open>add_timeout\<close>; the result
  is ignored, the coroutine sleeps without a timer, and the first event on its
  descriptor makes \<open>removeitem\<close> dereference the null \<open>t_link\<close>.
\<close>

theorem register_late_deadline_faults:
  assumes "co_call_stack s = c # c' # rest" and "isms (sch_tw s)" and "0 < timeout" and "timeout \<le> w_size (sch_tw s)"
    and "unat now + nat timeout < 2 ^ 64" and "w_size (sch_tw s) \<le> INT_MAX" and "w_start (sch_tw s) \<le> now"
    and "unat now + nat timeout > unat (w_start (sch_tw s)) + nat (w_size (sch_tw s))"
  shows "\<exists>s'. register_begin fd events timeout now ae at s = Some (Inr (), s') \<and>
     susp s' c = InRegister fd ae at \<and> unlinked (hp s') at \<and> handle_event ae s' = None"
  using late_deadline_faults [OF assms, of fd events ae at] by blast

theorem register_late_deadline_faults_witness:
  "\<exists>s'. register_begin 7 1 60000 6 50 51 run2 = Some (Inr (), s') \<and> handle_event 50 s' = None"
proof -
  have st: "co_call_stack run2 = 9 # 1 # []" by (simp add: run2_def)
  have tw: "isms (sch_tw run2)" "w_size (sch_tw run2) = 60000" "w_start (sch_tw run2) = 5"
    by (simp_all add: run2_def run1_def spawn_def run0_def new_scheduler_def new_co_epoll_def new_time_wheel_def)
  show ?thesis
    using register_late_deadline_faults [OF st tw(1), of 60000 6 7 1 50 51] tw(2,3)
    by (auto simp: INT_MAX_def word_le_nat_alt)
qed




end
