(* ===== verification/Sched_Spec.thy ===== *)
theory Sched_Spec
  imports Sched_Props
begin

text \<open>
  What a thread of coroutines promises, without pointers: the state of each coroutine, the
  call stack, the queue of ready coroutines with the result that each of them will get, and
  the queues of the conditions. \<open>astep\<close> says how it may move, and the machine of
  \<open>Sched_Machine\<close>, with its heap, wheel and lists, is shown to refine it.
\<close>

section \<open>The specification\<close>

text \<open>
  A coroutine is new, running, asleep on a descriptor (below 0: on none) with or without a
  deadline, waiting for a condition, suspended by \<open>yield\<close>, or done.
\<close>

datatype ast = ANew | ARunning | ASleep int "nat option" | AWait addr | AYielded | ADone

text \<open>
  \<open>a_log\<close> is the history of the coroutines that the event loop has resumed, with what their
  pending calls returned.
\<close>

record aspec =
  a_co :: "addr \<Rightarrow> ast"
  a_stack :: "addr list"
  a_ready :: "(addr \<times> int) list"
  a_log :: "(addr \<times> int) list"
  a_queue :: "addr \<Rightarrow> addr list"
  a_clock :: nat
  a_turn :: int
  a_live :: "addr set"
  a_dead :: "addr list"

definition deadline :: "aspec \<Rightarrow> addr \<Rightarrow> nat" where
  "deadline a c = (case a_co a c of ASleep fd (Some n) \<Rightarrow> n | _ \<Rightarrow> 0)"

definition expired :: "nat \<Rightarrow> aspec \<Rightarrow> addr \<Rightarrow> bool" where
  "expired now a c \<longleftrightarrow> (\<exists>fd n. a_co a c = ASleep fd (Some n) \<and> n \<le> now)"

definition a_resume :: "addr \<Rightarrow> aspec \<Rightarrow> aspec" where
  "a_resume c a = a\<lparr>a_stack := c # a_stack a, a_co := (a_co a)(c := ARunning)\<rparr>"

definition a_suspend :: "ast \<Rightarrow> aspec \<Rightarrow> aspec" where
  "a_suspend k a = a\<lparr>a_stack := List.tl (a_stack a), a_co := (a_co a)(hd (a_stack a) := k)\<rparr>"

definition a_wake :: "addr \<Rightarrow> nat \<Rightarrow> aspec \<Rightarrow> aspec" where
  "a_wake k n a = a\<lparr>a_queue := (a_queue a)(k := drop n (a_queue a k)),
     a_ready := a_ready a @ map (\<lambda>c. (c, 1)) (take n (a_queue a k))\<rparr>"

definition a_user :: "mpc \<Rightarrow> aspec \<Rightarrow> bool" where
  "a_user pc a \<longleftrightarrow> length (a_stack a) > 1 \<or> pc = Outside \<or> pc = InFunc"

text \<open>
  The steps. A poll at the time \<open>now\<close> makes ready the coroutines \<open>cs\<close> whose descriptors have
  events, then all others whose deadline has passed, by deadline; the loop resumes them from
  the front; signals add to the back.
\<close>

inductive astep :: "mpc \<times> aspec \<Rightarrow> mpc \<times> aspec \<Rightarrow> bool" where
  enter: "length (a_stack a) = 1 \<Longrightarrow> astep (Outside, a) (AtPoll, a)"
| poll: "length (a_stack a) = 1 \<Longrightarrow> a_clock a \<le> now \<Longrightarrow> distinct (cs @ ds) \<Longrightarrow>
     \<forall>c \<in> set cs. \<exists>fd d. a_co a c = ASleep fd d \<and> fd > - 1 \<Longrightarrow>
     \<forall>c. c \<in> set ds \<longleftrightarrow> c \<notin> set cs \<and> expired now a c \<Longrightarrow> sorted (map (deadline a) ds) \<Longrightarrow>
     astep (AtPoll, a) (AtDrain, a\<lparr>a_clock := now,
       a_ready := a_ready a @ map (\<lambda>c. (c, 0)) cs @ map (\<lambda>c. (c, 1)) ds\<rparr>)"
| drain: "length (a_stack a) = 1 \<Longrightarrow> a_ready a = (c, r) # rest \<Longrightarrow>
     astep (AtDrain, a) (AtDrain, a_resume c (a\<lparr>a_ready := rest, a_log := a_log a @ [(c, r)]\<rparr>))"
| drained: "length (a_stack a) = 1 \<Longrightarrow> a_ready a = [] \<Longrightarrow> astep (AtDrain, a) (InFunc, a)"
| func_break: "length (a_stack a) = 1 \<Longrightarrow> astep (InFunc, a) (Outside, a)"
| func_clear: "length (a_stack a) = 1 \<Longrightarrow>
     astep (InFunc, a) (AtPoll, a\<lparr>a_live := a_live a - set (a_dead a), a_dead := []\<rparr>)"
| new_co: "a_user pc a \<Longrightarrow> c \<notin> a_live a \<Longrightarrow>
     astep (pc, a) (pc, a\<lparr>a_live := insert c (a_live a), a_co := (a_co a)(c := ANew)\<rparr>)"
| resume_new: "a_user pc a \<Longrightarrow> c \<in> a_live a \<Longrightarrow> a_co a c = ANew \<or> a_co a c = AYielded \<Longrightarrow>
     astep (pc, a) (pc, a_resume c a)"
| yield: "length (a_stack a) > 1 \<Longrightarrow> astep (pc, a) (pc, a_suspend AYielded a)"
| finish: "length (a_stack a) > 1 \<Longrightarrow>
     astep (pc, a) (pc, a_suspend ADone (a\<lparr>a_dead := a_dead a @ [hd (a_stack a)]\<rparr>))"
| sleep: "length (a_stack a) > 1 \<Longrightarrow> \<forall>c d. fd > - 1 \<longrightarrow> a_co a c \<noteq> ASleep fd d \<Longrightarrow>
     \<forall>n. d = Some n \<longrightarrow> a_clock a < n \<and> n < a_clock a + nat (a_turn a) \<Longrightarrow>
     astep (pc, a) (pc, a_suspend (ASleep fd d) a)"
| wait: "length (a_stack a) > 1 \<Longrightarrow>
     astep (pc, a) (pc, a_suspend (AWait k) (a\<lparr>a_queue := (a_queue a)(k := a_queue a k @ [hd (a_stack a)])\<rparr>))"
| signal: "a_user pc a \<Longrightarrow> astep (pc, a) (pc, a_wake k 1 a)"
| broadcast: "a_user pc a \<Longrightarrow> astep (pc, a) (pc, a_wake k (length (a_queue a k)) a)"
| skip: "a_user pc a \<Longrightarrow> astep (pc, a) (pc, a)"

definition aspec0 :: "addr \<Rightarrow> nat \<Rightarrow> aspec" where
  "aspec0 m now = \<lparr>a_co = (\<lambda>_. ANew)(m := ARunning), a_stack = [m], a_ready = [], a_log = [], a_queue = (\<lambda>_. []),
     a_clock = now, a_turn = 60000, a_live = {m}, a_dead = []\<rparr>"

section \<open>The relation\<close>

fun akont :: "(addr \<Rightarrow> nat option) \<Rightarrow> kont \<Rightarrow> ast" where
  "akont ex Fresh = ANew"
| "akont ex Running = ARunning"
| "akont ex (InRegister fd e t) = ASleep fd (if ex t = Some 0 then None else ex t)"
| "akont ex (InWait k e t) = AWait k"
| "akont ex InYield = AYielded"
| "akont ex Finished = ADone"

text \<open>What the pending call of a coroutine will return.\<close>

definition result :: "(addr \<Rightarrow> co_epoll_item option) \<Rightarrow> kont \<Rightarrow> int" where
  "result ei k = (case k of InRegister fd e t \<Rightarrow> (case ei e of Some x \<Rightarrow> if ei_is_timeout x then 1 else 0 | None \<Rightarrow> 0) | _ \<Rightarrow> 1)"

definition ready_rel ::
    "(addr \<Rightarrow> kont) \<Rightarrow> (addr \<Rightarrow> co_epoll_item option) \<Rightarrow> addr list \<Rightarrow> (addr \<times> int) list \<Rightarrow> bool" where
  "ready_rel su ei A rs \<longleftrightarrow>
     list_all2 (\<lambda>t (c, r). (\<exists>e. node_of (su c) = Some (e, t)) \<and> r = result ei (su c)) A rs"

definition queue_rel :: "(addr \<Rightarrow> kont) \<Rightarrow> (addr \<Rightarrow> addr list) \<Rightarrow> (addr \<Rightarrow> addr list) \<Rightarrow> bool" where
  "queue_rel su dq q \<longleftrightarrow> (\<forall>k. list_all2 (\<lambda>e c. \<exists>t. su c = InWait k e t) (dq k) (q k))"

definition matches :: "addr list \<Rightarrow> sched \<Rightarrow> aspec \<Rightarrow> bool" where
  "matches A s a \<longleftrightarrow> a_co a = (\<lambda>c. akont (expire_of (hp s)) (susp s c)) \<and> a_stack a = co_call_stack s \<and>
     a_clock a = unat (w_start (sch_tw s)) \<and> a_turn a = w_size (sch_tw s) \<and> a_live a = dom (cos s) \<and>
     a_dead a = destroy_co s \<and> ready_rel (susp s) (eitems s) A (a_ready a) \<and>
     queue_rel (susp s) (co_deque s) (a_queue a)"

definition abs_rel :: "sys \<Rightarrow> mpc \<times> aspec \<Rightarrow> bool" where
  "abs_rel x y \<longleftrightarrow> (\<exists>s A. x = Sys (fst y) s \<and> dll (hp s) (active_link (sch_epoll s)) A \<and> matches A s (snd y))"

section \<open>Lemmas\<close>

lemma list_all2_join:
  assumes "list_all2 P es ts" and "list_all2 Q es cs" and "\<And>e t c. P e t \<Longrightarrow> Q e c \<Longrightarrow> R t c"
  shows "list_all2 R ts cs"
  using assms by (auto simp: list_all2_conv_all_nth)

lemma list_all2_setD:
  assumes "list_all2 P xs ys"
  shows "y \<in> set ys \<Longrightarrow> \<exists>x \<in> set xs. P x y" "x \<in> set xs \<Longrightarrow> \<exists>y \<in> set ys. P x y"
  using assms by (induction rule: list_all2_induct) auto

lemma queue_rel_upd:
  assumes "queue_rel su dq q" and "node_of (su c) = None"
  shows "queue_rel (su(c := k)) dq q"
proof -
  have "\<exists>t. (su(c := k)) d = InWait j e t" if "\<exists>t. su d = InWait j e t" for d j e
    using that assms(2) by auto
  note step = this
  show ?thesis
    unfolding queue_rel_def
  proof
    show "list_all2 (\<lambda>e d. \<exists>t. (su(c := k)) d = InWait j e t) (dq j) (q j)" for j
      using assms(1) [unfolded queue_rel_def] step by (elim allE [of _ j] list_all2_mono)
  qed
qed

lemma ready_rel_upd:
  assumes "ready_rel su ei A rs" and "node_of (su c) = None"
    and "\<And>c e t. node_of (su c) = Some (e, t) \<Longrightarrow> ei' e = ei e"
  shows "ready_rel (su(c := k)) ei' A rs"
  using assms(1) unfolding ready_rel_def
proof (rule list_all2_mono)
  fix t and y :: "addr \<times> int"
  assume "case y of (c, r) \<Rightarrow> (\<exists>e. node_of (su c) = Some (e, t)) \<and> r = result ei (su c)"
  moreover obtain d r where y: "y = (d, r)" by (cases y)
  ultimately obtain e where e: "node_of (su d) = Some (e, t)" "r = result ei (su d)" by auto
  with assms(2) have "d \<noteq> c" by auto
  moreover have "result ei' (su d) = result ei (su d)"
    using e(1) assms(3) [OF e(1)] by (cases "su d") (auto simp: result_def)
  ultimately show "case y of (d, r) \<Rightarrow> (\<exists>e. node_of ((su(c := k)) d) = Some (e, t)) \<and> r = result ei' ((su(c := k)) d)"
    using e y by auto
qed

lemma akont_upd:
  assumes "\<And>c fd e t. su c = InRegister fd e t \<Longrightarrow> ex' t = ex t"
  shows "(\<lambda>d. akont ex' ((su(c := k)) d)) = (\<lambda>d. akont ex (su d))(c := akont ex' k)"
proof
  fix d
  have "akont ex' (su d) = akont ex (su d)" using assms [of d] by (cases "su d") auto
  then show "akont ex' ((su(c := k)) d) = ((\<lambda>d. akont ex (su d))(c := akont ex' k)) d" by simp
qed

text \<open>A coroutine that is in no list changes its state, and nothing else happens to the lists.\<close>

lemma matches_susp:
  assumes m: "matches A s a" and c: "node_of (susp s c) = None" and su: "susp s' = (susp s)(c := k)"
    and ei: "\<And>c e t. node_of (susp s c) = Some (e, t) \<Longrightarrow> eitems s' e = eitems s e"
    and ex: "\<And>c fd e t. susp s c = InRegister fd e t \<Longrightarrow> expire_of (hp s') t = expire_of (hp s) t"
    and eq: "co_deque s' = co_deque s" "sch_tw s' = sch_tw s"
  shows "matches A s' (a\<lparr>a_co := (a_co a)(c := akont (expire_of (hp s')) k), a_stack := co_call_stack s',
     a_live := dom (cos s'), a_dead := destroy_co s'\<rparr>)"
  using m akont_upd [of "susp s" "expire_of (hp s')" "expire_of (hp s)" c k, OF ex]
    ready_rel_upd [of "susp s" "eitems s" A "a_ready a" c "eitems s'" k, OF _ c ei]
    queue_rel_upd [of "susp s" "co_deque s" "a_queue a" c k, OF _ c]
  unfolding matches_def su eq by simp

lemma matches_asleep:
  assumes m: "matches A s a" and w: "waits L A s" and st: "co_call_stack s = c # st" and run: "susp s c = Running"
    and sl: "asleep c k s s'" and q: "co_deque s' = co_deque s"
    and ex: "\<And>c fd e t. susp s c = InRegister fd e t \<Longrightarrow> expire_of (hp s') t = expire_of (hp s) t"
  shows "matches A s' (a_suspend (akont (expire_of (hp s')) k) a)"
proof -
  have s': "susp s' = (susp s)(c := k)" "sch_tw s' = sch_tw s" using sl by (simp_all add: asleep_def)
  have "eitems s' e = eitems s e" if "node_of (susp s c) = Some (e, t)" for c e t
  proof -
    from waits_rec_at(1) [OF w that] have "e \<in> dom (eitems s)" by auto
    moreover have "eitems s \<subseteq>\<^sub>m eitems s'" using sl by (simp add: asleep_def)
    ultimately show ?thesis unfolding map_le_def by simp
  qed
  then have "matches A s' (a\<lparr>a_co := (a_co a)(c := akont (expire_of (hp s')) k), a_stack := co_call_stack s',
     a_live := dom (cos s'), a_dead := destroy_co s'\<rparr>)"
    by (intro matches_susp [OF m _ s'(1) _ ex q s'(2)]) (simp_all add: run)
  moreover have "a\<lparr>a_co := (a_co a)(c := akont (expire_of (hp s')) k), a_stack := co_call_stack s',
     a_live := dom (cos s'), a_dead := destroy_co s'\<rparr> = a_suspend (akont (expire_of (hp s')) k) a"
    using m sl st by (simp add: a_suspend_def matches_def asleep_def)
  ultimately show ?thesis by simp
qed

text \<open>Waking the coroutines of a queue.\<close>

lemma matches_wake:
  assumes m: "matches A s a" and w: "waits L A s" and aw: "awake s s'"
    and q: "co_deque s k = es @ rest" "co_deque s' = (co_deque s)(k := rest)"
    and ts: "list_all2 (\<lambda>e t. \<exists>c. susp s c = InWait k e t) es ts"
  shows "matches (A @ ts) s' (a_wake k (length es) a)"
proof -
  let ?P = "\<lambda>e c. \<exists>t. susp s c = InWait k e t"
  have qr: "queue_rel (susp s) (co_deque s) (a_queue a)" using m by (simp add: matches_def)
  then have "list_all2 ?P (es @ rest) (a_queue a k)" by (simp add: queue_rel_def q(1) [symmetric])
  then have es: "list_all2 ?P es (take (length es) (a_queue a k))"
    and rest: "list_all2 ?P rest (drop (length es) (a_queue a k))"
    by (auto simp: list_all2_append1)
  have "list_all2 (\<lambda>t c. \<exists>e. susp s c = InWait k e t) ts (take (length es) (a_queue a k))"
  proof (rule list_all2_join [OF ts es])
    fix e t c assume "\<exists>c. susp s c = InWait k e t" "\<exists>t. susp s c = InWait k e t"
    then obtain c' t' where c: "susp s c' = InWait k e t" "susp s c = InWait k e t'" by blast
    with recs_inj(1) [OF waitsD(1) [OF w [unfolded waits_def]], of c' e t c e t'] show "\<exists>e. susp s c = InWait k e t"
      by auto
  qed
  then have "ready_rel (susp s) (eitems s) ts (map (\<lambda>c. (c, 1)) (take (length es) (a_queue a k)))"
    unfolding ready_rel_def by (auto simp: list_all2_conv_all_nth result_def)
  then have "ready_rel (susp s) (eitems s) (A @ ts) (a_ready (a_wake k (length es) a))"
    using m unfolding ready_rel_def matches_def a_wake_def by (simp add: list_all2_appendI)
  moreover have "queue_rel (susp s) (co_deque s') (a_queue (a_wake k (length es) a))"
    using qr rest by (simp add: queue_rel_def q(2) a_wake_def)
  ultimately show ?thesis
    using m aw by (simp add: matches_def awake_def a_wake_def)
qed

section \<open>The simulation\<close>

lemma abs_relI:
  assumes "lists_ok L A s" and "matches A s a"
  shows "abs_rel (Sys pc s) (pc, a)"
  using assms lists_ok_active by (auto simp: abs_rel_def)

text \<open>
  A related pair, taken apart. The active list of the relation is the one of the invariant.
\<close>

lemma abs_relE:
  assumes "abs_rel (Sys pc s) y" and "sched_inv m pc s"
  obtains a L A where "y = (pc, a)" "matches A s a" "stack_ok m s" "lists_ok L A s" "waits L A s" "flags A s"
    "pc \<noteq> AtDrain \<Longrightarrow> quiet A s"
proof -
  from assms(2) obtain L A where ok: "stack_ok m s" "lists_ok L A s" "waits L A s" "flags A s" "pc \<noteq> AtDrain \<Longrightarrow> quiet A s"
    by (auto simp: sched_inv_def)
  from assms(1) obtain A' where A': "dll (hp s) (active_link (sch_epoll s)) A'" "matches A' s (snd y)" "fst y = pc"
    by (auto simp: abs_rel_def)
  have "A' = A" using dll_unique [OF A'(1) lists_ok_active [OF ok(2)]] .
  with A'(2,3) ok that [of "snd y" A L] show thesis by auto
qed

lemma sim_register:
  assumes rel: "abs_rel (Sys pc s) y" and inv: "sched_inv m pc s" and len: "length (co_call_stack s) > 1"
    and r: "register_ok fd timeout now ae at s"
  shows "\<exists>q s' b. register_begin fd events timeout now ae at s = Some (q, s') \<and> astep y b \<and> abs_rel (Sys pc s') b"
proof -
  from rel inv obtain a L A where y: "y = (pc, a)" and m: "matches A s a"
    and ok: "stack_ok m s" "lists_ok L A s" "waits L A s" by (rule abs_relE)
  from len obtain c c' rest where st: "co_call_stack s = c # c' # rest" by (rule stack_two)
  note run = stack_top(1) [OF ok(1) st]
  define n where "n = (if timeout = - 1 then 0 else unat now + nat timeout)"
  from register_begin_ok [OF st run ok(2,3) r, of events] obtain q s' L' where
    s': "register_begin fd events timeout now ae at s = Some (q, s')" "lists_ok L' A s'"
      "s' = s \<or> asleep c (InRegister fd ae at) s s' \<and> co_deque s' = co_deque s \<and> timeout \<le> w_size (sch_tw s) \<and>
       expire_of (hp s') = (expire_of (hp s))(at \<mapsto> n)" unfolding n_def by blast
  have len': "length (a_stack a) > 1" using m len by (simp add: matches_def)
  from s'(3) have "\<exists>b. astep (pc, a) (pc, b) \<and> matches A s' b"
  proof (elim disjE conjE)
    assume "s' = s"
    moreover have "astep (pc, a) (pc, a)" using len' by (intro astep.skip) (simp add: a_user_def)
    ultimately show ?thesis using m by blast
  next
    assume sl: "asleep c (InRegister fd ae at) s s'" "co_deque s' = co_deque s" "timeout \<le> w_size (sch_tw s)"
      and ex: "expire_of (hp s') = (expire_of (hp s))(at \<mapsto> n)"
    have at: "t \<noteq> at" if "susp s d = InRegister f e t" for d f e t
      using waits_rec_at(2) [OF ok(3), of d e t] that r by (auto simp: register_ok_def)
    have "matches A s' (a_suspend (akont (expire_of (hp s')) (InRegister fd ae at)) a)"
      using at ex by (intro matches_asleep [OF m ok(3) st run sl(1,2)]) auto
    moreover have "astep (pc, a) (pc, a_suspend (ASleep fd (if n = 0 then None else Some n)) a)"
    proof (rule astep.sleep [OF len'])
      show "\<forall>c d. fd > - 1 \<longrightarrow> a_co a c \<noteq> ASleep fd d"
      proof (intro allI impI notI)
        fix d x assume "fd > - 1" "a_co a d = ASleep fd x"
        then obtain e t where "susp s d = InRegister fd e t"
          using m by (cases "susp s d") (auto simp: matches_def)
        with waitsD(2) [OF ok(3) [unfolded waits_def]] \<open>fd > - 1\<close> have "item_map (sch_epoll s) fd = Some e"
          unfolding reg_ok_def by blast
        with r \<open>fd > - 1\<close> show False by (simp add: register_ok_def)
      qed
      show "\<forall>k. (if n = 0 then None else Some n) = Some k \<longrightarrow> a_clock a < k \<and> k < a_clock a + nat (a_turn a)"
        using r sl(3) m by (auto simp: n_def register_ok_def timeout_ok_def matches_def word_le_nat_alt)
    qed
    moreover have "akont (expire_of (hp s')) (InRegister fd ae at) = ASleep fd (if n = 0 then None else Some n)"
      by (simp add: ex)
    ultimately show ?thesis by metis
  qed
  with s'(1,2) y show ?thesis using abs_relI by blast
qed

lemma sim_wait:
  assumes rel: "abs_rel (Sys pc s) y" and inv: "sched_inv m pc s" and len: "length (co_call_stack s) > 1"
    and new: "eitems s ae = None" "titems (hp s) at = None"
  shows "\<exists>s' b. wait_begin k ae at s = Some s' \<and> astep y b \<and> abs_rel (Sys pc s') b"
proof -
  from rel inv obtain a L A where y: "y = (pc, a)" and m: "matches A s a"
    and ok: "stack_ok m s" "lists_ok L A s" "waits L A s" by (rule abs_relE)
  from len obtain c c' rest where st: "co_call_stack s = c # c' # rest" by (rule stack_two)
  note run = stack_top(1) [OF ok(1) st]
  from wait_begin_ok [OF st run ok(2,3) new] obtain s' where
    s': "wait_begin k ae at s = Some s'" "lists_ok L A s'" "asleep c (InWait k ae at) s s'"
      "co_deque s' = (co_deque s)(k := co_deque s k @ [ae])" "expire_of (hp s') = (expire_of (hp s))(at \<mapsto> 0)" by blast
  have at: "t \<noteq> at" if "susp s d = InRegister f e t" for d f e t
    using waits_rec_at(2) [OF ok(3), of d e t] that new(2) by auto
  let ?s = "s'\<lparr>co_deque := co_deque s\<rparr>" and ?b = "a_suspend (AWait k) a"
  have "asleep c (InWait k ae at) s ?s" using s'(3) by (simp add: asleep_def)
  then have "matches A ?s (a_suspend (akont (expire_of (hp ?s)) (InWait k ae at)) a)"
    using at s'(5) by (intro matches_asleep [OF m ok(3) st run]) auto
  then have b: "matches A ?s ?b" by simp
  have "susp s' c = InWait k ae at" using s'(3) by (simp add: asleep_def)
  with b have "queue_rel (susp s') (co_deque s') ((a_queue a)(k := a_queue a k @ [c]))"
    unfolding s'(4) by (auto simp: queue_rel_def matches_def a_suspend_def intro: list_all2_appendI)
  with b have "matches A s' (?b\<lparr>a_queue := (a_queue a)(k := a_queue a k @ [c])\<rparr>)"
    by (simp add: matches_def)
  moreover have "a_suspend (AWait k) (a\<lparr>a_queue := (a_queue a)(k := a_queue a k @ [hd (a_stack a)])\<rparr>) =
      ?b\<lparr>a_queue := (a_queue a)(k := a_queue a k @ [c])\<rparr>"
    using m st by (simp add: a_suspend_def matches_def)
  moreover have "length (a_stack a) > 1" using m len by (simp add: matches_def)
  ultimately show ?thesis
    using s'(1,2) y astep.wait [of a pc k] abs_relI by metis
qed

lemma sim_wake:
  assumes rel: "abs_rel (Sys pc s) y" and inv: "sched_inv m pc s" and u: "user_turn pc s"
  shows "\<exists>r s' b. co_cond_signal k s = Some (r, s') \<and> astep y b \<and> abs_rel (Sys pc s') b"
    and "\<exists>r s' b. co_cond_broadcast k s = Some (r, s') \<and> astep y b \<and> abs_rel (Sys pc s') b"
proof -
  from rel inv obtain a L A where y: "y = (pc, a)" and m: "matches A s a"
    and ok: "stack_ok m s" "lists_ok L A s" "waits L A s" by (rule abs_relE)
  have u': "a_user pc a" using u m by (simp add: a_user_def user_turn_def matches_def)
  from broadcast_loop_ok [OF ok(2,3) refl, of k] obtain s' ts L' where
    s': "broadcast_loop k (co_deque s k) s = Some s'" "lists_ok L' (A @ ts) s'"
      "list_all2 (\<lambda>e t. \<exists>c. susp s c = InWait k e t) (co_deque s k) ts"
      "co_deque s' = (co_deque s)(k := [])" "awake s s'" by blast
  have len: "length (co_deque s k) = length (a_queue a k)"
    using m by (auto simp: matches_def queue_rel_def dest: list_all2_lengthD)
  have "matches (A @ ts) s' (a_wake k (length (a_queue a k)) a)"
    using matches_wake [OF m ok(3) s'(5) _ s'(4,3)] len by simp
  moreover have "co_cond_broadcast k s = Some (1, s')" using s'(1) by (simp add: co_cond_broadcast_def)
  ultimately show "\<exists>r s' b. co_cond_broadcast k s = Some (r, s') \<and> astep y b \<and> abs_rel (Sys pc s') b"
    using s'(2) astep.broadcast [OF u', of k] abs_relI unfolding y by blast
  show "\<exists>r s' b. co_cond_signal k s = Some (r, s') \<and> astep y b \<and> abs_rel (Sys pc s') b"
  proof (cases "co_deque s k")
    case Nil
    then have "co_cond_signal k s = Some (- 1, s)" by (simp add: co_cond_signal_front)
    then show ?thesis using ok(2) m astep.skip [OF u'] abs_relI unfolding y by blast
  next
    case (Cons e rest)
    from wake_front_ok [OF ok(2,3) Cons] obtain s1 t c L1 where
      s1: "wake_front k e rest s = Some s1" "susp s c = InWait k e t" "lists_ok L1 (A @ [t]) s1"
        "co_deque s1 = (co_deque s)(k := rest)" "awake s s1" by (elim exE conjE)
    have "matches (A @ [t]) s1 (a_wake k (length [e]) a)"
      using s1(2) Cons by (intro matches_wake [OF m ok(3) s1(5) _ s1(4)]) auto
    then have "matches (A @ [t]) s1 (a_wake k 1 a)" by simp
    moreover have "co_cond_signal k s = Some (1, s1)" using Cons s1(1) by (simp add: co_cond_signal_front)
    ultimately show ?thesis
      using s1(3) astep.signal [OF u', of k] abs_relI unfolding y by blast
  qed
qed

text \<open>A woken coroutine leaves the ready list; it was in no queue any more.\<close>

lemma ready_rel_resume:
  assumes "ready_rel su ei A rs" and w: "recs_ok su own it" and c: "node_of (su c) = Some (e, t)" and t: "t \<notin> set A"
  shows "ready_rel (su(c := Running)) (ei(e := None)) A rs"
  unfolding ready_rel_def list_all2_conv_all_nth
proof (intro conjI allI impI)
  show "length A = length rs" using assms(1) by (auto simp: ready_rel_def dest: list_all2_lengthD)
  fix i assume i: "i < length A"
  obtain d r where d: "rs ! i = (d, r)" by (cases "rs ! i")
  from assms(1) i d obtain e' where e': "node_of (su d) = Some (e', A ! i)" "r = result ei (su d)"
    by (auto simp: ready_rel_def list_all2_conv_all_nth)
  have "A ! i \<noteq> t" using i t by auto
  with recs_inj [OF w c e'(1)] have "d \<noteq> c" "e' \<noteq> e" by auto
  then have "result (ei(e := None)) (su d) = result ei (su d)"
    using e'(1) by (cases "su d") (auto simp: result_def)
  with e' d \<open>d \<noteq> c\<close> show "case rs ! i of (c', r) \<Rightarrow>
      (\<exists>e. node_of ((su(c := Running)) c') = Some (e, A ! i)) \<and> r = result (ei(e := None)) ((su(c := Running)) c')"
    by auto
qed

lemma queue_rel_resume:
  assumes q: "queue_rel su dq q" and w: "waits_ok su own it ex fr W A dq im" and c: "node_of (su c) = Some (e, t)"
    and t: "\<not> fr t"
  shows "queue_rel (su(c := Running)) dq q"
  unfolding queue_rel_def list_all2_conv_all_nth
proof (intro conjI allI impI)
  fix k
  show "length (dq k) = length (q k)" using q by (auto simp: queue_rel_def dest: list_all2_lengthD)
  fix i assume i: "i < length (dq k)"
  from q have "list_all2 (\<lambda>e c. \<exists>t. su c = InWait k e t) (dq k) (q k)" by (simp add: queue_rel_def)
  from list_all2_nthD [OF this i] obtain t' where t': "su (q k ! i) = InWait k (dq k ! i) t'" by blast
  from i waitsD(6) [OF w] obtain c2 t2 where c2: "su c2 = InWait k (dq k ! i) t2" "fr t2"
    unfolding queue_ok_def by (meson nth_mem)
  with recs_inj [OF waitsD(1) [OF w], of c2 "dq k ! i" t2 "q k ! i" "dq k ! i" t'] t' have "q k ! i = c2" "t' = t2" by auto
  with c2 t c t' have "q k ! i \<noteq> c" by auto
  with t' show "\<exists>t. (su(c := Running)) (q k ! i) = InWait k (dq k ! i) t" by simp
qed

lemma ready_rel_unique:
  assumes "ready_rel su ei A rs" and "ready_rel su ei A rs'" and "recs_ok su own it"
  shows "rs = rs'"
proof (rule nth_equalityI)
  show "length rs = length rs'" using assms(1,2) by (auto simp: ready_rel_def dest!: list_all2_lengthD)
  fix i assume "i < length rs"
  then have i: "i < length A" using assms(1) by (auto simp: ready_rel_def dest: list_all2_lengthD)
  obtain c r c' r' where c: "rs ! i = (c, r)" "rs' ! i = (c', r')" by (cases "rs ! i", cases "rs' ! i")
  from list_all2_nthD [OF assms(1) [unfolded ready_rel_def] i] list_all2_nthD [OF assms(2) [unfolded ready_rel_def] i] c
  obtain e e' where n: "node_of (su c) = Some (e, A ! i)" "r = result ei (su c)"
    "node_of (su c') = Some (e', A ! i)" "r' = result ei (su c')" by auto
  with recs_inj(2) [OF assms(3) n(1,3)] c show "rs ! i = rs' ! i" by simp
qed

text \<open>The steps of the event loop.\<close>

lemma sim_drain:
  assumes rel: "abs_rel (Sys AtDrain s) y" and inv: "sched_inv m AtDrain s"
    and len: "length (co_call_stack s) = 1" and ne: "\<not> active_empty s"
  shows "\<exists>s' b. loop_drain s = Some s' \<and> astep y b \<and> abs_rel (Sys AtDrain s') b"
proof -
  from rel inv obtain a L A where y: "y = (AtDrain, a)" and m: "matches A s a"
    and ok: "stack_ok m s" "lists_ok L A s" "waits L A s" by (rule abs_relE)
  from ne active_empty_iff [OF ok(2)] obtain t A' where A: "A = t # A'" by (metis neq_Nil_conv)
  from loop_drain_ok [OF ok(1) ok(2,3) [unfolded A]] obtain s' L' c e where
    s': "loop_drain s = Some s'" "node_of (susp s c) = Some (e, t)" "woken c s s'" "lists_ok L' A' s'"
      "eitems s' = (eitems s)(e := None)" "expire_of (hp s') = (expire_of (hp s))(t := None)"
      "sch_tw s' = sch_tw s" "co_deque s' = co_deque s" by blast
  note w = ok(3) [unfolded waits_def]
  note inj = recs_inj [OF waitsD(1) [OF w] s'(2)]
  from m obtain d r rs where rs: "a_ready a = (d, r) # rs" "\<exists>e'. node_of (susp s d) = Some (e', t)"
    and rest: "ready_rel (susp s) (eitems s) A' rs"
    by (auto simp: matches_def ready_rel_def A list_all2_Cons1)
  from rs(2) inj(2) have d: "d = c" by blast
  have t: "t \<notin> set A'" "\<not> unlinked (hp s) t"
    using pop_ok [OF ok(2,3) [unfolded A]] by blast+
  have su: "susp s' = (susp s)(c := Running)" "co_call_stack s' = c # co_call_stack s" "destroy_co s' = destroy_co s"
    "dom (cos s') = dom (cos s)"
    using s'(3) by (auto simp: woken_def split: if_splits)
  let ?b = "a_resume c (a\<lparr>a_ready := rs, a_log := a_log a @ [(c, r)]\<rparr>)"
  have "ready_rel (susp s') (eitems s') A' rs"
    unfolding su(1) s'(5) by (rule ready_rel_resume [OF rest waitsD(1) [OF w] s'(2) t(1)])
  moreover have "queue_rel (susp s') (co_deque s') (a_queue a)"
    unfolding su(1) s'(8) using m t(2) by (intro queue_rel_resume [OF _ w s'(2)]) (simp_all add: matches_def)
  moreover have "(\<lambda>x. akont (expire_of (hp s')) (susp s' x)) = (a_co a)(c := ARunning)"
  proof
    fix x
    have "akont ((expire_of (hp s))(t := None)) (susp s x) = akont (expire_of (hp s)) (susp s x)" if "x \<noteq> c"
      using inj(2) [of x] that by (cases "susp s x") auto
    then show "akont (expire_of (hp s')) (susp s' x) = ((a_co a)(c := ARunning)) x"
      using m by (auto simp: su(1) s'(6) matches_def)
  qed
  ultimately have "matches A' s' ?b"
    using m by (simp add: matches_def a_resume_def su s'(7))
  moreover have "astep (AtDrain, a) (AtDrain, ?b)"
    using m len rs(1) d by (intro astep.drain) (simp_all add: matches_def)
  ultimately show ?thesis using s'(1,4) abs_relI unfolding y by blast
qed

text \<open>
  The coroutines of a list of nodes, and what a poll says about them: \<open>ts\<close> are the nodes with
  events and \<open>due\<close> those whose deadline has passed.
\<close>

lemma list_all2_exists: "\<forall>x \<in> set xs. \<exists>y. P x y \<Longrightarrow> \<exists>ys. list_all2 P xs ys"
proof (induction xs)
  case (Cons x xs)
  then obtain y ys where "P x y" "list_all2 P xs ys" by auto
  then show ?case by (intro exI [of _ "y # ys"]) simp
qed (auto intro: exI [of _ "[]"])

lemma list_all2_distinct:
  assumes "list_all2 P xs ys" and "distinct xs" and "\<And>x x' y. P x y \<Longrightarrow> P x' y \<Longrightarrow> x = x'"
  shows "distinct ys"
  using assms(1,2) unfolding distinct_conv_nth list_all2_conv_all_nth by (metis assms(3))

definition sleeper :: "(addr \<Rightarrow> kont) \<Rightarrow> addr \<Rightarrow> addr \<Rightarrow> bool" where
  "sleeper su t c \<longleftrightarrow> (\<exists>fd e. su c = InRegister fd e t)"

lemma sleeper_inj: "sleeper su t c \<Longrightarrow> sleeper su t' c \<Longrightarrow> t = t'"
  by (auto simp: sleeper_def)

lemma sleeper_set:
  assumes "recs_ok su own it" and "list_all2 (sleeper su) ts cs" and "sleeper su t c"
  shows "c \<in> set cs \<longleftrightarrow> t \<in> set ts"
proof
  assume "c \<in> set cs"
  with list_all2_setD(1) [OF assms(2)] obtain t' where "t' \<in> set ts" "sleeper su t' c" by blast
  with assms(3) sleeper_inj show "t \<in> set ts" by blast
next
  assume "t \<in> set ts"
  with list_all2_setD(2) [OF assms(2)] obtain c' where "c' \<in> set cs" "sleeper su t c'" by blast
  moreover from this(2) assms(3) obtain fd e fd' e' where "su c' = InRegister fd e t" "su c = InRegister fd' e' t"
    by (auto simp: sleeper_def)
  with recs_inj(2) [OF assms(1), of c' e t c e' t] have "c' = c" by simp
  ultimately show "c \<in> set cs" by simp
qed

lemma expired_iff:
  assumes m: "matches A s a"
  shows "expired now a c \<longleftrightarrow> (\<exists>t n. sleeper (susp s) t c \<and> expire_of (hp s) t = Some n \<and> 0 < n \<and> n \<le> now)"
  using m by (cases "susp s c") (auto simp: matches_def expired_def sleeper_def split: if_splits)

lemma due_deadlines:
  assumes m: "matches A s a" and "list_all2 (sleeper (susp s)) due ds"
    and "\<And>t. t \<in> set due \<Longrightarrow> \<exists>n. expire_of (hp s) t = Some n \<and> 0 < n"
  shows "map (deadline a) ds = map (\<lambda>t. the (expire_of (hp s) t)) due"
proof (rule nth_equalityI)
  show len: "length (map (deadline a) ds) = length (map (\<lambda>t. the (expire_of (hp s) t)) due)"
    using assms(2) by (auto dest: list_all2_lengthD)
  fix i assume "i < length (map (deadline a) ds)"
  then have i: "i < length due" "i < length ds" using len by simp_all
  from list_all2_nthD [OF assms(2) i(1)] obtain fd e where "susp s (ds ! i) = InRegister fd e (due ! i)"
    by (auto simp: sleeper_def)
  with assms(3) [OF nth_mem [OF i(1)]] m i
  show "map (deadline a) ds ! i = map (\<lambda>t. the (expire_of (hp s) t)) due ! i"
    by (auto simp: deadline_def matches_def)
qed

text \<open>Events are reported for sleepers on real descriptors.\<close>

lemma events_sleepers:
  assumes "lists_ok L A s" "waits L A s" and "events_ok evs s" and "e \<in> set evs" and "susp s c = InRegister fd e t"
  shows "fd > - 1"
proof -
  from assms(3,4) obtain f ev where "interest (sch_epoll s) f = Some (ev, e)" by (auto simp: events_ok_def)
  with lists_okD(7) [OF assms(1)] have "item_map (sch_epoll s) f = Some e" unfolding epoll_ok_def by blast
  with waitsD(5) [OF assms(2) [unfolded waits_def]] obtain c' t' where "f > - 1" "susp s c' = InRegister f e t'"
    unfolding map_ok_def by blast
  with recs_inj(1) [OF waitsD(1) [OF assms(2) [unfolded waits_def]], of c e t c' e t'] assms(5) show ?thesis by auto
qed

lemma ready_sleepers:
  assumes "list_all2 (sleeper su) ts cs"
    and "\<And>c fd e t. su c = InRegister fd e t \<Longrightarrow> t \<in> set ts \<Longrightarrow> result ei (su c) = r"
  shows "ready_rel su ei ts (map (\<lambda>c. (c, r)) cs)"
  unfolding ready_rel_def list_all2_conv_all_nth
proof (intro conjI allI impI)
  show "length ts = length (map (\<lambda>c. (c, r)) cs)" using assms(1) by (simp add: list_all2_lengthD)
  fix i assume i: "i < length ts"
  from list_all2_nthD [OF assms(1) i] obtain fd e where c: "su (cs ! i) = InRegister fd e (ts ! i)" by (auto simp: sleeper_def)
  with assms(2) [OF c] i list_all2_lengthD [OF assms(1)]
  show "case map (\<lambda>c. (c, r)) cs ! i of (c, r) \<Rightarrow> (\<exists>e. node_of (su c) = Some (e, ts ! i)) \<and> r = result ei (su c)"
    by simp
qed

lemma ready_quiet:
  assumes "ready_rel (susp s) ei A rs" and "quiet A s"
  shows "ready_rel (susp s) ei' A rs"
  unfolding ready_rel_def list_all2_conv_all_nth
proof (intro conjI allI impI)
  show "length A = length rs" using assms(1) by (auto simp: ready_rel_def dest: list_all2_lengthD)
  fix i assume i: "i < length A"
  obtain d r where d: "rs ! i = (d, r)" by (cases "rs ! i")
  from assms(1) i d obtain e where e: "node_of (susp s d) = Some (e, A ! i)" "r = result ei (susp s d)"
    by (auto simp: ready_rel_def list_all2_conv_all_nth)
  have "result ei' (susp s d) = result ei (susp s d)"
    using assms(2) e(1) nth_mem [OF i] by (cases "susp s d") (auto simp: result_def quiet_def)
  with e d show "case rs ! i of (c, r) \<Rightarrow> (\<exists>e. node_of (susp s c) = Some (e, A ! i)) \<and> r = result ei' (susp s c)" by auto
qed

lemma astep_poll:
  assumes m: "matches A s a" and w: "lists_ok L A s" "waits L A s" and len: "length (co_call_stack s) = 1"
    and evs: "events_ok evs s" and now: "w_start (sch_tw s) \<le> now"
    and ts: "list_all2 (\<lambda>e t. \<exists>c fd. susp s c = InRegister fd e t) evs ts" "list_all2 (sleeper (susp s)) ts cs"
    and due: "list_all2 (sleeper (susp s)) due ds" "sorted (map (\<lambda>t. the (expire_of (hp s) t)) due)"
    and dist: "distinct (ts @ due)"
    and reg: "\<And>c t. sleeper (susp s) t c \<Longrightarrow>
        t \<in> set due \<longleftrightarrow> t \<notin> set ts \<and> (\<exists>n. expire_of (hp s) t = Some n \<and> 0 < n \<and> n \<le> unat now)"
  shows "astep (AtPoll, a) (AtDrain, a\<lparr>a_clock := unat now,
     a_ready := a_ready a @ map (\<lambda>c. (c, 0)) cs @ map (\<lambda>c. (c, 1)) ds\<rparr>)"
proof (rule astep.poll)
  note re = waitsD(1) [OF w(2) [unfolded waits_def]]
  have owner: "\<exists>t. sleeper (susp s) t c \<and> t \<in> set xs" if "list_all2 (sleeper (susp s)) xs ys" "c \<in> set ys" for xs ys c
    using list_all2_setD(1) [OF that] by blast
  show "length (a_stack a) = 1" "a_clock a \<le> unat now" using m len now by (simp_all add: matches_def word_le_nat_alt)
  show "distinct (cs @ ds)"
    using list_all2_distinct [OF list_all2_appendI [OF ts(2) due(1)] dist] sleeper_inj by blast
  show "\<forall>c \<in> set cs. \<exists>fd d. a_co a c = ASleep fd d \<and> fd > - 1"
  proof
    fix c assume "c \<in> set cs"
    from owner [OF ts(2) this] obtain t fd e where c: "susp s c = InRegister fd e t" "t \<in> set ts" by (auto simp: sleeper_def)
    from list_all2_setD(1) [OF ts(1) c(2)] obtain e' c' fd' where "e' \<in> set evs" "susp s c' = InRegister fd' e' t"
      by blast
    with recs_inj [OF re, of c e t c' e' t] c(1) have "e \<in> set evs" by auto
    with events_sleepers [OF w evs _ c(1)] m c(1) show "\<exists>fd d. a_co a c = ASleep fd d \<and> fd > - 1" by (simp add: matches_def)
  qed
  have iff: "c \<in> set ds \<longleftrightarrow> c \<notin> set cs \<and> expired (unat now) a c" if "sleeper (susp s) t c" for c t
    using sleeper_set [OF re due(1) that] sleeper_set [OF re ts(2) that] reg [OF that] that
      sleeper_inj [OF that] unfolding expired_iff [OF m] by blast
  show "\<forall>c. c \<in> set ds \<longleftrightarrow> c \<notin> set cs \<and> expired (unat now) a c"
    using iff owner [OF due(1)] expired_iff [OF m] by metis
  have "\<exists>n. expire_of (hp s) t = Some n \<and> 0 < n" if "t \<in> set due" for t
    using list_all2_setD(2) [OF due(1) that] reg that by blast
  then show "sorted (map (deadline a) ds)" using due_deadlines [OF m due(1)] due(2) by simp
qed

lemma sim_poll:
  assumes rel: "abs_rel (Sys AtPoll s) y" and inv: "sched_inv m AtPoll s" and len: "length (co_call_stack s) = 1"
    and evs: "events_ok evs s" and now: "time_ok now s"
  shows "\<exists>s' b. loop_collect evs now s = Some (False, s') \<and> astep y b \<and> abs_rel (Sys AtDrain s') b"
proof -
  from rel inv obtain a L A where y: "y = (AtPoll, a)" and m: "matches A s a"
    and ok: "lists_ok L A s" "waits L A s" "quiet A s" by (rule abs_relE) simp
  note re = waitsD(1) [OF ok(2) [unfolded waits_def]]
  from poll_round_inv [OF inv evs now lists_ok_active [OF ok(1)]] obtain s' ts due where
    s': "loop_collect evs now s = Some (False, s')" "collected s s'"
      "dll (hp s') (active_link (sch_epoll s)) (A @ ts @ due)"
      "list_all2 (\<lambda>e t. \<exists>c fd. susp s c = InRegister fd e t) evs ts"
      "sorted (map (\<lambda>t. the (expire_of (hp s) t)) due)" "\<forall>t \<in> set due. \<exists>c fd e. susp s c = InRegister fd e t"
      "w_start (sch_tw s') = now"
    and reg: "\<And>c fd e t. susp s c = InRegister fd e t \<Longrightarrow>
        (t \<in> set due \<longleftrightarrow> t \<notin> set ts \<and> (\<exists>n. expire_of (hp s) t = Some n \<and> 0 < n \<and> n \<le> unat now)) \<and>
        (\<exists>x. eitems s' e = Some x \<and> (ei_is_timeout x \<longleftrightarrow> t \<in> set due))" by blast
  have "\<forall>t \<in> set ts. \<exists>c. sleeper (susp s) t c"
    using list_all2_setD(1) [OF s'(4)] unfolding sleeper_def by blast
  then obtain cs where cs: "list_all2 (sleeper (susp s)) ts cs" using list_all2_exists by blast
  have "\<forall>t \<in> set due. \<exists>c. sleeper (susp s) t c" using s'(6) unfolding sleeper_def by blast
  then obtain ds where ds: "list_all2 (sleeper (susp s)) due ds" using list_all2_exists by blast
  have dist: "distinct (ts @ due)" using s'(3) by (simp add: dll_def)
  let ?b = "a\<lparr>a_clock := unat now, a_ready := a_ready a @ map (\<lambda>c. (c, 0)) cs @ map (\<lambda>c. (c, 1)) ds\<rparr>"
  have reg1: "t \<in> set due \<longleftrightarrow> t \<notin> set ts \<and> (\<exists>n. expire_of (hp s) t = Some n \<and> 0 < n \<and> n \<le> unat now)"
    and reg2: "\<exists>x. eitems s' e = Some x \<and> (ei_is_timeout x \<longleftrightarrow> t \<in> set due)"
    if "susp s c = InRegister fd e t" for c fd e t
    using reg [OF that] by (rule conjunct1, rule conjunct2)
  have "w_start (sch_tw s) \<le> now" using now by (simp add: time_ok_def)
  then have "astep (AtPoll, a) (AtDrain, ?b)"
    using reg1 by (intro astep_poll [OF m ok(1,2) len evs _ s'(4) cs ds s'(5) dist]) (auto simp: sleeper_def)
  moreover have "matches (A @ ts @ due) s' ?b"
  proof -
    from m have "ready_rel (susp s) (eitems s) A (a_ready a)" unfolding matches_def by blast
    from ready_quiet [OF this ok(3)] have "ready_rel (susp s) (eitems s') A (a_ready a)" .
    moreover have res: "result (eitems s') (susp s c) = (if t \<in> set due then 1 else 0)"
      if "susp s c = InRegister fd e t" for c fd e t
      using reg2 [OF that] that by (auto simp: result_def)
    have "ready_rel (susp s) (eitems s') ts (map (\<lambda>c. (c, 0)) cs)"
      using res dist by (intro ready_sleepers [OF cs]) auto
    moreover have "ready_rel (susp s) (eitems s') due (map (\<lambda>c. (c, 1)) ds)"
      using res by (intro ready_sleepers [OF ds]) auto
    ultimately have "ready_rel (susp s) (eitems s') (A @ ts @ due) (a_ready ?b)"
      by (simp add: ready_rel_def list_all2_appendI)
    with m s'(2,7) show ?thesis by (simp add: matches_def collected_def)
  qed
  moreover have "active_link (sch_epoll s') = active_link (sch_epoll s)" using s'(2) by (simp add: collected_def)
  ultimately show ?thesis
    using s'(1,3) unfolding y by (intro exI [of _ s'] exI [of _ "(AtDrain, ?b)"]) (auto simp: abs_rel_def)
qed

text \<open>The other steps: none of them touches a list.\<close>

lemma sim_spawn:
  assumes rel: "abs_rel (Sys pc s) y" and inv: "sched_inv m pc s" and u: "user_turn pc s" and c: "cos s c = None"
  shows "\<exists>b. astep y b \<and> abs_rel (Sys pc (spawn c func s)) b"
proof -
  from rel inv obtain a L A where y: "y = (pc, a)" and m: "matches A s a"
    and ok: "stack_ok m s" "lists_ok L A s" "waits L A s" by (rule abs_relE)
  let ?s = "spawn c func s" and ?b = "a\<lparr>a_live := insert c (a_live a), a_co := (a_co a)(c := ANew)\<rparr>"
  have "susp s c = Fresh \<or> susp s c = Finished" using stack_okD(5) [OF ok(1), of c] c by blast
  then have "node_of (susp s c) = None" by auto
  then have "matches A ?s (a\<lparr>a_co := (a_co a)(c := akont (expire_of (hp ?s)) Fresh), a_stack := co_call_stack ?s,
     a_live := dom (cos ?s), a_dead := destroy_co ?s\<rparr>)"
    by (rule matches_susp [OF m]) (simp_all add: spawn_def)
  moreover have "a\<lparr>a_co := (a_co a)(c := akont (expire_of (hp ?s)) Fresh), a_stack := co_call_stack ?s,
     a_live := dom (cos ?s), a_dead := destroy_co ?s\<rparr> = ?b"
    using m by (simp add: matches_def spawn_def)
  moreover have "astep (pc, a) (pc, ?b)"
    using m u c by (intro astep.new_co) (simp_all add: a_user_def user_turn_def matches_def domIff)
  moreover have "lists_ok L A ?s" using ok(2) by (simp add: spawn_def)
  ultimately show ?thesis using abs_relI unfolding y by metis
qed

lemma sim_resume:
  assumes rel: "abs_rel (Sys pc s) y" and inv: "sched_inv m pc s" and u: "user_turn pc s" and c: "cos s c \<noteq> None"
    and k: "susp s c = Fresh \<or> susp s c = InYield"
  shows "\<exists>r s' b. resume_co c s = Some (r, s') \<and> astep y b \<and> abs_rel (Sys pc s') b"
proof -
  from rel inv obtain a L A where y: "y = (pc, a)" and m: "matches A s a"
    and ok: "stack_ok m s" "lists_ok L A s" "waits L A s" by (rule abs_relE)
  from c obtain co where co: "cos s c = Some co" by blast
  let ?s = "s\<lparr>cos := (cos s)(c \<mapsto> co\<lparr>co_start := True\<rparr>), co_call_stack := c # co_call_stack s,
    susp := (susp s)(c := Running)\<rparr>"
  have "get_curr_co s \<noteq> None" using stack_okD(1) [OF ok(1)] by (simp add: get_curr_co_def split: list.splits)
  then have run: "resume_co c s = Some (None, ?s)" using k co by (auto simp: resume_co_def resume_def)
  have "node_of (susp s c) = None" using k by auto
  then have "matches A ?s (a\<lparr>a_co := (a_co a)(c := akont (expire_of (hp ?s)) Running), a_stack := co_call_stack ?s,
     a_live := dom (cos ?s), a_dead := destroy_co ?s\<rparr>)"
    by (rule matches_susp [OF m]) simp_all
  moreover have "a\<lparr>a_co := (a_co a)(c := akont (expire_of (hp ?s)) Running), a_stack := co_call_stack ?s,
     a_live := dom (cos ?s), a_dead := destroy_co ?s\<rparr> = a_resume c a"
    using m co by (simp add: matches_def a_resume_def insert_absorb domI)
  moreover have "a_co a c = ANew \<or> a_co a c = AYielded" "c \<in> a_live a" "a_user pc a"
    using m k co u by (auto simp: matches_def a_user_def user_turn_def)
  then have "astep (pc, a) (pc, a_resume c a)" by (intro astep.resume_new)
  moreover have "lists_ok L A ?s" using ok(2) by simp
  ultimately show ?thesis using run abs_relI unfolding y by metis
qed

lemma sim_yield:
  assumes rel: "abs_rel (Sys pc s) y" and inv: "sched_inv m pc s" and len: "length (co_call_stack s) > 1"
  shows "\<exists>s' b. yield_at InYield s = Some s' \<and> astep y b \<and> abs_rel (Sys pc s') b"
    and "\<exists>s' b. co_func_end s = Some s' \<and> astep y b \<and> abs_rel (Sys pc s') b"
proof -
  from rel inv obtain a L A where y: "y = (pc, a)" and m: "matches A s a"
    and ok: "stack_ok m s" "lists_ok L A s" "waits L A s" by (rule abs_relE)
  from len obtain c c' rest where st: "co_call_stack s = c # c' # rest" by (rule stack_two)
  note top = stack_top [OF ok(1) st]
  have len': "length (a_stack a) > 1" using m len by (simp add: matches_def)
  let ?s = "s\<lparr>co_call_stack := c' # rest, susp := (susp s)(c := InYield)\<rparr>"
  have run: "yield_at InYield s = Some ?s" using st by (simp add: yield_at_def)
  have "asleep c InYield s ?s" using st by (simp add: asleep_def)
  from matches_asleep [OF m ok(3) st top(1) this] have "matches A ?s (a_suspend AYielded a)" by simp
  moreover have "lists_ok L A ?s" using ok(2) by simp
  ultimately show "\<exists>s' b. yield_at InYield s = Some s' \<and> astep y b \<and> abs_rel (Sys pc s') b"
    using run astep.yield [OF len', of pc] abs_relI unfolding y by metis
  from top(2) obtain co where co: "cos s c = Some co" by blast
  let ?t = "s\<lparr>cos := (cos s)(c \<mapsto> co\<lparr>co_end := True\<rparr>), destroy_co := destroy_co s @ [c],
    co_call_stack := c' # rest, susp := (susp s)(c := Finished)\<rparr>"
  have run': "co_func_end s = Some ?t"
    using st co by (simp add: co_func_end_def get_curr_co_def yield_at_def Let_def)
  have "node_of (susp s c) = None" using top(1) by simp
  then have "matches A ?t (a\<lparr>a_co := (a_co a)(c := akont (expire_of (hp ?t)) Finished), a_stack := co_call_stack ?t,
     a_live := dom (cos ?t), a_dead := destroy_co ?t\<rparr>)"
    by (rule matches_susp [OF m]) simp_all
  moreover have "a\<lparr>a_co := (a_co a)(c := akont (expire_of (hp ?t)) Finished), a_stack := co_call_stack ?t,
     a_live := dom (cos ?t), a_dead := destroy_co ?t\<rparr> = a_suspend ADone (a\<lparr>a_dead := a_dead a @ [hd (a_stack a)]\<rparr>)"
    using m st co by (simp add: matches_def a_suspend_def insert_absorb domI)
  moreover have "lists_ok L A ?t" using ok(2) by simp
  ultimately show "\<exists>s' b. co_func_end s = Some s' \<and> astep y b \<and> abs_rel (Sys pc s') b"
    using run' astep.finish [OF len', of pc] abs_relI unfolding y by metis
qed

lemma matches_cos:
  assumes "matches A s a"
  shows "matches A (s\<lparr>destroy_co := d, cos := f\<rparr>) (a\<lparr>a_live := dom f, a_dead := d\<rparr>)"
  using assms by (simp add: matches_def)

lemma sim_setconn:
  assumes rel: "abs_rel (Sys pc s) y" and inv: "sched_inv m pc s" and u: "user_turn pc s" and c: "cos s c \<noteq> None"
  shows "\<exists>s' b. setconn c conn s = Some s' \<and> astep y b \<and> abs_rel (Sys pc s') b"
proof -
  from rel inv obtain a L A where y: "y = (pc, a)" and m: "matches A s a"
    and ok: "lists_ok L A s" by (rule abs_relE)
  from c obtain co where co: "cos s c = Some co" by blast
  let ?f = "(cos s)(c \<mapsto> co\<lparr>co_conn := Some conn\<rparr>)"
  have "a\<lparr>a_live := dom ?f, a_dead := destroy_co s\<rparr> = a"
    using m co by (simp add: matches_def insert_absorb domI)
  with matches_cos [OF m, where f = ?f and d = "destroy_co s"] have "matches A (s\<lparr>cos := ?f\<rparr>) a" by simp
  moreover have "astep (pc, a) (pc, a)" using u m by (intro astep.skip) (simp add: a_user_def user_turn_def matches_def)
  moreover have "lists_ok L A (s\<lparr>cos := ?f\<rparr>)" using ok by simp
  moreover have "setconn c conn s = Some (s\<lparr>cos := ?f\<rparr>)" using co by (simp add: setconn_def)
  ultimately show ?thesis using abs_relI unfolding y by blast
qed

lemma sim_clear:
  assumes rel: "abs_rel (Sys InFunc s) y" and inv: "sched_inv m InFunc s" and len: "length (co_call_stack s) = 1"
  shows "\<exists>s' b. clear_co s = Some s' \<and> astep y b \<and> abs_rel (Sys AtPoll s') b"
proof -
  from rel inv obtain a L A where y: "y = (InFunc, a)" and m: "matches A s a"
    and ok: "lists_ok L A s" by (rule abs_relE)
  let ?f = "\<lambda>c. if c \<in> set (destroy_co s) then None else cos s c"
  let ?b = "a\<lparr>a_live := a_live a - set (a_dead a), a_dead := []\<rparr>"
  have "dom ?f = a_live a - set (a_dead a)" using m by (auto simp: matches_def split: if_splits)
  then have "?b = a\<lparr>a_live := dom ?f, a_dead := []\<rparr>" by simp
  with matches_cos [OF m, where f = ?f and d = "[]"] have "matches A (s\<lparr>destroy_co := [], cos := ?f\<rparr>) ?b" by simp
  moreover have "astep (InFunc, a) (AtPoll, ?b)" using len m by (intro astep.func_clear) (simp add: matches_def)
  moreover have "lists_ok L A (s\<lparr>destroy_co := [], cos := ?f\<rparr>)" using ok by simp
  ultimately show ?thesis using clear_co_ok(1) [OF inv] abs_relI unfolding y by blast
qed

text \<open>A step of main that only moves its program counter.\<close>

lemma sim_main:
  assumes rel: "abs_rel (Sys pc s) y" and "\<And>a. length (a_stack a) = length (co_call_stack s) \<Longrightarrow> astep (pc, a) (pc', a)"
  shows "\<exists>b. astep y b \<and> abs_rel (Sys pc' s) b"
proof -
  from rel obtain a A where y: "y = (pc, a)" "dll (hp s) (active_link (sch_epoll s)) A" "matches A s a"
    by (cases y) (auto simp: abs_rel_def)
  then have "astep (pc, a) (pc', a)" by (intro assms(2)) (simp add: matches_def)
  moreover have "abs_rel (Sys pc' s) (pc', a)" using y by (auto simp: abs_rel_def)
  ultimately show ?thesis using y(1) by blast
qed

lemma sim_drained:
  assumes rel: "abs_rel (Sys AtDrain s) y" and inv: "sched_inv m AtDrain s"
    and len: "length (co_call_stack s) = 1" and e: "active_empty s"
  shows "\<exists>b. astep y b \<and> abs_rel (Sys InFunc s) b"
proof -
  from rel inv obtain a L A where y: "y = (AtDrain, a)" and m: "matches A s a"
    and ok: "lists_ok L A s" by (rule abs_relE)
  have "A = []" using active_empty_iff [OF ok] e by simp
  with m len have "astep (AtDrain, a) (InFunc, a)" by (intro astep.drained) (simp_all add: matches_def ready_rel_def)
  with abs_relI [OF ok m] show ?thesis unfolding y by blast
qed

lemma outcome_sim: "\<exists>s' b. r = Some s' \<and> astep y b \<and> abs_rel (Sys pc s') b \<Longrightarrow> \<exists>b. astep y b \<and> abs_rel (outcome pc r) b"
  "\<exists>q s' b. f = Some (q, s') \<and> astep y b \<and> abs_rel (Sys pc s') b \<Longrightarrow>
    \<exists>b. astep y b \<and> abs_rel (outcome pc (map_option snd f)) b"
  by (elim exE conjE; simp only: outcome_def option.case option.map snd_conv; blast)+

lemma sched_sim_step: "step x z \<Longrightarrow> sys_inv m x \<Longrightarrow> abs_rel x y \<Longrightarrow> \<exists>b. astep y b \<and> abs_rel z b"
proof (induction rule: step.induct)
  case (enter s)
  then show ?case by (intro sim_main [OF enter(3)] astep.enter) simp
next
  case (poll s evs now)
  then obtain s' b where "loop_collect evs now s = Some (False, s')" "astep y b" "abs_rel (Sys AtDrain s') b"
    using sim_poll [of s y m evs now] by auto
  then show ?case by (intro exI [of _ b]) (simp add: loop_collected_def)
next
  case (drain s)
  then show ?case by (intro outcome_sim sim_drain) simp_all
next
  case (drained s)
  then show ?case by (intro sim_drained) simp_all
next
  case (func_break s)
  then show ?case by (intro sim_main [OF func_break(3)] astep.func_break) simp
next
  case (func_clear s)
  then show ?case by (intro outcome_sim sim_clear) simp_all
next
  case (new_co pc s c func)
  then show ?case by (intro sim_spawn) simp_all
next
  case (set_conn pc s c conn)
  then show ?case by (intro outcome_sim sim_setconn) simp_all
next
  case (resume_new pc s c)
  then show ?case by (intro outcome_sim sim_resume) simp_all
next
  case (yield s pc)
  then show ?case by (intro outcome_sim sim_yield) simp_all
next
  case (finish s pc)
  then show ?case by (intro outcome_sim sim_yield) simp_all
next
  case (register s fd timeout now ae at pc events)
  then show ?case by (intro outcome_sim sim_register) simp_all
next
  case (wait s ae at pc k)
  then show ?case by (intro outcome_sim sim_wait) simp_all
next
  case (signal pc s k)
  then show ?case by (intro outcome_sim sim_wake) simp_all
next
  case (broadcast pc s k)
  then show ?case by (intro outcome_sim sim_wake) simp_all
qed

lemma new_scheduler_abs:
  assumes "fresh_sched m a b slots now"
  shows "abs_rel (Sys Outside (new_scheduler m a b slots now)) (Outside, aspec0 m (unat now))"
proof -
  let ?s = "new_scheduler m a b slots now"
  have s: "susp ?s = (\<lambda>_. Fresh)(m := Running)" "co_call_stack ?s = [m]" "dom (cos ?s) = {m}" "destroy_co ?s = []"
    "co_deque ?s = (\<lambda>_. [])" "w_start (sch_tw ?s) = now" "w_size (sch_tw ?s) = 60000"
    by (simp_all add: new_scheduler_def new_co_epoll_def new_time_wheel_def)
  from new_scheduler_inv [OF assms] obtain L A where ok: "lists_ok L A ?s" "waits L A ?s" by (auto simp: sched_inv_def)
  have "A = []" using waitsD(4) [OF ok(2) [unfolded waits_def]] by (auto simp: own_ok_def s(1) split: if_splits)
  moreover have "matches [] ?s (aspec0 m (unat now))"
    by (auto simp: matches_def aspec0_def s ready_rel_def queue_rel_def)
  ultimately show ?thesis using abs_relI [OF ok(1)] by simp
qed

interpretation sched_sim: simulation step
  "\<lambda>x. \<exists>a b slots now. fresh_sched m a b slots now \<and> x = Sys Outside (new_scheduler m a b slots now)" "sys_inv m"
  astep "\<lambda>y. \<exists>now. y = (Outside, aspec0 m now)" abs_rel for m
  by unfold_locales (use new_scheduler_abs sched_sim_step in blast)+

text \<open>What the specification keeps along a run: the history of the event loop only grows, in order.\<close>

lemma astep_history:
  "astep y z \<Longrightarrow> \<exists>l new. a_log (snd z) = a_log (snd y) @ l \<and> l @ a_ready (snd z) = a_ready (snd y) @ new"
  by (induction rule: astep.induct) (auto simp: a_resume_def a_suspend_def a_wake_def)

lemma asteps_history:
  "astep\<^sup>*\<^sup>* y z \<Longrightarrow> \<exists>l new. a_log (snd z) = a_log (snd y) @ l \<and> l @ a_ready (snd z) = a_ready (snd y) @ new"
proof (induction rule: rtranclp_induct)
  case (step z u)
  from step.IH obtain l new where "a_log (snd z) = a_log (snd y) @ l" "l @ a_ready (snd z) = a_ready (snd y) @ new" by blast
  moreover from astep_history [OF step.hyps(2)] obtain l' new' where
    "a_log (snd u) = a_log (snd z) @ l'" "l' @ a_ready (snd u) = a_ready (snd z) @ new'" by blast
  ultimately show ?case
    by (intro exI [of _ "l @ l'"] exI [of _ "new @ new'"]) (metis append.assoc)
qed simp

section \<open>Properties\<close>

text \<open>
  C2. The scheduler implements its specification: every run of a thread with its heap of
  linked nodes, its wheel, its map of descriptors and its queues is matched by a run of the
  abstract machine \<open>astep\<close>, and from any state reached every further step is matched again.
  In particular a thread reaches only states that the specification allows, and it never
  faults.
\<close>

theorem scheduler_refines:
  assumes "fresh_sched m a b slots now" and "step\<^sup>*\<^sup>* (Sys Outside (new_scheduler m a b slots now)) x"
  shows "\<exists>y. astep\<^sup>*\<^sup>* (Outside, aspec0 m (unat now)) y \<and> abs_rel x y \<and>
     (\<forall>x'. step x x' \<longrightarrow> (\<exists>y'. astep y y' \<and> abs_rel x' y'))"
proof -
  have "sys_inv m (Sys Outside (new_scheduler m a b slots now))" using new_scheduler_inv [OF assms(1)] by simp
  from sched_sim.sim_steps [OF assms(2) this new_scheduler_abs [OF assms(1)]] obtain y where
    "astep\<^sup>*\<^sup>* (Outside, aspec0 m (unat now)) y" "abs_rel x y" by blast
  with sched_sim_step [OF _ reachable_inv [OF assms]] show ?thesis by blast
qed

theorem scheduler_refines_witness:
  "\<exists>a. astep\<^sup>*\<^sup>* (Outside, aspec0 1 5) (Outside, a) \<and> a_queue a 30 = [9] \<and> a_co a 9 = AWait 30"
proof -
  from scheduler_refines [OF fresh0 reach3 [unfolded run0_def]] obtain y where
    y: "astep\<^sup>*\<^sup>* (Outside, aspec0 1 (unat (5 :: u64))) y" "abs_rel (Sys Outside run3) y" by blast
  then obtain a A where a: "y = (Outside, a)" "matches A run3 a" by (cases y) (auto simp: abs_rel_def)
  from a(2) have "queue_rel (susp run3) (co_deque run3) (a_queue a)" unfolding matches_def by blast
  then have "list_all2 (\<lambda>e c. \<exists>t. susp run3 c = InWait 30 e t) [40] (a_queue a 30)"
    unfolding queue_rel_def run3(1) [symmetric] by blast
  then obtain c t where c: "a_queue a 30 = [c]" "susp run3 c = InWait 30 40 t" by (auto simp: list_all2_Cons1)
  have "c = 9" using c(2) by (auto simp: run3_def run2_def run1_def spawn_def run0 split: if_splits)
  moreover from a(2) have "a_co a = (\<lambda>c. akont (expire_of (hp run3)) (susp run3 c))" unfolding matches_def by blast
  then have "a_co a 9 = AWait 30" by (simp add: run3(2))
  ultimately show ?thesis using y(1) a(1) c(1) by auto
qed

text \<open>
  C9. Nobody overtakes: let the active list stand for the coroutines \<open>rs\<close>, each with the
  result its pending call will have. However the thread goes on, the event loop resumes
  coroutines in the order of \<open>rs\<close>, then those that became ready later, and those it has not
  yet resumed are still ready, in the same order and with the same results.
\<close>

theorem event_loop_fifo:
  assumes "fresh_sched m a b slots now" and "step\<^sup>*\<^sup>* (Sys Outside (new_scheduler m a b slots now)) (Sys pc s)"
    and "step\<^sup>*\<^sup>* (Sys pc s) x" and "dll (hp s) (active_link (sch_epoll s)) A" and "ready_rel (susp s) (eitems s) A rs"
  shows "\<exists>y z l new. abs_rel (Sys pc s) y \<and> a_ready (snd y) = rs \<and> astep\<^sup>*\<^sup>* y z \<and> abs_rel x z \<and>
     a_log (snd z) = a_log (snd y) @ l \<and> l @ a_ready (snd z) = rs @ new"
proof -
  have inv: "sys_inv m (Sys pc s)" using reachable_inv [OF assms(1,2)] .
  have "sys_inv m (Sys Outside (new_scheduler m a b slots now))" using new_scheduler_inv [OF assms(1)] by simp
  from sched_sim.sim_steps [OF assms(2) this new_scheduler_abs [OF assms(1)]] obtain y where y: "abs_rel (Sys pc s) y" by blast
  then have "ready_rel (susp s) (eitems s) A (a_ready (snd y))"
    using dll_unique [OF assms(4)] by (auto simp: abs_rel_def matches_def)
  moreover have "recs_ok (susp s) (own_of s) (item_of (hp s))"
    using inv by (auto simp: sched_inv_def waits_def dest: waitsD(1))
  ultimately have rs: "a_ready (snd y) = rs" using ready_rel_unique assms(5) by blast
  from sched_sim.sim_steps [OF assms(3) inv y] obtain z where z: "astep\<^sup>*\<^sup>* y z" "abs_rel x z" by blast
  from asteps_history [OF z(1)] show ?thesis using y z rs by blast
qed

theorem event_loop_fifo_witness:
  "\<exists>s4 t y z l new. co_cond_signal 30 run3 = Some (1, s4) \<and> dll (hp s4) 2 [t] \<and> abs_rel (Sys Outside s4) y \<and>
     a_ready (snd y) = [(9, 1)] \<and> astep\<^sup>*\<^sup>* y z \<and> abs_rel (Sys AtPoll s4) z \<and> l @ a_ready (snd z) = [(9, 1)] @ new"
proof -
  from signal_inv [OF inv3 run3(1), of "[]"] active3 obtain c t s4 where
    s4: "co_cond_signal 30 run3 = Some (1, s4)" "susp run3 c = InWait 30 40 t" "dll (hp s4) 2 [t]" "awake run3 s4"
    by (auto simp: run3)
  have c: "c = 9" using s4(2) by (auto simp: run3_def run2_def run1_def spawn_def run0 split: if_splits)
  have "step (Sys Outside run3) (Sys Outside s4)"
    using step.signal [of Outside run3 30] s4(1) by (simp add: user_turn_def outcome_def)
  with reach3 have r: "step\<^sup>*\<^sup>* (Sys Outside run0) (Sys Outside s4)" by (rule rtranclp.rtrancl_into_rtrancl)
  have "length (co_call_stack s4) = 1" using s4(4) by (simp add: awake_def run3_def slept_def run2_def)
  then have e: "step\<^sup>*\<^sup>* (Sys Outside s4) (Sys AtPoll s4)" by (intro r_into_rtranclp step.enter)
  have d: "dll (hp s4) (active_link (sch_epoll s4)) [t]" using s4(3,4) by (simp add: awake_def run3)
  have "susp s4 9 = InWait 30 40 t" using s4(2,4) c by (simp add: awake_def)
  then have "ready_rel (susp s4) (eitems s4) [t] [(9, 1)]" by (simp add: ready_rel_def result_def)
  from event_loop_fifo [OF fresh0 r [unfolded run0_def] e d this] show ?thesis using s4(1,3) by blast
qed

end
