(* ===== verification/Sched_Times.thy ===== *)
theory Sched_Times
  imports Sched_Spec
begin

text \<open>
  When coroutines are resumed. The invariant of the abstract scheduler says who may be in its
  queue of ready coroutines, with which result, and who must be; \<open>scheduler_refines\<close> carries
  it over to the lists and nodes of the code.
\<close>

section \<open>The invariant of the specification\<close>

text \<open>A ready coroutine sleeps or waits; a sleeper has the result 1 only if its deadline has passed.\<close>

definition ready_ok :: "aspec \<Rightarrow> addr \<times> int \<Rightarrow> bool" where
  "ready_ok a x \<longleftrightarrow> (case a_co a (fst x) of
     ASleep fd d \<Rightarrow> snd x = 0 \<and> fd > - 1 \<or> snd x = 1 \<and> (\<exists>n. d = Some n \<and> n \<le> a_clock a)
   | AWait k \<Rightarrow> snd x = 1 \<and> fst x \<notin> set (a_queue a k)
   | _ \<Rightarrow> False)"

definition asleep_at :: "aspec \<Rightarrow> addr \<Rightarrow> bool" where
  "asleep_at a c \<longleftrightarrow> (\<exists>fd d. a_co a c = ASleep fd d)"

definition spec_inv :: "mpc \<times> aspec \<Rightarrow> bool" where
  "spec_inv y \<longleftrightarrow> (case y of (pc, a) \<Rightarrow>
     distinct (map fst (a_ready a)) \<and> (\<forall>x \<in> set (a_ready a). ready_ok a x) \<and>
     (\<forall>k. distinct (a_queue a k) \<and> (\<forall>c \<in> set (a_queue a k). a_co a c = AWait k)) \<and>
     (pc \<noteq> AtDrain \<longrightarrow> (\<forall>x \<in> set (a_ready a). \<not> asleep_at a (fst x))) \<and>
     (\<forall>c. expired (a_clock a) a c \<longrightarrow> c \<in> fst ` set (a_ready a)) \<and>
     a_stack a \<noteq> [] \<and> distinct (a_stack a) \<and> (\<forall>c \<in> set (a_stack a). a_co a c = ARunning) \<and>
     (\<forall>c. c \<notin> a_live a \<longrightarrow> a_co a c = ANew \<or> a_co a c = ADone) \<and> (\<forall>c \<in> set (a_dead a). a_co a c = ADone \<and> c \<in> a_live a))"

lemma spec_invI:
  assumes "distinct (map fst (a_ready a))" and "\<And>x. x \<in> set (a_ready a) \<Longrightarrow> ready_ok a x"
    and "\<And>k. distinct (a_queue a k)" and "\<And>k c. c \<in> set (a_queue a k) \<Longrightarrow> a_co a c = AWait k"
    and "\<And>x. pc \<noteq> AtDrain \<Longrightarrow> x \<in> set (a_ready a) \<Longrightarrow> \<not> asleep_at a (fst x)"
    and "\<And>c. expired (a_clock a) a c \<Longrightarrow> c \<in> fst ` set (a_ready a)"
    and "a_stack a \<noteq> []" "distinct (a_stack a)" "\<And>c. c \<in> set (a_stack a) \<Longrightarrow> a_co a c = ARunning"
    and "\<And>c. c \<notin> a_live a \<Longrightarrow> a_co a c = ANew \<or> a_co a c = ADone" "\<And>c. c \<in> set (a_dead a) \<Longrightarrow> a_co a c = ADone \<and> c \<in> a_live a"
  shows "spec_inv (pc, a)"
  using assms unfolding spec_inv_def by simp

lemma spec_invD:
  assumes "spec_inv (pc, a)"
  shows "distinct (map fst (a_ready a))" and "x \<in> set (a_ready a) \<Longrightarrow> ready_ok a x"
    and "distinct (a_queue a k)" and "c \<in> set (a_queue a k) \<Longrightarrow> a_co a c = AWait k"
    and "pc \<noteq> AtDrain \<Longrightarrow> x \<in> set (a_ready a) \<Longrightarrow> \<not> asleep_at a (fst x)"
    and "expired (a_clock a) a c \<Longrightarrow> c \<in> fst ` set (a_ready a)"
    and "a_stack a \<noteq> []" "distinct (a_stack a)" "c \<in> set (a_stack a) \<Longrightarrow> a_co a c = ARunning"
    and "c \<notin> a_live a \<Longrightarrow> a_co a c = ANew \<or> a_co a c = ADone" "c \<in> set (a_dead a) \<Longrightarrow> a_co a c = ADone \<and> c \<in> a_live a"
  using assms unfolding spec_inv_def by simp_all

text \<open>Only sleeping and waiting coroutines are in the queues, so a step of another one keeps them.\<close>

definition idle :: "ast \<Rightarrow> bool" where
  "idle k \<longleftrightarrow> (\<forall>fd d. k \<noteq> ASleep fd d) \<and> (\<forall>q. k \<noteq> AWait q)"

lemma ready_not_idle: "spec_inv (pc, a) \<Longrightarrow> x \<in> set (a_ready a) \<Longrightarrow> idle (a_co a (fst x)) \<Longrightarrow> False"
  using spec_invD(2) [of pc a x] by (auto simp: ready_ok_def idle_def split: ast.splits)

lemma ready_ok_other:
  assumes "ready_ok a x" and "a_co b (fst x) = a_co a (fst x)" and "a_clock a \<le> a_clock b"
    and "\<And>k. set (a_queue b k) \<subseteq> set (a_queue a k)"
  shows "ready_ok b x"
  using assms by (auto simp: ready_ok_def split: ast.splits)

text \<open>One coroutine that is not in a queue changes its state, and everything else stays or shrinks.\<close>

lemma spec_inv_change:
  assumes inv: "spec_inv (pc, a)" and c: "idle (a_co a c)"
    and b: "a_co b = (a_co a)(c := k)" "a_ready b = a_ready a" "a_queue b = a_queue a" "a_clock b = a_clock a"
    and k: "\<not> expired (a_clock b) b c"
    and st: "a_stack b \<noteq> []" "distinct (a_stack b)" "\<forall>d \<in> set (a_stack b). if d = c then k = ARunning else d \<in> set (a_stack a)"
    and live: "\<forall>d. d \<notin> a_live b \<longrightarrow> (if d = c then k = ANew \<or> k = ADone else d \<notin> a_live a \<or> d \<in> set (a_dead a))"
    and dead: "\<forall>d \<in> set (a_dead b). d \<in> a_live b \<and> (if d = c then k = ADone else d \<in> set (a_dead a))"
  shows "spec_inv (pc, b)"
proof (rule spec_invI)
  have nr: "fst x \<noteq> c" if "x \<in> set (a_ready a)" for x using ready_not_idle [OF inv that] c by auto
  have nq: "d \<noteq> c" if "d \<in> set (a_queue a q)" for d q using spec_invD(4) [OF inv that] c by (auto simp: idle_def)
  show "distinct (map fst (a_ready b))" using spec_invD(1) [OF inv] b by simp
  show "ready_ok b x" if "x \<in> set (a_ready b)" for x
    using that b nr by (intro ready_ok_other [OF spec_invD(2) [OF inv, of x]]) auto
  show "distinct (a_queue b q)" for q using spec_invD(3) [OF inv] b by simp
  show "a_co b d = AWait q" if "d \<in> set (a_queue b q)" for q d using that spec_invD(4) [OF inv, of d q] nq b by auto
  show "\<not> asleep_at b (fst x)" if "pc \<noteq> AtDrain" "x \<in> set (a_ready b)" for x
    using spec_invD(5) [OF inv that(1), of x] that(2) nr b by (auto simp: asleep_at_def)
  show "d \<in> fst ` set (a_ready b)" if "expired (a_clock b) b d" for d
  proof -
    have "d \<noteq> c" using that k by auto
    then have "expired (a_clock a) a d" using that b by (simp add: expired_def)
    then show ?thesis using spec_invD(6) [OF inv] b by simp
  qed
  show "a_stack b \<noteq> []" "distinct (a_stack b)" by (rule st)+
  show "a_co b d = ARunning" if "d \<in> set (a_stack b)" for d
    using that st(3) spec_invD(9) [OF inv, of d] b by (auto split: if_splits)
  show "a_co b d = ANew \<or> a_co b d = ADone" if "d \<notin> a_live b" for d
    using that live spec_invD(10) [OF inv, of d] spec_invD(11) [OF inv, of d] b by (auto split: if_splits)
  show "a_co b d = ADone \<and> d \<in> a_live b" if "d \<in> set (a_dead b)" for d
    using that dead spec_invD(11) [OF inv, of d] b by (auto split: if_splits)
qed

lemma spec_inv_pc:
  assumes "spec_inv (pc, a)" and "pc = AtDrain \<Longrightarrow> a_ready a = []"
  shows "spec_inv (pc', a)"
  using assms by (auto simp: spec_inv_def)

section \<open>Every step keeps it\<close>

lemma spec_inv_poll:
  assumes inv: "spec_inv (AtPoll, a)" and now: "a_clock a \<le> now" and d: "distinct (cs @ ds)"
    and cs: "\<forall>c \<in> set cs. \<exists>fd d. a_co a c = ASleep fd d \<and> fd > - 1"
    and ds: "\<forall>c. c \<in> set ds \<longleftrightarrow> c \<notin> set cs \<and> expired now a c"
    and b: "b = a\<lparr>a_clock := now, a_ready := a_ready a @ map (\<lambda>c. (c, 0)) cs @ map (\<lambda>c. (c, 1)) ds\<rparr>"
  shows "spec_inv (AtDrain, b)"
proof (rule spec_invI)
  have new: "asleep_at a c" if "c \<in> set (cs @ ds)" for c
    using that cs ds by (auto simp: asleep_at_def expired_def)
  have old: "\<not> asleep_at a (fst x)" if "x \<in> set (a_ready a)" for x using spec_invD(5) [OF inv _ that] by simp
  have "map fst (a_ready b) = map fst (a_ready a) @ cs @ ds" by (simp add: b comp_def)
  moreover have "set (map fst (a_ready a)) \<inter> set (cs @ ds) = {}" using new old by auto
  ultimately show "distinct (map fst (a_ready b))" using d spec_invD(1) [OF inv] by auto
  have keep: "ready_ok b x" if "ready_ok a x" for x
    using that by (rule ready_ok_other) (simp_all add: b now)
  have "ready_ok b (c, 0)" if "c \<in> set cs" for c using that cs by (auto simp: ready_ok_def b)
  moreover have "ready_ok b (c, 1)" if "c \<in> set ds" for c using that ds by (auto simp: ready_ok_def b expired_def)
  moreover have "set (a_ready b) = set (a_ready a) \<union> (\<lambda>c. (c, 0)) ` set cs \<union> (\<lambda>c. (c, 1)) ` set ds" by (auto simp: b)
  ultimately show "ready_ok b x" if "x \<in> set (a_ready b)" for x
    using that keep spec_invD(2) [OF inv] by blast
  show "c \<in> fst ` set (a_ready b)" if "expired (a_clock b) b c" for c
  proof -
    have "expired now a c" using that by (simp add: b expired_def)
    then have "c \<in> set (cs @ ds)" using ds by auto
    then show ?thesis by (force simp: b)
  qed
qed (use spec_invD [OF inv] in \<open>auto simp: b\<close>)

lemma spec_inv_drain:
  assumes inv: "spec_inv (AtDrain, a)" and r: "a_ready a = (c, r) # rest"
  shows "spec_inv (AtDrain, a_resume c (a\<lparr>a_ready := rest, a_log := l\<rparr>))" (is "spec_inv (_, ?b)")
proof (rule spec_invI)
  have co: "ready_ok a (c, r)" using spec_invD(2) [OF inv] r by simp
  have nr: "fst x \<noteq> c" if "x \<in> set rest" for x using that spec_invD(1) [OF inv] r by force
  have nq: "d \<noteq> c" if "d \<in> set (a_queue a q)" for d q
    using that co spec_invD(4) [OF inv that] by (auto simp: ready_ok_def)
  have ns: "c \<notin> set (a_stack a)" using co spec_invD(9) [OF inv, of c] by (auto simp: ready_ok_def)
  show "distinct (map fst (a_ready ?b))" using spec_invD(1) [OF inv] r by (simp add: a_resume_def)
  show "ready_ok ?b x" if "x \<in> set (a_ready ?b)" for x
    using that nr r by (intro ready_ok_other [OF spec_invD(2) [OF inv, of x]]) (auto simp: a_resume_def)
  show "a_co ?b d = AWait q" if "d \<in> set (a_queue ?b q)" for q d
    using that spec_invD(4) [OF inv, of d q] nq by (auto simp: a_resume_def)
  show "d \<in> fst ` set (a_ready ?b)" if "expired (a_clock ?b) ?b d" for d
  proof -
    have "d \<noteq> c" "expired (a_clock a) a d" using that by (auto simp: expired_def a_resume_def split: if_splits)
    with spec_invD(6) [OF inv this(2)] r show ?thesis by (auto simp: a_resume_def)
  qed
  show "distinct (a_stack ?b)" using ns spec_invD(8) [OF inv] by (simp add: a_resume_def)
  show "a_co ?b d = ANew \<or> a_co ?b d = ADone" if "d \<notin> a_live ?b" for d
    using that spec_invD(10) [OF inv, of d] co by (auto simp: a_resume_def ready_ok_def)
  show "a_co ?b d = ADone \<and> d \<in> a_live ?b" if "d \<in> set (a_dead ?b)" for d
    using that spec_invD(11) [OF inv, of d] co by (auto simp: a_resume_def ready_ok_def)
qed (use spec_invD [OF inv] in \<open>auto simp: a_resume_def\<close>)

lemma spec_inv_suspend:
  assumes inv: "spec_inv (pc, a)" and st: "length (a_stack a) > 1" and k: "k \<noteq> ANew" "k \<noteq> ADone"
    and "\<And>n fd. k = ASleep fd (Some n) \<Longrightarrow> a_clock a < n"
  shows "spec_inv (pc, a_suspend k a)"
proof -
  obtain c st' where c: "a_stack a = c # st'" "st' \<noteq> []" using st by (cases "a_stack a") auto
  have run: "a_co a c = ARunning" using spec_invD(9) [OF inv] c by simp
  show ?thesis
  proof (rule spec_inv_change [OF inv, where c = c and k = k])
    show "idle (a_co a c)" by (simp add: run idle_def)
    show "\<not> expired (a_clock (a_suspend k a)) (a_suspend k a) c"
      using assms(5) by (auto simp: expired_def a_suspend_def c leD)
    show "\<forall>d. d \<notin> a_live (a_suspend k a) \<longrightarrow> (if d = c then k = ANew \<or> k = ADone else d \<notin> a_live a \<or> d \<in> set (a_dead a))"
      using spec_invD(10) [OF inv, of c] run by (auto simp: a_suspend_def)
    show "\<forall>d \<in> set (a_dead (a_suspend k a)). d \<in> a_live (a_suspend k a) \<and> (if d = c then k = ADone else d \<in> set (a_dead a))"
      using spec_invD(11) [OF inv] run by (auto simp: a_suspend_def)
  qed (use c spec_invD(8) [OF inv] in \<open>auto simp: a_suspend_def\<close>)
qed

lemma spec_inv_finish:
  assumes inv: "spec_inv (pc, a)" and st: "length (a_stack a) > 1"
  shows "spec_inv (pc, a_suspend ADone (a\<lparr>a_dead := a_dead a @ [hd (a_stack a)]\<rparr>))"
proof -
  obtain c st' where c: "a_stack a = c # st'" "st' \<noteq> []" using st by (cases "a_stack a") auto
  have run: "a_co a c = ARunning" using spec_invD(9) [OF inv] c by simp
  show ?thesis
    by (rule spec_inv_change [OF inv, where c = c and k = ADone])
      (use c run spec_invD(8,10,11) [OF inv] in \<open>force simp: a_suspend_def idle_def expired_def\<close>)+
qed

text \<open>To wait is to be suspended, and then to go to the end of a queue in which one is not.\<close>

lemma spec_inv_enqueue:
  assumes inv: "spec_inv (pc, a)" and c: "a_co a c = AWait k" "\<forall>x \<in> set (a_ready a). fst x \<noteq> c" "c \<notin> set (a_queue a k)"
  shows "spec_inv (pc, a\<lparr>a_queue := (a_queue a)(k := a_queue a k @ [c])\<rparr>)" (is "spec_inv (_, ?b)")
proof (rule spec_invI)
  show "ready_ok ?b x" if "x \<in> set (a_ready ?b)" for x
    using that spec_invD(2) [OF inv, of x] c(2) by (auto simp: ready_ok_def split: ast.splits if_splits)
  show "\<not> asleep_at ?b (fst x)" if "pc \<noteq> AtDrain" "x \<in> set (a_ready ?b)" for x
    using spec_invD(5) [OF inv that(1), of x] that(2) by (simp add: asleep_at_def)
  show "d \<in> fst ` set (a_ready ?b)" if "expired (a_clock ?b) ?b d" for d
    using that spec_invD(6) [OF inv, of d] by (simp add: expired_def)
qed (use spec_invD [OF inv] c in \<open>auto split: if_splits\<close>)

lemma spec_inv_wait:
  assumes inv: "spec_inv (pc, a)" and st: "length (a_stack a) > 1"
  shows "spec_inv (pc, a_suspend (AWait k) (a\<lparr>a_queue := (a_queue a)(k := a_queue a k @ [hd (a_stack a)])\<rparr>))"
proof -
  obtain c st' where c: "a_stack a = c # st'" using st by (cases "a_stack a") auto
  have run: "a_co a c = ARunning" using spec_invD(9) [OF inv] c by simp
  let ?b = "a_suspend (AWait k) a"
  have b: "a_co ?b = (a_co a)(c := AWait k)" "a_ready ?b = a_ready a" "a_queue ?b = a_queue a"
    by (simp_all add: a_suspend_def c)
  have "spec_inv (pc, ?b\<lparr>a_queue := (a_queue ?b)(k := a_queue ?b k @ [c])\<rparr>)"
  proof (rule spec_inv_enqueue)
    show "spec_inv (pc, ?b)" by (rule spec_inv_suspend [OF inv st]) simp_all
    show "\<forall>x \<in> set (a_ready ?b). fst x \<noteq> c"
    proof (intro ballI notI)
      fix x assume "x \<in> set (a_ready ?b)" "fst x = c"
      then show False using ready_not_idle [OF inv, of x] run by (simp add: b idle_def)
    qed
    show "c \<notin> set (a_queue ?b k)" using spec_invD(4) [OF inv, of c k] run by (auto simp: b)
  qed (simp add: b)
  moreover have "a_suspend (AWait k) (a\<lparr>a_queue := (a_queue a)(k := a_queue a k @ [c])\<rparr>) =
      ?b\<lparr>a_queue := (a_queue ?b)(k := a_queue ?b k @ [c])\<rparr>"
    by (cases a) (simp add: a_suspend_def)
  ultimately show ?thesis by (simp only: c list.sel)
qed

lemma spec_inv_wake:
  assumes inv: "spec_inv (pc, a)"
  shows "spec_inv (pc, a_wake k n a)"
proof (rule spec_invI)
  let ?b = "a_wake k n a" and ?w = "take n (a_queue a k)"
  have q: "a_queue ?b = (a_queue a)(k := drop n (a_queue a k))" "a_ready ?b = a_ready a @ map (\<lambda>c. (c, 1)) ?w"
    "a_co ?b = a_co a" "a_clock ?b = a_clock a" by (simp_all add: a_wake_def)
  have sub: "set (a_queue ?b i) \<subseteq> set (a_queue a i)" for i by (auto simp: q dest: in_set_dropD)
  have w: "a_co a c = AWait k" "c \<in> set (a_queue a k)" if "c \<in> set ?w" for c
    using that spec_invD(4) [OF inv, of c k] by (auto dest: in_set_takeD)
  have dj: "set ?w \<inter> set (drop n (a_queue a k)) = {}" using set_take_disj_set_drop_if_distinct [OF spec_invD(3) [OF inv]] by blast
  have nr: "fst x \<notin> set ?w" if "x \<in> set (a_ready a)" for x
  proof
    assume "fst x \<in> set ?w"
    with w [of "fst x"] spec_invD(2) [OF inv that] show False by (simp add: ready_ok_def)
  qed
  have m: "map fst (a_ready ?b) = map fst (a_ready a) @ ?w" by (simp add: q comp_def)
  show "distinct (map fst (a_ready ?b))"
    unfolding m distinct_append set_map
    using spec_invD(1) [OF inv] distinct_take [OF spec_invD(3) [OF inv]] nr by blast
  have "ready_ok ?b (c, 1)" if "c \<in> set ?w" for c
  proof -
    have "c \<notin> set (a_queue ?b k)" using that dj by (auto simp: q(1))
    then show ?thesis using w(1) [OF that] by (simp add: ready_ok_def q(3))
  qed
  moreover have "ready_ok ?b x" if "ready_ok a x" for x by (rule ready_ok_other [OF that]) (simp_all only: q(3,4) sub order_refl)
  moreover have "set (a_ready ?b) = set (a_ready a) \<union> (\<lambda>c. (c, 1)) ` set ?w" by (simp add: q(2))
  ultimately show "ready_ok ?b x" if "x \<in> set (a_ready ?b)" for x
    using that spec_invD(2) [OF inv, of x] by blast
  show "distinct (a_queue ?b i)" for i using spec_invD(3) [OF inv] by (simp add: q distinct_drop)
  show "a_co ?b c = AWait i" if "c \<in> set (a_queue ?b i)" for i c
    unfolding q(3) by (rule spec_invD(4) [OF inv subsetD [OF sub that]])
  show "\<not> asleep_at ?b (fst x)" if "pc \<noteq> AtDrain" "x \<in> set (a_ready ?b)" for x
    using spec_invD(5) [OF inv that(1), of x] that(2) w by (auto simp: asleep_at_def q)
  show "c \<in> fst ` set (a_ready ?b)" if "expired (a_clock ?b) ?b c" for c
    using that spec_invD(6) [OF inv, of c] by (auto simp: expired_def q)
qed (use spec_invD [OF inv] in \<open>auto simp: a_wake_def\<close>)

lemma spec_inv_step: "astep y z \<Longrightarrow> spec_inv y \<Longrightarrow> spec_inv z"
proof (induction rule: astep.induct)
  case (poll a now cs ds)
  then show ?case by (intro spec_inv_poll) simp_all
next
  case (drain a c r rest)
  then show ?case by (intro spec_inv_drain) simp_all
next
  case (func_clear a)
  let ?c = "hd (a_stack a)"
  have c: "a_co a ?c = ARunning" "?c \<in> set (a_stack a)" using spec_invD(7,9) [OF func_clear(2)] by simp_all
  have "?c \<in> a_live a" "?c \<notin> set (a_dead a)" using c(1) spec_invD(10,11) [OF func_clear(2), of ?c] by auto
  then show ?case
    by (intro spec_inv_pc [OF spec_inv_change [OF func_clear(2), where c = ?c and k = ARunning]])
      (use spec_invD(7,8) [OF func_clear(2)] c in \<open>auto simp: idle_def expired_def fun_upd_idem\<close>)
next
  case (new_co pc a c)
  have c: "a_co a c = ANew \<or> a_co a c = ADone" "c \<notin> set (a_stack a)"
    using spec_invD(9,10) [OF new_co(3), of c] new_co(2) by auto
  then show ?case
    by (intro spec_inv_change [OF new_co(3), where c = c and k = ANew])
      (use new_co(2) spec_invD(7,8,11) [OF new_co(3)] in \<open>auto simp: idle_def expired_def\<close>)
next
  case (resume_new pc a c)
  have c: "c \<notin> set (a_stack a)" "c \<notin> set (a_dead a)"
    using spec_invD(9,11) [OF resume_new(4), of c] resume_new(3) by auto
  then show ?case
    by (intro spec_inv_change [OF resume_new(4), where c = c and k = ARunning])
      (use resume_new(2,3) spec_invD(7,8,11) [OF resume_new(4)] in \<open>auto simp: a_resume_def idle_def expired_def\<close>)
next
  case (yield a pc)
  then show ?case by (intro spec_inv_suspend) simp_all
next
  case (finish a pc)
  then show ?case by (intro spec_inv_finish)
next
  case (sleep a fd d pc)
  then show ?case by (intro spec_inv_suspend) simp_all
next
  case (wait a pc k)
  then show ?case by (intro spec_inv_wait)
next
  case (signal pc a k)
  then show ?case by (intro spec_inv_wake)
next
  case (broadcast pc a k)
  then show ?case by (intro spec_inv_wake)
qed (auto intro: spec_inv_pc)

lemma spec_inv_init: "spec_inv (Outside, aspec0 m now)"
  by (rule spec_invI) (auto simp: aspec0_def expired_def split: if_splits)

text \<open>What holds in every state of a specification holds behind every state of a machine that refines it.\<close>

context simulation
begin

lemma sim_inv:
  assumes "init s" and "step\<^sup>*\<^sup>* s t" and "\<And>a. ainit a \<Longrightarrow> I a" and "\<And>a b. astep a b \<Longrightarrow> I a \<Longrightarrow> I b"
  shows "\<exists>b. rel t b \<and> I b"
proof -
  obtain a b where "ainit a" "astep\<^sup>*\<^sup>* a b" "rel t b" using sim_reach [OF assms(1,2)] by blast
  moreover from this(2) have "I a \<Longrightarrow> I b" by (induction rule: rtranclp_induct) (use assms(4) in auto)
  ultimately show ?thesis using assms(3) by blast
qed

end

lemma reachable_spec:
  assumes "fresh_sched m a b slots now" and "step\<^sup>*\<^sup>* (Sys Outside (new_scheduler m a b slots now)) (Sys pc s)"
  shows "\<exists>x A. spec_inv (pc, x) \<and> dll (hp s) (active_link (sch_epoll s)) A \<and> matches A s x"
proof -
  from sched_sim.sim_inv [of m _ "Sys pc s" spec_inv] assms spec_inv_init spec_inv_step obtain y where
    "abs_rel (Sys pc s) y" "spec_inv y" by blast
  then show ?thesis by (cases y) (auto simp: abs_rel_def)
qed

section \<open>Properties\<close>

text \<open>
  C10. Sleepers are woken on time, for callers that keep to \<open>call_ok\<close>: every \<open>register_event\<close> of the run has no
  timeout, or one above the size of the wheel (which is refused), or a positive one whose deadline is
  less than a turn after the last poll, on a descriptor of its own. (A timeout of exactly a turn
  is accepted and fires at once, and a later deadline is dropped; both are excluded here and
  treated in \<open>full_turn_fires_at_once\<close> and \<open>late_deadline_faults\<close>.) Let a coroutine be inside
  \<open>register_event\<close>. If its node is in the active list, so that the event loop will resume it, its
  call will return a timeout only if its deadline is not after the last poll, and it will report
  an event only for a descriptor. Conversely, a coroutine whose deadline is not after the last
  poll is in the active list, and outside the loop over this list nobody is: a deadline that has
  passed at a poll has been served before the next one.
\<close>

theorem sleepers_on_time:
  assumes "fresh_sched m a b slots now" and "thread_run (Sys Outside (new_scheduler m a b slots now)) tr (Sys pc s)"
    and "calls_ok tr" and "susp s c = InRegister fd e t" and "dll (hp s) (active_link (sch_epoll s)) A"
  shows "(t \<in> set A \<longrightarrow> (\<exists>x. eitems s e = Some x \<and> (if ei_is_timeout x
       then \<exists>n. expire_of (hp s) t = Some n \<and> 0 < n \<and> n \<le> unat (w_start (sch_tw s)) else fd > - 1))) \<and>
     (\<forall>n. expire_of (hp s) t = Some n \<longrightarrow> 0 < n \<longrightarrow> n \<le> unat (w_start (sch_tw s)) \<longrightarrow> t \<in> set A \<and> pc = AtDrain)"
proof -
  note reach = thread_run_steps [OF assms(2,3)]
  obtain y where y: "spec_inv (pc, y)" "matches A s y"
    using reachable_spec [OF assms(1) reach] dll_unique [OF assms(5)] by blast
  have m: "a_co y = (\<lambda>c. akont (expire_of (hp s)) (susp s c))" "a_clock y = unat (w_start (sch_tw s))"
    "ready_rel (susp s) (eitems s) A (a_ready y)" using y(2) unfolding matches_def by blast+
  have co: "a_co y c = ASleep fd (if expire_of (hp s) t = Some 0 then None else expire_of (hp s) t)"
    by (simp add: m(1) assms(4))
  have recs: "recs_ok (susp s) (own_of s) (item_of (hp s))"
    using reachable_inv [OF assms(1) reach] by (auto simp: sched_inv_def waits_def dest: waitsD(1))
  have item: "\<exists>x. eitems s e = Some x" using recsD(2) [OF recs assms(4)] by (auto simp: own_of_def)
  have node: "d = c \<longleftrightarrow> t' = t" if "node_of (susp s d) = Some (e', t')" for d e' t'
    using recs_inj(2) [OF recs that, of c e t] assms(4) by simp
  note rel = list_all2_setD [OF m(3) [unfolded ready_rel_def]]
  have "\<exists>x. eitems s e = Some x \<and> (if ei_is_timeout x
       then \<exists>n. expire_of (hp s) t = Some n \<and> 0 < n \<and> n \<le> unat (w_start (sch_tw s)) else fd > - 1)" if "t \<in> set A"
  proof -
    from rel(2) [OF that] obtain d r e' where d: "(d, r) \<in> set (a_ready y)" "node_of (susp s d) = Some (e', t)"
      "r = result (eitems s) (susp s d)" by auto
    from node [OF d(2)] have "d = c" by simp
    with d spec_invD(2) [OF y(1) d(1)] item co m(2) assms(4) show ?thesis
      by (auto simp: ready_ok_def result_def split: if_splits)
  qed
  moreover have "t \<in> set A \<and> pc = AtDrain" if n: "expire_of (hp s) t = Some n" "0 < n" "n \<le> unat (w_start (sch_tw s))" for n
  proof -
    have "expired (a_clock y) y c" using n co m(2) by (simp add: expired_def)
    from spec_invD(6) [OF y(1) this] obtain r where r: "(c, r) \<in> set (a_ready y)" by auto
    from rel(1) [OF r] obtain t' e' where "t' \<in> set A" "node_of (susp s c) = Some (e', t')" by auto
    moreover have "asleep_at y c" using co by (auto simp: asleep_at_def)
    ultimately show ?thesis using spec_invD(5) [OF y(1) _ r] assms(4) by auto
  qed
  ultimately show ?thesis by blast
qed

theorem sleepers_on_time_witness:
  "\<exists>s s' A. register_begin 7 25 100 5 50 51 run2 = Some (Inr (), s) \<and> loop_collect [] 70000 s = Some (False, s') \<and>
     dll (hp s') (active_link (sch_epoll s')) A \<and> 51 \<in> set A"
proof -
  obtain s where s: "register_begin 7 25 100 5 50 51 run2 = Some (Inr (), s)" "step\<^sup>*\<^sup>* (Sys Outside run0) (Sys AtPoll s)"
    "sched_inv 1 AtPoll s" "susp s 9 = InRegister 7 50 51" "expire_of (hp s) 51 = Some 105"
    "length (co_call_stack s) = 1" "events_ok [] s" "time_ok 70000 s" using sleeper_run [of 25] by blast
  from s(3) obtain L A where "lists_ok L A s" by (auto simp: sched_inv_def)
  from poll_round_inv [OF s(3,7,8) lists_ok_active [OF this]] obtain s' A' where
    s': "loop_collect [] 70000 s = Some (False, s')" "collected s s'" "dll (hp s') (active_link (sch_epoll s)) A'"
      "w_start (sch_tw s') = 70000" by blast
  have "step (Sys AtPoll s) (Sys AtDrain s')"
    using step.poll [OF s(6-8)] s'(1) by (simp add: loop_collected_def)
  with s(2) have r: "step\<^sup>*\<^sup>* (Sys Outside run0) (Sys AtDrain s')" by (rule rtranclp.rtrancl_into_rtrancl)
  have "susp s' 9 = InRegister 7 50 51" "dll (hp s') (active_link (sch_epoll s')) A'" "expire_of (hp s') 51 = Some 105"
    using s(4,5) s'(2,3) by (simp_all add: collected_def)
  note here = this
  from steps_thread_run [OF r] obtain tr where tr: "thread_run (Sys Outside run0) tr (Sys AtDrain s')" "calls_ok tr" by blast
  from sleepers_on_time [OF fresh0 tr(1) [unfolded run0_def] tr(2) here(1,2)] here s(1) s'(1,4) show ?thesis by auto
qed

end
