(* ===== verification/Channel.thy ===== *)
theory Channel
  imports Sched_Props
begin

text \<open>
  The bounded channel of \<open>channel.h\<close>. Its operations call two condition variables; the
  locale \<open>cond_var\<close> is what they rely on there, \<open>chan_step\<close> is a channel used by any
  number of coroutines, and the lemmas of the locale are the correctness of the channel.
  The interpretation \<open>cc\<close> on the scheduler shows that \<open>co_condition\<close> keeps the contract.
\<close>

section \<open>The channel\<close>

text \<open>The operations of a condition variable, for a wait with the new objects \<open>'n\<close>.\<close>

record ('k, 'n, 's) cv =
  cv_wait :: "'k \<Rightarrow> 'n \<Rightarrow> 's \<Rightarrow> 's option"
  cv_signal :: "'k \<Rightarrow> 's \<Rightarrow> (int \<times> 's) option"
  cv_broadcast :: "'k \<Rightarrow> 's \<Rightarrow> (int \<times> 's) option"

record ('a, 'k) channel =
  ch_cap :: int
  ch_size :: int
  ch_is_yield :: bool
  ch_close :: bool
  ch_empty :: 'k
  ch_full :: 'k
  ch_queue :: "'a list"

definition new_channel :: "int \<Rightarrow> 'k \<Rightarrow> 'k \<Rightarrow> ('a, 'k) channel" where
  "new_channel cap ke kf = \<lparr>ch_cap = cap, ch_size = 0, ch_is_yield = False, ch_close = False,
     ch_empty = ke, ch_full = kf, ch_queue = []\<rparr>"

definition isfull :: "('a, 'k) channel \<Rightarrow> bool" where
  "isfull ch \<longleftrightarrow> ch_cap ch = ch_size ch"

definition isempty :: "('a, 'k) channel \<Rightarrow> bool" where
  "isempty ch \<longleftrightarrow> ch_size ch = 0"

text \<open>
  An operation returns, or the calling coroutine goes to sleep in \<open>co_cond_wait\<close>. When it
  is resumed it tests \<open>close_\<close> and then the condition of its loop, which is what the
  operation does when it is called; so \<open>put\<close> and \<open>get\<close> are also what a resumed
  coroutine executes next.
\<close>

datatype 'r chres = Blocked | Ret 'r

definition put :: "('k, 'n, 's) cv \<Rightarrow> 'a \<Rightarrow> 'n \<Rightarrow> ('a, 'k) channel \<Rightarrow> 's \<Rightarrow>
    (bool chres \<times> ('a, 'k) channel \<times> 's) option" where
  "put cv val n ch s =
     (if ch_close ch then Some (Ret False, ch, s)
      else if ch_size ch = ch_cap ch then do {
        let ch = ch\<lparr>ch_is_yield := True\<rparr>;
        s \<leftarrow> cv_wait cv (ch_full ch) n s;
        Some (Blocked, ch, s)
      } else do {
        let ch = ch\<lparr>ch_is_yield := False\<rparr>;
        let ch = ch\<lparr>ch_queue := ch_queue ch @ [val]\<rparr>;
        let ch = ch\<lparr>ch_size := ch_size ch + 1\<rparr>;
        (_, s) \<leftarrow> cv_signal cv (ch_empty ch) s;
        Some (Ret True, ch, s)
      })"

text \<open>\<open>get\<close> returns the value through its parameter: \<open>Ret (Some v)\<close> is true, \<open>Ret None\<close> false.\<close>

definition get :: "('k, 'n, 's) cv \<Rightarrow> 'n \<Rightarrow> ('a, 'k) channel \<Rightarrow> 's \<Rightarrow>
    ('a option chres \<times> ('a, 'k) channel \<times> 's) option" where
  "get cv n ch s =
     (if ch_close ch then Some (Ret None, ch, s)
      else if ch_size ch = 0 then do {
        let ch = ch\<lparr>ch_is_yield := True\<rparr>;
        s \<leftarrow> cv_wait cv (ch_empty ch) n s;
        Some (Blocked, ch, s)
      } else do {
        let ch = ch\<lparr>ch_is_yield := False\<rparr>;
        val \<leftarrow> (case ch_queue ch of [] \<Rightarrow> None | v # _ \<Rightarrow> Some v);
        let ch = ch\<lparr>ch_queue := List.tl (ch_queue ch)\<rparr>;
        let ch = ch\<lparr>ch_size := ch_size ch - 1\<rparr>;
        (_, s) \<leftarrow> cv_signal cv (ch_full ch) s;
        Some (Ret (Some val), ch, s)
      })"

definition close_chan :: "('k, 'n, 's) cv \<Rightarrow> ('a, 'k) channel \<Rightarrow> 's \<Rightarrow> (('a, 'k) channel \<times> 's) option" where
  "close_chan cv ch s = do {
     let ch = ch\<lparr>ch_close := True\<rparr>;
     (_, s) \<leftarrow> cv_broadcast cv (ch_full ch) s;
     (_, s) \<leftarrow> cv_broadcast cv (ch_empty ch) s;
     Some (ch, s)
   }"

section \<open>The channel and its users\<close>

datatype 'a op = Put 'a | Get

text \<open>
  \<open>pend c\<close> is the operation the coroutine \<open>c\<close> is inside of while it waits, is ready, or
  has just been resumed. \<open>sent\<close> and \<open>recvd\<close> are the values of the completed operations.
\<close>

record ('a, 'k, 's) csys =
  chan :: "('a, 'k) channel"
  sched_of :: 's
  pend :: "nat \<Rightarrow> 'a op option"
  sent :: "'a list"
  recvd :: "'a list"

definition put_done :: "nat \<Rightarrow> 'a \<Rightarrow> bool chres \<times> ('a, 'k) channel \<times> 's \<Rightarrow> ('a, 'k, 's) csys \<Rightarrow> ('a, 'k, 's) csys" where
  "put_done c v r x = (case r of (res, ch, s) \<Rightarrow>
     x\<lparr>chan := ch, sched_of := s, pend := (pend x)(c := if res = Blocked then Some (Put v) else None),
       sent := sent x @ (if res = Ret True then [v] else [])\<rparr>)"

definition get_done :: "nat \<Rightarrow> 'a option chres \<times> ('a, 'k) channel \<times> 's \<Rightarrow> ('a, 'k, 's) csys \<Rightarrow> ('a, 'k, 's) csys" where
  "get_done c r x = (case r of (res, ch, s) \<Rightarrow>
     x\<lparr>chan := ch, sched_of := s, pend := (pend x)(c := if res = Blocked then Some Get else None),
       recvd := recvd x @ (case res of Ret (Some v) \<Rightarrow> [v] | _ \<Rightarrow> [])\<rparr>)"

text \<open>
  The steps: the running coroutine calls or goes on with an operation, closes the channel,
  or the rest of the thread moves without touching the two private conditions.
\<close>

inductive chan_step ::
    "('k, 'n, 's) cv \<Rightarrow> ('s \<Rightarrow> bool) \<Rightarrow> ('s \<Rightarrow> nat option) \<Rightarrow> ('n \<Rightarrow> 's \<Rightarrow> bool) \<Rightarrow> ('s \<Rightarrow> 'k \<Rightarrow> nat list) \<Rightarrow>
     ('a, 'k, 's) csys \<Rightarrow> ('a, 'k, 's) csys \<Rightarrow> bool"
  for cv inv running fresh waiting where
  do_put: "running (sched_of x) = Some c \<Longrightarrow> pend x c = None \<or> pend x c = Some (Put v) \<Longrightarrow> fresh n (sched_of x) \<Longrightarrow>
     put cv v n (chan x) (sched_of x) = Some r \<Longrightarrow> chan_step cv inv running fresh waiting x (put_done c v r x)"
| do_get: "running (sched_of x) = Some c \<Longrightarrow> pend x c = None \<or> pend x c = Some Get \<Longrightarrow> fresh n (sched_of x) \<Longrightarrow>
     get cv n (chan x) (sched_of x) = Some r \<Longrightarrow> chan_step cv inv running fresh waiting x (get_done c r x)"
| do_close: "close_chan cv (chan x) (sched_of x) = Some (ch, s) \<Longrightarrow>
     chan_step cv inv running fresh waiting x (x\<lparr>chan := ch, sched_of := s\<rparr>)"
| others: "inv s \<Longrightarrow> waiting s (ch_empty (chan x)) = waiting (sched_of x) (ch_empty (chan x)) \<Longrightarrow>
     waiting s (ch_full (chan x)) = waiting (sched_of x) (ch_full (chan x)) \<Longrightarrow>
     chan_step cv inv running fresh waiting x (x\<lparr>sched_of := s\<rparr>)"

section \<open>The invariant\<close>

definition woken_getters :: "nat list \<Rightarrow> (nat \<Rightarrow> 'a op option) \<Rightarrow> nat set" where
  "woken_getters w p = {c. p c = Some Get \<and> c \<notin> set w}"

definition woken_putters :: "nat list \<Rightarrow> (nat \<Rightarrow> 'a op option) \<Rightarrow> nat set" where
  "woken_putters w p = {c. (\<exists>v. p c = Some (Put v)) \<and> c \<notin> set w}"

text \<open>
  The counting argument that no wake-up is lost: while a getter waits, there are at least
  as many woken getters as values, and while a putter waits, at least as many woken
  putters as free places.
\<close>

definition chan_ok :: "('a, 'k) channel \<Rightarrow> nat list \<Rightarrow> nat list \<Rightarrow> (nat \<Rightarrow> 'a op option) \<Rightarrow> 'a list \<Rightarrow> 'a list \<Rightarrow> bool" where
  "chan_ok ch wE wF p snt rcv \<longleftrightarrow>
     ch_size ch = int (length (ch_queue ch)) \<and> ch_size ch \<le> ch_cap ch \<and> snt = rcv @ ch_queue ch \<and>
     ch_empty ch \<noteq> ch_full ch \<and> finite (dom p) \<and> distinct wE \<and> distinct wF \<and>
     (\<forall>c \<in> set wE. p c = Some Get) \<and> (\<forall>c \<in> set wF. \<exists>v. p c = Some (Put v)) \<and>
     (ch_close ch \<longrightarrow> wE = [] \<and> wF = []) \<and>
     (wE \<noteq> [] \<longrightarrow> ch_size ch \<le> int (card (woken_getters wE p))) \<and>
     (wF \<noteq> [] \<longrightarrow> ch_cap ch - ch_size ch \<le> int (card (woken_putters wF p)))"

lemma finite_woken: "finite (dom p) \<Longrightarrow> finite (woken_getters w p)" "finite (dom p) \<Longrightarrow> finite (woken_putters w p)"
  by (auto simp: woken_getters_def woken_putters_def intro: finite_subset [of _ "dom p"])

lemma card_woken_pop:
  assumes "finite (dom p)" and "distinct w" and "\<forall>c \<in> set w. p c = Some Get" and "w \<noteq> []"
  shows "card (woken_getters (List.tl w) p) = Suc (card (woken_getters w p))"
proof -
  from assms(4) obtain a w' where w: "w = a # w'" by (cases w) auto
  then have "woken_getters (List.tl w) p = insert a (woken_getters w p)" "a \<notin> woken_getters w p"
    using assms(2,3) by (auto simp: woken_getters_def)
  then show ?thesis using finite_woken(1) [OF assms(1)] by simp
qed

lemma card_woken_pop_put:
  assumes "finite (dom p)" and "distinct w" and "\<forall>c \<in> set w. \<exists>v. p c = Some (Put v)" and "w \<noteq> []"
  shows "card (woken_putters (List.tl w) p) = Suc (card (woken_putters w p))"
proof -
  from assms(4) obtain a w' where w: "w = a # w'" by (cases w) auto
  then have "woken_putters (List.tl w) p = insert a (woken_putters w p)" "a \<notin> woken_putters w p"
    using assms(2,3) by (auto simp: woken_putters_def)
  then show ?thesis using finite_woken(2) [OF assms(1)] by simp
qed

lemma card_woken_done:
  assumes "finite (dom p)"
  shows "card (woken_getters w p) \<le> Suc (card (woken_getters w (p(c := None))))"
    "card (woken_putters w p) \<le> Suc (card (woken_putters w (p(c := None))))"
    "p c \<noteq> Some Get \<Longrightarrow> woken_getters w (p(c := None)) = woken_getters w p"
    "\<forall>v. p c \<noteq> Some (Put v) \<Longrightarrow> woken_putters w (p(c := None)) = woken_putters w p"
proof -
  have "woken_getters w (p(c := None)) = woken_getters w p - {c}"
    "woken_putters w (p(c := None)) = woken_putters w p - {c}"
    by (auto simp: woken_getters_def woken_putters_def)
  with finite_woken [OF assms]
  show "card (woken_getters w p) \<le> Suc (card (woken_getters w (p(c := None))))"
    "card (woken_putters w p) \<le> Suc (card (woken_putters w (p(c := None))))"
    by (auto simp: card_Diff_singleton_if)
qed (auto simp: woken_getters_def woken_putters_def)

lemma chan_ok_put:
  assumes ok: "chan_ok ch wE wF p snt rcv" and st: "\<not> ch_close ch" "ch_size ch \<noteq> ch_cap ch"
    and c: "c \<notin> set wE" "c \<notin> set wF" "p c = None \<or> p c = Some (Put v)"
  shows "chan_ok (ch\<lparr>ch_is_yield := False, ch_queue := ch_queue ch @ [v], ch_size := ch_size ch + 1\<rparr>)
     (List.tl wE) wF (p(c := None)) (snt @ [v]) rcv"
proof -
  have fin: "finite (dom p)" and dE: "distinct wE" and gE: "\<forall>c \<in> set wE. p c = Some Get"
    and nE: "wE \<noteq> [] \<Longrightarrow> ch_size ch \<le> int (card (woken_getters wE p))"
    and nF: "wF \<noteq> [] \<Longrightarrow> ch_cap ch - ch_size ch \<le> int (card (woken_putters wF p))"
    using ok by (auto simp: chan_ok_def)
  have sub: "set (List.tl wE) \<subseteq> set wE" by (cases wE) auto
  have E: "ch_size ch + 1 \<le> int (card (woken_getters (List.tl wE) (p(c := None))))" if "List.tl wE \<noteq> []"
  proof -
    have "wE \<noteq> []" using that by auto
    with nE card_woken_pop [OF fin dE gE] card_woken_done(3) [OF fin, of c "List.tl wE"] c(3) show ?thesis by auto
  qed
  have F: "ch_cap ch - (ch_size ch + 1) \<le> int (card (woken_putters wF (p(c := None))))" if "wF \<noteq> []"
    using nF [OF that] card_woken_done(2) [OF fin, of wF c] by simp
  show ?thesis
    using ok st c(1,2) sub E F by (auto simp: chan_ok_def distinct_tl)
qed

lemma chan_ok_get:
  assumes ok: "chan_ok ch wE wF p snt rcv" and st: "\<not> ch_close ch" "ch_queue ch = v # q"
    and c: "c \<notin> set wE" "c \<notin> set wF" "p c = None \<or> p c = Some Get"
  shows "chan_ok (ch\<lparr>ch_is_yield := False, ch_queue := q, ch_size := ch_size ch - 1\<rparr>)
     wE (List.tl wF) (p(c := None)) snt (rcv @ [v])"
proof -
  have fin: "finite (dom p)" and dF: "distinct wF" and gF: "\<forall>c \<in> set wF. \<exists>v. p c = Some (Put v)"
    and nE: "wE \<noteq> [] \<Longrightarrow> ch_size ch \<le> int (card (woken_getters wE p))"
    and nF: "wF \<noteq> [] \<Longrightarrow> ch_cap ch - ch_size ch \<le> int (card (woken_putters wF p))"
    using ok by (auto simp: chan_ok_def)
  have sub: "set (List.tl wF) \<subseteq> set wF" by (cases wF) auto
  have F: "ch_cap ch - (ch_size ch - 1) \<le> int (card (woken_putters (List.tl wF) (p(c := None))))" if "List.tl wF \<noteq> []"
  proof -
    have "wF \<noteq> []" using that by auto
    with nF card_woken_pop_put [OF fin dF gF] card_woken_done(4) [OF fin, of c "List.tl wF"] c(3) show ?thesis by auto
  qed
  have E: "ch_size ch - 1 \<le> int (card (woken_getters wE (p(c := None))))" if "wE \<noteq> []"
    using nE [OF that] card_woken_done(1) [OF fin, of wE c] by simp
  show ?thesis
    using ok st c(1,2) sub E F by (auto simp: chan_ok_def distinct_tl)
qed

lemma chan_ok_put_block:
  assumes ok: "chan_ok ch wE wF p snt rcv" and st: "\<not> ch_close ch" "ch_size ch = ch_cap ch"
    and c: "c \<notin> set wE" "c \<notin> set wF" "p c = None \<or> p c = Some (Put v)"
  shows "chan_ok (ch\<lparr>ch_is_yield := True\<rparr>) wE (wF @ [c]) (p(c \<mapsto> Put v)) snt rcv"
proof -
  have "woken_getters wE (p(c \<mapsto> Put v)) = woken_getters wE p"
    using c(3) by (auto simp: woken_getters_def)
  with ok st c(1,2) show ?thesis by (auto simp: chan_ok_def)
qed

lemma chan_ok_get_block:
  assumes ok: "chan_ok ch wE wF p snt rcv" and st: "\<not> ch_close ch" "ch_size ch = 0"
    and c: "c \<notin> set wE" "c \<notin> set wF" "p c = None \<or> p c = Some Get"
  shows "chan_ok (ch\<lparr>ch_is_yield := True\<rparr>) (wE @ [c]) wF (p(c \<mapsto> Get)) snt rcv"
proof -
  have "woken_putters wF (p(c \<mapsto> Get)) = woken_putters wF p"
    using c(3) by (auto simp: woken_putters_def)
  with ok st c(1,2) show ?thesis by (auto simp: chan_ok_def)
qed

lemma chan_ok_closed:
  assumes "chan_ok ch wE wF p snt rcv" and "ch_close ch"
  shows "chan_ok ch wE wF (p(c := None)) snt rcv"
  using assms by (auto simp: chan_ok_def)

lemma chan_ok_close:
  assumes "chan_ok ch wE wF p snt rcv"
  shows "chan_ok (ch\<lparr>ch_close := True\<rparr>) [] [] p snt rcv"
  using assms by (auto simp: chan_ok_def)

section \<open>What the channel needs from condition variables\<close>

locale cond_var =
  fixes cv :: "('k, 'n, 's) cv"
    and inv :: "'s \<Rightarrow> bool"
    and running :: "'s \<Rightarrow> nat option"
    and fresh :: "'n \<Rightarrow> 's \<Rightarrow> bool"
    and waiting :: "'s \<Rightarrow> 'k \<Rightarrow> nat list"
  assumes running_awake: "inv s \<Longrightarrow> running s = Some c \<Longrightarrow> c \<notin> set (waiting s k)"
    and wait_ok: "inv s \<Longrightarrow> running s = Some c \<Longrightarrow> fresh n s \<Longrightarrow>
      \<exists>s'. cv_wait cv k n s = Some s' \<and> inv s' \<and> waiting s' = (waiting s)(k := waiting s k @ [c])"
    and signal_ok: "inv s \<Longrightarrow>
      \<exists>r s'. cv_signal cv k s = Some (r, s') \<and> inv s' \<and> waiting s' = (waiting s)(k := List.tl (waiting s k))"
    and broadcast_ok: "inv s \<Longrightarrow>
      \<exists>r s'. cv_broadcast cv k s = Some (r, s') \<and> inv s' \<and> waiting s' = (waiting s)(k := [])"
begin

definition ok :: "('a, 'k, 's) csys \<Rightarrow> bool" where
  "ok x \<longleftrightarrow> inv (sched_of x) \<and> chan_ok (chan x) (waiting (sched_of x) (ch_empty (chan x)))
     (waiting (sched_of x) (ch_full (chan x))) (pend x) (sent x) (recvd x)"

lemma put_ok:
  assumes x: "ok x" and c: "running (sched_of x) = Some c" "pend x c = None \<or> pend x c = Some (Put v)"
    and n: "fresh n (sched_of x)"
  shows "\<exists>r. put cv v n (chan x) (sched_of x) = Some r \<and> ok (put_done c v r x)"
proof -
  let ?s = "sched_of x" and ?ch = "chan x"
  have inv: "inv ?s" and co: "chan_ok ?ch (waiting ?s (ch_empty ?ch)) (waiting ?s (ch_full ?ch)) (pend x) (sent x) (recvd x)"
    using x by (auto simp: ok_def)
  have ne: "ch_empty ?ch \<noteq> ch_full ?ch" using co by (simp add: chan_ok_def)
  note cw = running_awake [OF inv c(1)]
  show ?thesis
  proof (cases "ch_close ?ch")
    case True
    with x chan_ok_closed [OF co True] show ?thesis by (simp add: put_def put_done_def ok_def)
  next
    case False
    show ?thesis
    proof (cases "ch_size ?ch = ch_cap ?ch")
      case True
      from wait_ok [OF inv c(1) n, of "ch_full ?ch"] obtain s' where
        s': "cv_wait cv (ch_full ?ch) n ?s = Some s'" "inv s'"
          "waiting s' = (waiting ?s)(ch_full ?ch := waiting ?s (ch_full ?ch) @ [c])" by blast
      with False True ne chan_ok_put_block [OF co False True cw cw c(2)] show ?thesis
        by (simp add: put_def put_done_def ok_def Let_def)
    next
      case room: False
      from signal_ok [OF inv, of "ch_empty ?ch"] obtain r s' where
        s': "cv_signal cv (ch_empty ?ch) ?s = Some (r, s')" "inv s'"
          "waiting s' = (waiting ?s)(ch_empty ?ch := List.tl (waiting ?s (ch_empty ?ch)))" by blast
      with False room ne chan_ok_put [OF co False room cw cw c(2)] show ?thesis
        by (simp add: put_def put_done_def ok_def Let_def)
    qed
  qed
qed

lemma get_ok:
  assumes x: "ok x" and c: "running (sched_of x) = Some c" "pend x c = None \<or> pend x c = Some Get"
    and n: "fresh n (sched_of x)"
  shows "\<exists>r. get cv n (chan x) (sched_of x) = Some r \<and> ok (get_done c r x)"
proof -
  let ?s = "sched_of x" and ?ch = "chan x"
  have inv: "inv ?s" and co: "chan_ok ?ch (waiting ?s (ch_empty ?ch)) (waiting ?s (ch_full ?ch)) (pend x) (sent x) (recvd x)"
    using x by (auto simp: ok_def)
  have ne: "ch_empty ?ch \<noteq> ch_full ?ch" and sz: "ch_size ?ch = int (length (ch_queue ?ch))"
    using co by (auto simp: chan_ok_def)
  note cw = running_awake [OF inv c(1)]
  show ?thesis
  proof (cases "ch_close ?ch")
    case True
    with x chan_ok_closed [OF co True] show ?thesis by (simp add: get_def get_done_def ok_def)
  next
    case False
    show ?thesis
    proof (cases "ch_queue ?ch")
      case Nil
      then have z: "ch_size ?ch = 0" using sz by simp
      from wait_ok [OF inv c(1) n, of "ch_empty ?ch"] obtain s' where
        s': "cv_wait cv (ch_empty ?ch) n ?s = Some s'" "inv s'"
          "waiting s' = (waiting ?s)(ch_empty ?ch := waiting ?s (ch_empty ?ch) @ [c])" by blast
      with False z ne chan_ok_get_block [OF co False z cw cw c(2)] show ?thesis
        by (simp add: get_def get_done_def ok_def Let_def)
    next
      case (Cons v q)
      from signal_ok [OF inv, of "ch_full ?ch"] obtain r s' where
        s': "cv_signal cv (ch_full ?ch) ?s = Some (r, s')" "inv s'"
          "waiting s' = (waiting ?s)(ch_full ?ch := List.tl (waiting ?s (ch_full ?ch)))" by blast
      with False Cons sz ne chan_ok_get [OF co False Cons cw cw c(2)] show ?thesis
        by (simp add: get_def get_done_def ok_def Let_def)
    qed
  qed
qed

lemma close_ok:
  assumes x: "ok x"
  shows "\<exists>ch s. close_chan cv (chan x) (sched_of x) = Some (ch, s) \<and> ok (x\<lparr>chan := ch, sched_of := s\<rparr>)"
proof -
  let ?s = "sched_of x" and ?ch = "chan x"
  have inv: "inv ?s" and co: "chan_ok ?ch (waiting ?s (ch_empty ?ch)) (waiting ?s (ch_full ?ch)) (pend x) (sent x) (recvd x)"
    using x by (auto simp: ok_def)
  from broadcast_ok [OF inv, of "ch_full ?ch"] obtain r1 s1 where
    s1: "cv_broadcast cv (ch_full ?ch) ?s = Some (r1, s1)" "inv s1" "waiting s1 = (waiting ?s)(ch_full ?ch := [])" by blast
  from broadcast_ok [OF s1(2), of "ch_empty ?ch"] obtain r2 s2 where
    s2: "cv_broadcast cv (ch_empty ?ch) s1 = Some (r2, s2)" "inv s2" "waiting s2 = (waiting s1)(ch_empty ?ch := [])" by blast
  show ?thesis
    using s1 s2 chan_ok_close [OF co] by (simp add: close_chan_def ok_def Let_def)
qed

lemma step_ok: "chan_step cv inv running fresh waiting x y \<Longrightarrow> ok x \<Longrightarrow> ok y"
proof (induction rule: chan_step.induct)
  case (do_put x c v n r)
  then show ?case using put_ok [of x c v n] by auto
next
  case (do_get x c n r)
  then show ?case using get_ok [of x c n] by auto
next
  case (do_close x ch s)
  then show ?case using close_ok [of x] by auto
next
  case (others s x)
  then show ?case by (simp add: ok_def)
qed

end

section \<open>The condition variables of the scheduler\<close>

definition co_cv :: "(addr, addr \<times> addr, sched) cv" where
  "co_cv = \<lparr>cv_wait = (\<lambda>k n s. wait_begin k (fst n) (snd n) s), cv_signal = co_cond_signal,
     cv_broadcast = co_cond_broadcast\<rparr>"

definition live :: "sched \<Rightarrow> bool" where
  "live s \<longleftrightarrow> (\<exists>m pc. sched_inv m pc s)"

definition curr :: "sched \<Rightarrow> addr option" where
  "curr s = (case co_call_stack s of c # _ # _ \<Rightarrow> Some c | _ \<Rightarrow> None)"

definition unused :: "addr \<times> addr \<Rightarrow> sched \<Rightarrow> bool" where
  "unused n s \<longleftrightarrow> eitems s (fst n) = None \<and> titems (hp s) (snd n) = None"

definition co_of :: "(addr \<Rightarrow> co_epoll_item option) \<Rightarrow> addr \<Rightarrow> addr" where
  "co_of ei e = (case ei e of Some x \<Rightarrow> (case ei_co x of Some c \<Rightarrow> c | None \<Rightarrow> 0) | None \<Rightarrow> 0)"

definition waiters :: "sched \<Rightarrow> addr \<Rightarrow> addr list" where
  "waiters s k = map (co_of (eitems s)) (co_deque s k)"

lemma queued:
  assumes "live s" and "e \<in> set (co_deque s k)"
  shows "\<exists>c t x. susp s c = InWait k e t \<and> eitems s e = Some x \<and> ei_co x = Some c"
proof -
  from assms(1) obtain L A where w: "waits L A s" by (auto simp: live_def sched_inv_def)
  from waitsD(6) [OF w [unfolded waits_def]] assms(2) have "\<exists>c t. susp s c = InWait k e t"
    unfolding queue_ok_def by blast
  then obtain c t where c: "susp s c = InWait k e t" by blast
  then have "node_of (susp s c) = Some (e, t)" by simp
  with c waits_rec_at(1) [OF w this] show ?thesis by blast
qed

lemma curr_awake:
  assumes "live s" and "curr s = Some c"
  shows "c \<notin> set (waiters s k)"
proof
  assume "c \<in> set (waiters s k)"
  then obtain e where e: "e \<in> set (co_deque s k)" "c = co_of (eitems s) e" by (auto simp: waiters_def)
  with queued [OF assms(1) e(1)] obtain t where c: "susp s c = InWait k e t" by (auto simp: co_of_def)
  from assms(1) obtain m where "stack_ok m s" by (auto simp: live_def sched_inv_def)
  moreover have "c \<in> set (co_call_stack s)" using assms(2) by (auto simp: curr_def split: list.splits)
  ultimately have "susp s c = Running" using stack_okD(4) by blast
  with c show False by simp
qed

lemma wait_begin_queue:
  assumes "wait_begin k ae at s = Some s'" and "curr s = Some c"
  shows "co_deque s' = (co_deque s)(k := co_deque s k @ [ae])"
    "\<exists>x. eitems s' = (eitems s)(ae \<mapsto> x) \<and> ei_co x = Some c"
proof -
  from assms(2) obtain c' rest where st: "co_call_stack s = c # c' # rest"
    by (auto simp: curr_def split: list.splits)
  have "co_deque s' = (co_deque s)(k := co_deque s k @ [ae]) \<and>
    (\<exists>x. eitems s' = (eitems s)(ae \<mapsto> x) \<and> ei_co x = Some c)"
    using assms(1) st
    by (simp add: wait_begin_def get_curr_co_def Let_def mem_simps on_heap_def yield_at_def new_item_def) force
  then show "co_deque s' = (co_deque s)(k := co_deque s k @ [ae])"
    "\<exists>x. eitems s' = (eitems s)(ae \<mapsto> x) \<and> ei_co x = Some c" by blast+
qed

lemma wait_live:
  assumes "live s" and "curr s = Some c" and "unused n s"
  shows "\<exists>s'. wait_begin k (fst n) (snd n) s = Some s' \<and> live s' \<and> waiters s' = (waiters s)(k := waiters s k @ [c])"
proof -
  from assms(1) obtain m pc where inv: "sched_inv m pc s" by (auto simp: live_def)
  have len: "length (co_call_stack s) > 1" using assms(2) by (auto simp: curr_def split: list.splits)
  from step_wait [OF inv len, of "fst n" "snd n" k] assms(3) obtain s' where
    s': "wait_begin k (fst n) (snd n) s = Some s'" "sched_inv m pc s'" by (auto simp: unused_def)
  from wait_begin_queue [OF s'(1) assms(2)] obtain x where
    q: "co_deque s' = (co_deque s)(k := co_deque s k @ [fst n])" "eitems s' = (eitems s)(fst n \<mapsto> x)" "ei_co x = Some c"
    by blast
  have "co_of (eitems s') e = co_of (eitems s) e" if "e \<in> set (co_deque s j)" for e j
    using queued [OF assms(1) that] q(2) assms(3) by (auto simp: co_of_def unused_def)
  then have old: "map (co_of (eitems s')) (co_deque s j) = map (co_of (eitems s)) (co_deque s j)" for j by simp
  have "waiters s' = (waiters s)(k := waiters s k @ [c])"
    using q old by (auto simp: waiters_def fun_eq_iff co_of_def)
  with s' show ?thesis by (auto simp: live_def)
qed

interpretation cc: cond_var co_cv live curr unused waiters
proof
  fix s c k n
  show "live s \<Longrightarrow> curr s = Some c \<Longrightarrow> c \<notin> set (waiters s k)" by (rule curr_awake)
  show "live s \<Longrightarrow> curr s = Some c \<Longrightarrow> unused n s \<Longrightarrow>
    \<exists>s'. cv_wait co_cv k n s = Some s' \<and> live s' \<and> waiters s' = (waiters s)(k := waiters s k @ [c])"
    using wait_live by (simp add: co_cv_def)
next
  fix s k assume "live s"
  then obtain m pc where inv: "sched_inv m pc s" by (auto simp: live_def)
  from step_signal [OF inv, of k] obtain r s' where s': "co_cond_signal k s = Some (r, s')" "sched_inv m pc s'" by blast
  have "waiters s' = (waiters s)(k := List.tl (waiters s k))"
  proof
    show "waiters s' j = ((waiters s)(k := List.tl (waiters s k))) j" for j
      using co_cond_signal_queue [OF s'(1)] by (simp add: waiters_def map_tl)
  qed
  with s' show "\<exists>r s'. cv_signal co_cv k s = Some (r, s') \<and> live s' \<and> waiters s' = (waiters s)(k := List.tl (waiters s k))"
    by (auto simp: co_cv_def live_def)
  from step_broadcast [OF inv, of k] obtain r' s2 where s2: "co_cond_broadcast k s = Some (r', s2)" "sched_inv m pc s2"
    by blast
  then have "co_deque s2 = (co_deque s)(k := []) \<and> eitems s2 = eitems s"
    using broadcast_queue [of k "co_deque s k" s s2] by (auto simp: co_cond_broadcast_def bind_eq_Some_conv)
  then have "waiters s2 = (waiters s)(k := [])" by (intro ext) (simp add: waiters_def)
  with s2 show "\<exists>r s'. cv_broadcast co_cv k s = Some (r, s') \<and> live s' \<and> waiters s' = (waiters s)(k := [])"
    by (auto simp: co_cv_def live_def)
qed

section \<open>Properties\<close>

text \<open>Any number of steps of a channel and the thread it lives in, from a new channel.\<close>

definition chan_reach :: "('a, addr, sched) csys \<Rightarrow> ('a, addr, sched) csys \<Rightarrow> bool" where
  "chan_reach = (chan_step co_cv live curr unused waiters)\<^sup>*\<^sup>*"

definition start :: "int \<Rightarrow> addr \<Rightarrow> addr \<Rightarrow> sched \<Rightarrow> ('a, addr, sched) csys" where
  "start cap ke kf s = \<lparr>chan = new_channel cap ke kf, sched_of = s, pend = Map.empty, sent = [], recvd = []\<rparr>"

definition start_ok :: "int \<Rightarrow> addr \<Rightarrow> addr \<Rightarrow> sched \<Rightarrow> bool" where
  "start_ok cap ke kf s \<longleftrightarrow> 0 \<le> cap \<and> ke \<noteq> kf \<and> live s \<and> co_deque s ke = [] \<and> co_deque s kf = []"

interpretation cf: bounded_fifo "chan_step co_cv live curr unused waiters"
    "\<lambda>x. \<exists>cap ke kf s. start_ok cap ke kf s \<and> x = start cap ke kf s" cc.ok sent recvd
    "\<lambda>x. ch_queue (chan x)" "\<lambda>x. nat (ch_cap (chan x))"
proof
  show "cc.ok x" if "\<exists>cap ke kf s. start_ok cap ke kf s \<and> x = start cap ke kf s" for x :: "('a, addr, sched) csys"
    using that by (auto simp: cc.ok_def start_def start_ok_def chan_ok_def new_channel_def waiters_def)
  show "cc.ok y" if "chan_step co_cv live curr unused waiters x y" "cc.ok x" for x y :: "('a, addr, sched) csys"
    using cc.step_ok that by blast
qed (auto simp: cc.ok_def chan_ok_def)

lemma chan_reach_ok:
  assumes "start_ok cap ke kf s" and "chan_reach (start cap ke kf s) y"
  shows "cc.ok y"
  using cf.inv_reach [OF _ assms(2) [unfolded chan_reach_def]] assms(1) by blast

lemma live2: "live run2" "curr run2 = Some 9" "unused (50, 51) run2" "start_ok 1 30 31 run2"
proof -
  show "live run2" using reachable_inv [OF fresh0 reach2 [unfolded run0_def]] by (auto simp: live_def)
  then show "start_ok 1 30 31 run2" by (simp add: start_ok_def run2_def run1_def spawn_def run0)
  show "curr run2 = Some 9" by (simp add: curr_def run2_def)
  show "unused (50, 51) run2" by (simp add: unused_def run2_def run1_def spawn_def run0)
qed

text \<open>A channel of capacity 1 on which the coroutine 9 puts the value 5.\<close>

definition ch5 :: "(int, addr) channel" where
  "ch5 = (new_channel 1 30 31)\<lparr>ch_queue := [5], ch_size := 1\<rparr>"

lemma put5: "put co_cv 5 (50, 51) (new_channel 1 30 31) run2 = Some (Ret True, ch5, run2)"
  by (simp add: put_def new_channel_def co_cv_def co_cond_signal_def ch5_def run2_def run1_def spawn_def run0)

lemma reach5: "chan_reach (start 1 30 31 run2) (put_done 9 5 (Ret True, ch5, run2) (start 1 30 31 run2))"
proof -
  have "chan_step co_cv live curr unused waiters (start 1 30 31 run2)
      (put_done 9 5 (Ret True, ch5, run2) (start 1 30 31 run2))"
    by (rule chan_step.do_put [where n = "(50, 51)"]) (use live2 put5 in \<open>simp_all add: start_def\<close>)
  then show ?thesis by (simp add: chan_reach_def)
qed

text \<open>
  C6. A channel is a FIFO buffer of its capacity: however many coroutines use it and
  whatever else the thread does, the values received are the first of the values sent,
  in their order, the rest is in the queue, and \<open>size_\<close> is the length of the queue and
  never exceeds the capacity.
\<close>

theorem channel_fifo:
  assumes "start_ok cap ke kf s" and "chan_reach (start cap ke kf s) y"
  shows "sent y = recvd y @ ch_queue (chan y) \<and> ch_size (chan y) = int (length (ch_queue (chan y))) \<and>
     ch_size (chan y) \<le> ch_cap (chan y) \<and> (\<forall>i < length (recvd y). recvd y ! i = sent y ! i)"
proof -
  have "\<forall>i < length (recvd y). recvd y ! i = sent y ! i"
    using cf.in_order [OF _ assms(2) [unfolded chan_reach_def]] assms(1) by blast
  then show ?thesis using chan_reach_ok [OF assms] by (simp add: cc.ok_def chan_ok_def)
qed

theorem channel_fifo_witness:
  "sent (put_done 9 5 (Ret True, ch5, run2) (start 1 30 31 run2)) = [5] \<and> ch_size ch5 = int (length (ch_queue ch5))"
  using channel_fifo [OF live2(4) reach5] by (simp add: put_done_def start_def)

text \<open>
  C7. No wake-up is lost: while a coroutine waits in \<open>get\<close>, at least as many woken
  coroutines are on their way to complete a \<open>get\<close> as there are values in the queue, and
  symmetrically for \<open>put\<close> and the free places. So no coroutine sleeps on a channel that
  could serve it unless others are already woken to use it up.
\<close>

theorem channel_no_lost_wakeup:
  assumes "start_ok cap ke kf s" and "chan_reach (start cap ke kf s) y"
  shows "(waiters (sched_of y) (ch_empty (chan y)) \<noteq> [] \<longrightarrow>
       ch_size (chan y) \<le> int (card (woken_getters (waiters (sched_of y) (ch_empty (chan y))) (pend y)))) \<and>
     (waiters (sched_of y) (ch_full (chan y)) \<noteq> [] \<longrightarrow>
       ch_cap (chan y) - ch_size (chan y) \<le> int (card (woken_putters (waiters (sched_of y) (ch_full (chan y))) (pend y))))"
  using chan_reach_ok [OF assms] unfolding cc.ok_def chan_ok_def by blast

theorem channel_no_lost_wakeup_witness:
  "\<exists>y :: (int, addr, sched) csys. chan_reach (start 1 30 31 run2) y \<and> waiters (sched_of y) 30 = [9] \<and>
     ch_size (chan y) \<le> int (card (woken_getters [9] (pend y)))"
proof -
  from cc.wait_ok [OF live2(1-3), of 30] obtain s' where
    s': "cv_wait co_cv 30 (50, 51) run2 = Some s'" "waiters s' = (waiters run2)(30 := waiters run2 30 @ [9])" by blast
  let ?x = "start 1 30 31 run2 :: (int, addr, sched) csys"
  let ?r = "(Blocked, (new_channel 1 30 31)\<lparr>ch_is_yield := True\<rparr>, s') :: int option chres \<times> (int, addr) channel \<times> sched"
  have "get co_cv (50, 51) (chan ?x) (sched_of ?x) = Some ?r"
    using s'(1) by (simp add: get_def start_def new_channel_def Let_def)
  then have "chan_step co_cv live curr unused waiters ?x (get_done 9 ?r ?x)"
    by (intro chan_step.do_get [where n = "(50, 51)"]) (use live2 in \<open>simp_all add: start_def\<close>)
  then have r: "chan_reach ?x (get_done 9 ?r ?x)" by (simp add: chan_reach_def)
  have w: "waiters s' 30 = [9]" using s'(2) by (simp add: waiters_def run2_def run1_def spawn_def run0)
  let ?y = "get_done 9 ?r ?x"
  have y: "sched_of ?y = s'" "ch_empty (chan ?y) = 30" by (simp_all add: get_done_def new_channel_def)
  from channel_no_lost_wakeup [OF live2(4) r] have "ch_size (chan ?y) \<le> int (card (woken_getters [9] (pend ?y)))"
    unfolding y w by simp
  with r w y(1) show ?thesis by metis
qed

text \<open>
  C21. The operations on a channel never fault, and block exactly when they must: \<open>put\<close>
  on an open full channel, \<open>get\<close> on an open empty one. On an open channel the other
  calls return true, on a closed one false.
\<close>

theorem channel_ops:
  assumes "start_ok cap ke kf s" and "chan_reach (start cap ke kf s) y"
    and "curr (sched_of y) = Some c" and "unused n (sched_of y)"
  shows "(pend y c = None \<or> pend y c = Some (Put v) \<longrightarrow> (\<exists>res ch' s'. put co_cv v n (chan y) (sched_of y) = Some (res, ch', s') \<and>
       (res = Blocked \<longleftrightarrow> \<not> ch_close (chan y) \<and> isfull (chan y)) \<and>
       (res = Ret True \<longleftrightarrow> \<not> ch_close (chan y) \<and> \<not> isfull (chan y)))) \<and>
     (pend y c = None \<or> pend y c = Some Get \<longrightarrow> (\<exists>res ch' s'. get co_cv n (chan y) (sched_of y) = Some (res, ch', s') \<and>
       (res = Blocked \<longleftrightarrow> \<not> ch_close (chan y) \<and> isempty (chan y)) \<and>
       (res = Ret None \<longleftrightarrow> ch_close (chan y))))"
proof -
  note ok = chan_reach_ok [OF assms(1,2)]
  have "\<exists>res ch' s'. put co_cv v n (chan y) (sched_of y) = Some (res, ch', s') \<and>
       (res = Blocked \<longleftrightarrow> \<not> ch_close (chan y) \<and> isfull (chan y)) \<and>
       (res = Ret True \<longleftrightarrow> \<not> ch_close (chan y) \<and> \<not> isfull (chan y))"
    if "pend y c = None \<or> pend y c = Some (Put v)"
    using cc.put_ok [OF ok assms(3) that assms(4)]
    by (auto simp: put_def isfull_def Let_def bind_eq_Some_conv split: if_splits)
  moreover have "\<exists>res ch' s'. get co_cv n (chan y) (sched_of y) = Some (res, ch', s') \<and>
       (res = Blocked \<longleftrightarrow> \<not> ch_close (chan y) \<and> isempty (chan y)) \<and> (res = Ret None \<longleftrightarrow> ch_close (chan y))"
    if "pend y c = None \<or> pend y c = Some Get"
    using cc.get_ok [OF ok assms(3) that assms(4)]
    by (auto simp: get_def isempty_def Let_def bind_eq_Some_conv split: if_splits)
  ultimately show ?thesis by blast
qed

theorem channel_ops_witness:
  "\<exists>ch' s'. put co_cv (6 :: int) (50, 51) ch5 run2 = Some (Blocked, ch', s')"
  using channel_ops [OF live2(4) reach5, of 9 "(50, 51)" 6] live2
  by (auto simp: put_done_def start_def ch5_def isfull_def new_channel_def)

text \<open>
  C22. \<open>close\<close> never faults, leaves no coroutine asleep on the channel and keeps the
  queue; from then on every \<open>put\<close> and \<open>get\<close> returns false at once, so values still in
  the queue are never delivered.
\<close>

theorem channel_close:
  assumes "start_ok cap ke kf s" and "chan_reach (start cap ke kf s) y"
  shows "\<exists>ch' s'. close_chan co_cv (chan y) (sched_of y) = Some (ch', s') \<and>
     waiters s' (ch_empty (chan y)) = [] \<and> waiters s' (ch_full (chan y)) = [] \<and> ch_queue ch' = ch_queue (chan y) \<and>
     (\<forall>v n s''. put co_cv v n ch' s'' = Some (Ret False, ch', s'') \<and> get co_cv n ch' s'' = Some (Ret None, ch', s''))"
proof -
  from cc.close_ok [OF chan_reach_ok [OF assms]] obtain ch' s' where
    c: "close_chan co_cv (chan y) (sched_of y) = Some (ch', s')" "cc.ok (y\<lparr>chan := ch', sched_of := s'\<rparr>)" by blast
  have ch': "ch' = (chan y)\<lparr>ch_close := True\<rparr>"
    using c(1) by (auto simp: close_chan_def Let_def bind_eq_Some_conv)
  have "waiters s' (ch_empty (chan y)) = [] \<and> waiters s' (ch_full (chan y)) = []"
    using c(2) ch' by (simp add: cc.ok_def chan_ok_def)
  with c(1) ch' show ?thesis by (simp add: put_def get_def)
qed

theorem channel_close_witness:
  "\<exists>ch' s'. close_chan co_cv ch5 run2 = Some (ch', s') \<and> ch_queue ch' = [5] \<and>
     get co_cv (50, 51) ch' s' = Some (Ret None, ch', s')"
  using channel_close [OF live2(4) reach5] by (auto simp: put_done_def start_def ch5_def)

end
