(* ===== verification/Coroutine_Pool.thy ===== *)
theory Coroutine_Pool
  imports Channel
begin

text \<open>
  The pool of worker coroutines, \<open>coroutine_pool.h\<close> and \<open>coroutine_pool.cpp\<close>: a channel of
  capacity 1 of tasks, workers that take tasks from it, and \<open>run\<close>, which puts one in.
\<close>

section \<open>Model\<close>

text \<open>
  A task holds a \<open>std::function\<close>, \<^term>\<open>None\<close> being an empty one; calling that throws. The
  functions themselves are code of the user and only named here.
\<close>

record task =
  t_func :: "nat option"

text \<open>
  The argument of a worker is a heap object the constructor allocates and hands to the
  coroutine; \<open>pool_args\<close> keeps it under the coroutine it was given to. Its member \<open>pool\<close> is
  the pool itself.
\<close>

record pool_arg =
  pa_index :: int

record coroutine_pool =
  coroutine_cnt :: int
  pool_chan :: "(task, addr) channel"
  pool_args :: "addr \<Rightarrow> pool_arg option"

definition new_task :: task where
  "new_task = \<lparr>t_func = None\<rparr>"

text \<open>
  One round of \<open>work_start\<close>, from the return of \<open>get\<close>: the result of \<open>get\<close> is ignored,
  the function is called with the index of the worker, and \<open>delete &t\<close> is applied to the
  local variable. The result is the call that was made and whether the worker survives.
\<close>

definition work_round :: "int \<Rightarrow> task option \<Rightarrow> (nat \<times> int) list \<times> bool" where
  "work_round index r =
     (let t = (case r of None \<Rightarrow> new_task | Some t \<Rightarrow> t) in
      case t_func t of None \<Rightarrow> ([], False) | Some f \<Rightarrow> ([(f, index)], False))"

text \<open>
  The body of worker \<open>c\<close> reads its index from the argument and works for its pool;
  \<^term>\<open>None\<close> is a coroutine that was given no argument.
\<close>

definition coroutine_start :: "addr \<Rightarrow> task option \<Rightarrow> coroutine_pool \<Rightarrow> ((nat \<times> int) list \<times> bool) option" where
  "coroutine_start c r p = do {
     parg \<leftarrow> pool_args p c;
     Some (work_round (pa_index parg) r)
   }"

text \<open>
  The constructor: worker \<open>i\<close> is a new coroutine with the argument \<open>i\<close>, which runs until it
  waits in \<open>get\<close>.
\<close>

fun start_workers :: "int \<Rightarrow> (addr \<times> addr \<times> addr) list \<Rightarrow> coroutine_pool \<Rightarrow> sched \<Rightarrow> (coroutine_pool \<times> sched) option" where
  "start_workers i [] p s = Some (p, s)"
| "start_workers i ((c, n) # ws) p s = do {
     let arg = \<lparr>pa_index = i\<rparr>;
     let p = p\<lparr>pool_args := (pool_args p)(c \<mapsto> arg)\<rparr>;
     let s = spawn c (Some 0) s;
     (_, s) \<leftarrow> resume_co c s;
     (res, ch, s) \<leftarrow> get co_cv n (pool_chan p) s;
     let p = p\<lparr>pool_chan := ch\<rparr>;
     case res of Blocked \<Rightarrow> start_workers (i + 1) ws p s | Ret r \<Rightarrow> None
   }"

definition new_pool :: "(addr \<times> addr \<times> addr) list \<Rightarrow> addr \<Rightarrow> addr \<Rightarrow> sched \<Rightarrow> (coroutine_pool \<times> sched) option" where
  "new_pool ws ke kf s =
     start_workers 0 ws \<lparr>coroutine_cnt = int (length ws), pool_chan = new_channel 1 ke kf, pool_args = (\<lambda>_. None)\<rparr> s"

definition run_task :: "nat \<Rightarrow> addr \<times> addr \<Rightarrow> coroutine_pool \<Rightarrow> sched \<Rightarrow> (bool chres \<times> coroutine_pool \<times> sched) option" where
  "run_task func n p s = do {
     let t = new_task\<lparr>t_func := Some func\<rparr>;
     (res, ch, s) \<leftarrow> put co_cv t n (pool_chan p) s;
     Some (res, p\<lparr>pool_chan := ch\<rparr>, s)
   }"

section \<open>Lemmas\<close>

text \<open>A new worker runs into \<open>get\<close> and sleeps at the end of the queue; all else stays as it was.\<close>

definition started_worker :: "addr \<times> addr \<times> addr \<Rightarrow> addr \<Rightarrow> sched \<Rightarrow> sched \<Rightarrow> bool" where
  "started_worker w k s s' \<longleftrightarrow> (case w of (c, e, t) \<Rightarrow>
     susp s' = (susp s)(c := InWait k e t) \<and> co_deque s' = (co_deque s)(k := co_deque s k @ [e]) \<and>
     co_call_stack s' = co_call_stack s \<and> (\<forall>d. d \<noteq> c \<longrightarrow> cos s' d = cos s d) \<and>
     (\<forall>n. unused n s \<longrightarrow> fst n \<noteq> e \<longrightarrow> snd n \<noteq> t \<longrightarrow> unused n s') \<and>
     (\<forall>A. dll (hp s) (active_link (sch_epoll s)) A \<longrightarrow> dll (hp s') (active_link (sch_epoll s')) A))"

lemma start_worker:
  assumes inv: "sched_inv m pc s" and c: "cos s c = None" and n: "unused n s"
    and ch: "\<not> ch_close ch" "ch_size ch = 0"
  shows "\<exists>s1 s'. resume_co c (spawn c f s) = Some (None, s1) \<and>
     get co_cv n ch s1 = Some (Blocked, ch\<lparr>ch_is_yield := True\<rparr>, s') \<and> sched_inv m pc s' \<and>
     started_worker (c, n) (ch_empty ch) s s'"
proof -
  let ?s0 = "spawn c f s"
  have inv0: "sched_inv m pc ?s0" by (rule step_spawn [OF inv c])
  have "cos ?s0 c \<noteq> None" "susp ?s0 c = Fresh" by (simp_all add: spawn_def)
  with step_resume [OF inv0, of c] obtain s1 where
    s1: "resume_co c ?s0 = Some (None, s1)" "sched_inv m pc s1" by blast
  obtain d st where st: "co_call_stack s = d # st" using inv by (cases "co_call_stack s") (auto simp: sched_inv_def stack_ok_def)
  have f1: "co_call_stack s1 = c # d # st" "eitems s1 = eitems s" "hp s1 = hp s" "co_deque s1 = co_deque s"
    "sch_epoll s1 = sch_epoll s" "susp s1 = (susp s)(c := Running)" "\<forall>c'. c' \<noteq> c \<longrightarrow> cos s1 c' = cos s c'"
    using s1(1) st by (auto simp: resume_co_def resume_def get_curr_co_def spawn_def)
  have un: "eitems s1 (fst n) = None" "titems (hp s1) (snd n) = None" using n f1 by (simp_all add: unused_def)
  from s1(2) obtain L A where ok: "lists_ok L A s1" "waits L A s1" by (auto simp: sched_inv_def)
  from wait_begin_ok [OF f1(1) _ ok un, of "ch_empty ch"] f1(6) obtain s' where
    s': "wait_begin (ch_empty ch) (fst n) (snd n) s1 = Some s'" "lists_ok L A s'"
      "asleep c (InWait (ch_empty ch) (fst n) (snd n)) s1 s'"
      "co_deque s' = (co_deque s1)(ch_empty ch := co_deque s1 (ch_empty ch) @ [fst n])" by auto
  have "sched_inv m pc s'" using step_wait [OF s1(2) _ un, of "ch_empty ch"] f1(1) s'(1) by auto
  moreover have "get co_cv n ch s1 = Some (Blocked, ch\<lparr>ch_is_yield := True\<rparr>, s')"
    using s'(1) ch by (simp add: get_def co_cv_def Let_def)
  moreover have "titems (hp s') = (titems (hp s1))(snd n := titems (hp s') (snd n))"
    "eitems s' = (eitems s1)(fst n := eitems s' (fst n))"
    using s'(1) f1(1)
    by (auto simp: wait_begin_def get_curr_co_def Let_def mem_simps on_heap_def yield_at_def new_item_def fun_eq_iff)
  then have "\<forall>n'. unused n' s \<longrightarrow> fst n' \<noteq> fst n \<longrightarrow> snd n' \<noteq> snd n \<longrightarrow> unused n' s'"
    using f1 by (auto simp: unused_def) (metis fun_upd_other)+
  moreover have "dll (hp s') (active_link (sch_epoll s')) A'" if "dll (hp s) (active_link (sch_epoll s)) A'" for A'
    using lists_ok_active [OF s'(2)] dll_unique [OF lists_ok_active [OF ok(1)]] that f1 by metis
  ultimately show ?thesis
    using s1(1) s'(3,4) f1 st by (intro exI [of _ s1] exI [of _ s']) (simp add: started_worker_def asleep_def split: prod.splits)
qed

lemma start_workers_ok:
  assumes "sched_inv m pc s" and "\<forall>(c, n) \<in> set ws. cos s c = None \<and> unused n s"
    and "distinct (map fst ws)" "distinct (map (fst \<circ> snd) ws)" "distinct (map (snd \<circ> snd) ws)"
    and "\<not> ch_close (pool_chan p)" "ch_size (pool_chan p) = 0" and "dll (hp s) (active_link (sch_epoll s)) A"
  shows "\<exists>p' s'. start_workers i ws p s = Some (p', s') \<and> sched_inv m pc s' \<and> coroutine_cnt p' = coroutine_cnt p \<and>
     pool_chan p' = (if ws = [] then pool_chan p else (pool_chan p)\<lparr>ch_is_yield := True\<rparr>) \<and>
     co_deque s' = (co_deque s)(ch_empty (pool_chan p) := co_deque s (ch_empty (pool_chan p)) @ map (fst \<circ> snd) ws) \<and>
     (\<forall>w \<in> set ws. susp s' (fst w) = InWait (ch_empty (pool_chan p)) (fst (snd w)) (snd (snd w))) \<and>
     (\<forall>c. c \<notin> fst ` set ws \<longrightarrow> susp s' c = susp s c \<and> pool_args p' c = pool_args p c) \<and>
     (\<forall>j < length ws. pool_args p' (fst (ws ! j)) = Some \<lparr>pa_index = i + int j\<rparr>) \<and>
     co_call_stack s' = co_call_stack s \<and> dll (hp s') (active_link (sch_epoll s')) A"
  using assms
proof (induction ws arbitrary: i p s)
  case (Cons w ws)
  obtain c e t where w: "w = (c, e, t)" by (cases w)
  let ?k = "ch_empty (pool_chan p)"
  have c: "cos s c = None" "unused (e, t) s" using Cons.prems(2) w by auto
  from start_worker [OF Cons.prems(1) c Cons.prems(6,7)] obtain s1 s2 where
    s2: "resume_co c (spawn c (Some 0) s) = Some (None, s1)"
      "get co_cv (e, t) (pool_chan p) s1 = Some (Blocked, (pool_chan p)\<lparr>ch_is_yield := True\<rparr>, s2)" "sched_inv m pc s2"
      "started_worker (c, e, t) ?k s s2" by blast
  note sw = s2(4) [unfolded started_worker_def prod.case]
  let ?p = "p\<lparr>pool_args := (pool_args p)(c \<mapsto> \<lparr>pa_index = i\<rparr>), pool_chan := (pool_chan p)\<lparr>ch_is_yield := True\<rparr>\<rparr>"
  have new: "c \<notin> fst ` set ws" using Cons.prems(3) w by simp
  have "\<forall>(c', n') \<in> set ws. cos s2 c' = None \<and> unused n' s2"
  proof (intro ballI, clarify)
    fix c' ae at assume i: "(c', ae, at) \<in> set ws"
    then have "c' \<noteq> c" "ae \<noteq> e" "at \<noteq> t" using Cons.prems(3-5) w by (force simp: image_iff)+
    with i Cons.prems(2) sw show "cos s2 c' = None \<and> unused (ae, at) s2" by auto
  qed
  note fresh = this
  have d: "distinct (map fst ws)" "distinct (map (fst \<circ> snd) ws)" "distinct (map (snd \<circ> snd) ws)"
    using Cons.prems(3-5) by (simp_all add: comp_def)
  have q: "ch_empty (pool_chan ?p) = ?k" "\<not> ch_close (pool_chan ?p)" "ch_size (pool_chan ?p) = 0"
    "(if ws = [] then pool_chan ?p else (pool_chan ?p)\<lparr>ch_is_yield := True\<rparr>) = (pool_chan p)\<lparr>ch_is_yield := True\<rparr>"
    using Cons.prems(6,7) by simp_all
  have A: "dll (hp s2) (active_link (sch_epoll s2)) A" using sw Cons.prems(8) by blast
  from Cons.IH [OF s2(3) fresh d q(2,3) A, of "i + 1", unfolded q(1,4)] obtain p' s' where
    p': "start_workers (i + 1) ws ?p s2 = Some (p', s')" "sched_inv m pc s'" "coroutine_cnt p' = coroutine_cnt ?p"
    "pool_chan p' = (pool_chan p)\<lparr>ch_is_yield := True\<rparr>"
    "co_deque s' = (co_deque s2)(?k := co_deque s2 ?k @ map (fst \<circ> snd) ws)"
    "\<forall>w \<in> set ws. susp s' (fst w) = InWait ?k (fst (snd w)) (snd (snd w))"
    "\<forall>d. d \<notin> fst ` set ws \<longrightarrow> susp s' d = susp s2 d \<and> pool_args p' d = pool_args ?p d"
    "\<forall>j < length ws. pool_args p' (fst (ws ! j)) = Some \<lparr>pa_index = i + 1 + int j\<rparr>"
    "co_call_stack s' = co_call_stack s2" "dll (hp s') (active_link (sch_epoll s')) A" by (elim exE conjE)
  have "\<forall>j < length (w # ws). pool_args p' (fst ((w # ws) ! j)) = Some \<lparr>pa_index = i + int j\<rparr>"
    using p'(7,8) new w by (auto simp: nth_Cons split: nat.splits)
  moreover have "\<forall>d. d \<notin> fst ` set (w # ws) \<longrightarrow> susp s' d = susp s d \<and> pool_args p' d = pool_args p d"
    using p'(7) sw w by simp
  moreover have "\<forall>v \<in> set (w # ws). susp s' (fst v) = InWait ?k (fst (snd v)) (snd (snd v))" using p'(6,7) new sw w by simp
  moreover have "start_workers i (w # ws) p s = Some (p', s')" using p'(1) s2(1,2) w by simp
  moreover have "co_deque s' = (co_deque s)(?k := co_deque s ?k @ map (fst \<circ> snd) (w # ws))" using p'(5) sw w by simp
  ultimately show ?case using p'(2-4,9,10) sw by (intro exI [of _ p'] exI [of _ s']) (simp add: comp_def)
qed simp

text \<open>A worker calls the function of the task it got, and does not survive the round.\<close>

lemma work_round_calls:
  "work_round index (Some t) = ((case t_func t of None \<Rightarrow> [] | Some f \<Rightarrow> [(f, index)]), False)"
  "work_round index None = ([], False)"
  by (simp_all add: work_round_def new_task_def split: option.splits)

section \<open>Properties\<close>

text \<open>
  The constructor of the pool starts all its workers without a fault, leaves them waiting
  for tasks in the order in which they were created, so the first task goes to worker 0,
  and the \<open>j\<close>-th of them calls what it is given with the index \<open>j\<close>.
\<close>

lemma new_pool_workers:
  assumes "sched_inv m pc s" and "\<forall>(c, n) \<in> set ws. cos s c = None \<and> unused n s"
    and "distinct (map fst ws)" "distinct (map (fst \<circ> snd) ws)" "distinct (map (snd \<circ> snd) ws)"
    and "ws \<noteq> []" and "dll (hp s) (active_link (sch_epoll s)) A"
  shows "\<exists>p s'. new_pool ws ke kf s = Some (p, s') \<and> sched_inv m pc s' \<and> coroutine_cnt p = int (length ws) \<and>
     pool_chan p = (new_channel 1 ke kf)\<lparr>ch_is_yield := True\<rparr> \<and>
     co_deque s' = (co_deque s)(ke := co_deque s ke @ map (fst \<circ> snd) ws) \<and>
     (\<forall>w \<in> set ws. susp s' (fst w) = InWait ke (fst (snd w)) (snd (snd w))) \<and>
     (\<forall>j < length ws. pool_args p (fst (ws ! j)) = Some \<lparr>pa_index = int j\<rparr>) \<and>
     co_call_stack s' = co_call_stack s \<and> dll (hp s') (active_link (sch_epoll s')) A"
proof -
  let ?p = "\<lparr>coroutine_cnt = int (length ws), pool_chan = new_channel 1 ke kf, pool_args = (\<lambda>_. None)\<rparr>"
  have ch: "\<not> ch_close (pool_chan ?p)" "ch_size (pool_chan ?p) = 0" "ch_empty (pool_chan ?p) = ke"
    by (simp_all add: new_channel_def)
  from start_workers_ok [OF assms(1-5) ch(1,2) assms(7), of 0] show ?thesis
    unfolding ch(3) new_pool_def using assms(6) by auto
qed

end
