(* ===== verification/Co_Context.thy ===== *)
theory Co_Context
  imports Baton_Prelude
begin

unbundle bit_operations_syntax

text \<open>
  The context switch: \<open>co_context.h\<close>, \<open>co_context.cpp\<close>, the assembly routine of
  \<open>context_swap.S\<close>, and the stacks of \<open>co_stack.cpp\<close>. The routine is the list of its
  instructions, with an interpreter for the instructions it uses.

  Memory is a function from addresses to 64-bit words; every access of the code is to an
  address that is a multiple of 8, so two accesses either meet in one word or not at all.
\<close>

section \<open>Machine\<close>

datatype reg = RAX | RBX | RCX | RDX | RSI | RDI | RBP | RSP | R8 | R9 | R12 | R13 | R14 | R15

record cpu =
  regs :: "reg \<Rightarrow> u64"
  mem :: "u64 \<Rightarrow> u64"
  rip :: u64

text \<open>Operands as in the source: an offset and a base register.\<close>

datatype instr =
    Leaq u64 reg reg
  | Store reg u64 reg
  | Load u64 reg reg
  | Xorq reg reg
  | Pushq u64 reg

definition set_reg :: "reg \<Rightarrow> u64 \<Rightarrow> cpu \<Rightarrow> cpu" where
  "set_reg r v s = s\<lparr>regs := (regs s)(r := v)\<rparr>"

fun exec :: "instr \<Rightarrow> cpu \<Rightarrow> cpu" where
  "exec (Leaq off b d) s = set_reg d (regs s b + off) s"
| "exec (Store r off b) s = s\<lparr>mem := (mem s)(regs s b + off := regs s r)\<rparr>"
| "exec (Load off b d) s = set_reg d (mem s (regs s b + off)) s"
| "exec (Xorq a d) s = set_reg d (regs s d XOR regs s a) s"
| "exec (Pushq off b) s =
     (let v = mem s (regs s b + off); s = set_reg RSP (regs s RSP - 8) s
      in s\<lparr>mem := (mem s)(regs s RSP := v)\<rparr>)"

fun exec_list :: "instr list \<Rightarrow> cpu \<Rightarrow> cpu" where
  "exec_list [] s = s"
| "exec_list (i # is) s = exec_list is (exec i s)"

definition ret :: "cpu \<Rightarrow> cpu" where
  "ret s = set_reg RSP (regs s RSP + 8) (s\<lparr>rip := mem s (regs s RSP)\<rparr>)"

definition save_code :: "instr list" where
  "save_code =
    [Leaq 0 RSP RAX,
     Store RAX 104 RDI, Store RBX 96 RDI, Store RCX 88 RDI, Store RDX 80 RDI,
     Load 0 RAX RAX,
     Store RAX 72 RDI, Store RSI 64 RDI, Store RDI 56 RDI, Store RBP 48 RDI, Store R8 40 RDI,
     Store R9 32 RDI, Store R12 24 RDI, Store R13 16 RDI, Store R14 8 RDI, Store R15 0 RDI,
     Xorq RAX RAX]"

definition load_code :: "instr list" where
  "load_code =
    [Load 48 RSI RBP, Load 104 RSI RSP, Load 0 RSI R15, Load 8 RSI R14, Load 16 RSI R13,
     Load 24 RSI R12, Load 32 RSI R9, Load 40 RSI R8, Load 56 RSI RDI, Load 80 RSI RDX,
     Load 88 RSI RCX, Load 96 RSI RBX, Leaq 8 RSP RSP, Pushq 72 RSI, Load 64 RSI RSI]"

text \<open>A call of \<open>context_swap\<close>: \<open>regs s RSP\<close> points at the return address.\<close>

definition context_swap :: "cpu \<Rightarrow> cpu" where
  "context_swap s = ret (exec_list load_code (exec_list save_code s))"

section \<open>Contexts\<close>

text \<open>
  A \<open>co_context\<close> at the address \<open>p\<close>: fourteen words, then \<open>s_size\<close> and \<open>s_sp\<close>.
\<close>

definition kRDI :: u64 where "kRDI = 7"
definition kRSI :: u64 where "kRSI = 8"
definition kRET :: u64 where "kRET = 9"
definition kRSP :: u64 where "kRSP = 13"

definition slot_addrs :: "u64 \<Rightarrow> nat \<Rightarrow> u64 list" where
  "slot_addrs p n = map (\<lambda>i. p + 8 * of_nat i) [0..<n]"

fun memset0 :: "u64 list \<Rightarrow> (u64 \<Rightarrow> u64) \<Rightarrow> u64 \<Rightarrow> u64" where
  "memset0 [] m = m"
| "memset0 (a # as) m = memset0 as (m(a := 0))"

definition stack_bottom :: "u64 \<Rightarrow> u64 \<Rightarrow> u64" where
  "stack_bottom s_sp s_size = (s_sp + s_size - 8) AND (- 16)"

definition context_make :: "u64 \<Rightarrow> u64 \<Rightarrow> u64 \<Rightarrow> u64 \<Rightarrow> (u64 \<Rightarrow> u64) \<Rightarrow> u64 \<Rightarrow> u64" where
  "context_make ctx func s1 s2 m =
     (let sp = stack_bottom (m (ctx + 120)) (m (ctx + 112));
          m = memset0 (slot_addrs ctx 14) m;
          m = m(sp := func);
          m = m(ctx + 8 * kRSP := sp);
          m = m(ctx + 8 * kRET := func);
          m = m(ctx + 8 * kRDI := s1)
      in m(ctx + 8 * kRSI := s2))"

definition context_init :: "u64 \<Rightarrow> (u64 \<Rightarrow> u64) \<Rightarrow> u64 \<Rightarrow> u64" where
  "context_init ctx m = memset0 (slot_addrs ctx 16) m"

section \<open>What the two halves of the switch do\<close>

definition in_ctx :: "u64 \<Rightarrow> u64 \<Rightarrow> bool" where
  "in_ctx p a \<longleftrightarrow> a \<in> set (slot_addrs p 14)"

lemma slot_addrs14: "slot_addrs p 14 = [p, p + 8, p + 16, p + 24, p + 32, p + 40, p + 48, p + 56, p + 64,
    p + 72, p + 80, p + 88, p + 96, p + 104]"
  by (simp add: slot_addrs_def upt_rec_numeral upt_conv_Cons numeral_eq_Suc)

text \<open>The registers that a context holds after a save.\<close>

definition saved :: "u64 \<Rightarrow> cpu \<Rightarrow> (u64 \<Rightarrow> u64) \<Rightarrow> bool" where
  "saved p s m \<longleftrightarrow> m p = regs s R15 \<and> m (p + 8) = regs s R14 \<and> m (p + 16) = regs s R13 \<and>
     m (p + 24) = regs s R12 \<and> m (p + 32) = regs s R9 \<and> m (p + 40) = regs s R8 \<and> m (p + 48) = regs s RBP \<and>
     m (p + 56) = regs s RDI \<and> m (p + 64) = regs s RSI \<and> m (p + 72) = mem s (regs s RSP) \<and>
     m (p + 80) = regs s RDX \<and> m (p + 88) = regs s RCX \<and> m (p + 96) = regs s RBX \<and> m (p + 104) = regs s RSP"

lemma save_regs: "regs (exec_list save_code s) = (regs s)(RAX := 0)"
  by (simp add: save_code_def set_reg_def fun_eq_iff)

lemma save_rip: "rip (exec_list save_code s) = rip s"
  by (simp add: save_code_def set_reg_def)

lemma save_saved:
  assumes "\<not> in_ctx (regs s RDI) (regs s RSP)"
  shows "saved (regs s RDI) s (mem (exec_list save_code s))"
  using assms by (simp add: save_code_def set_reg_def saved_def in_ctx_def slot_addrs14)

lemma save_frame:
  assumes "\<not> in_ctx (regs s RDI) a"
  shows "mem (exec_list save_code s) a = mem s a"
  using assms by (simp add: save_code_def set_reg_def in_ctx_def slot_addrs14)

text \<open>The state after a load from the context \<open>q\<close>.\<close>

definition loaded :: "u64 \<Rightarrow> (u64 \<Rightarrow> u64) \<Rightarrow> cpu \<Rightarrow> bool" where
  "loaded q m s \<longleftrightarrow> rip s = m (q + 72) \<and> regs s RSP = m (q + 104) + 8 \<and> regs s R15 = m q \<and>
     regs s R14 = m (q + 8) \<and> regs s R13 = m (q + 16) \<and> regs s R12 = m (q + 24) \<and> regs s R9 = m (q + 32) \<and>
     regs s R8 = m (q + 40) \<and> regs s RBP = m (q + 48) \<and> regs s RDI = m (q + 56) \<and> regs s RSI = m (q + 64) \<and>
     regs s RDX = m (q + 80) \<and> regs s RCX = m (q + 88) \<and> regs s RBX = m (q + 96) \<and>
     mem s = m(m (q + 104) := m (q + 72))"

lemma load_loaded:
  assumes "\<not> in_ctx (regs s RSI) (mem s (regs s RSI + 104))"
  shows "loaded (regs s RSI) (mem s) (ret (exec_list load_code s))"
  using assms by (auto simp: load_code_def set_reg_def ret_def loaded_def in_ctx_def slot_addrs14 Let_def)

lemma swap_loaded:
  assumes "\<not> in_ctx (regs s RSI) (mem (exec_list save_code s) (regs s RSI + 104))"
  shows "loaded (regs s RSI) (mem (exec_list save_code s)) (context_swap s)"
  using load_loaded [of "exec_list save_code s"] assms by (simp add: context_swap_def save_regs)

lemma in_ctx_word: "in_ctx p (p + 8 * of_nat i)" if "i < 14"
  using that by (auto simp: in_ctx_def slot_addrs_def)

definition disjoint_ctx :: "u64 \<Rightarrow> u64 \<Rightarrow> bool" where
  "disjoint_ctx p q \<longleftrightarrow> (\<forall>a \<in> set (slot_addrs p 14). \<not> in_ctx q a)"

lemma disjoint_ctx_frame:
  assumes "disjoint_ctx q (regs s RDI)" and "in_ctx q a"
  shows "mem (exec_list save_code s) a = mem s a"
  using assms by (intro save_frame) (auto simp: disjoint_ctx_def in_ctx_def)

lemma in_ctx_offsets [simp]:
  "in_ctx q q" "in_ctx q (q + 8)" "in_ctx q (q + 16)" "in_ctx q (q + 24)" "in_ctx q (q + 32)" "in_ctx q (q + 40)"
  "in_ctx q (q + 48)" "in_ctx q (q + 56)" "in_ctx q (q + 64)" "in_ctx q (q + 72)" "in_ctx q (q + 80)"
  "in_ctx q (q + 88)" "in_ctx q (q + 96)" "in_ctx q (q + 104)"
  by (simp_all add: in_ctx_def slot_addrs14)

section \<open>Memory set up by \<open>context_make\<close>\<close>

lemma memset0_other: "a \<notin> set as \<Longrightarrow> memset0 as m a = m a"
  by (induction as arbitrary: m) auto

lemma memset0_in: "a \<in> set as \<Longrightarrow> memset0 as m a = 0"
  by (induction as arbitrary: m) (auto, metis memset0_other fun_upd_same)

lemma align16:
  fixes x :: u64
  shows "unat (x AND (- 16)) = unat x - unat x mod 16"
proof -
  have neg: "(- 16 :: u64) = NOT (mask 4)" using minus_exp_eq_not_mask [of 4, where ?'a = u64] by simp
  have "x AND NOT (mask 4) = push_bit 4 (drop_bit 4 x)"
    by (rule bit_word_eqI) (auto simp: bit_simps)
  then have "x AND NOT (mask 4) = x - take_bit 4 x"
    using bits_ident [of 4 x] by (simp add: eq_diff_eq)
  then have eq: "x AND (- 16) = x - x mod 16" by (simp add: neg take_bit_eq_mod)
  have m: "unat (x mod 16) = unat x mod 16" by (simp add: unat_mod)
  then have "x mod 16 \<le> x" by (simp add: word_le_nat_alt)
  then show ?thesis by (simp add: eq unat_sub m)
qed

section \<open>Properties\<close>

text \<open>
  The state at a call \<open>context_swap(from, to)\<close>: everything is aligned, the two contexts do
  not overlap, and the stack words in use are in neither.
\<close>

definition aligned8 :: "u64 \<Rightarrow> bool" where
  "aligned8 a \<longleftrightarrow> unat a mod 8 = 0"

definition swap_call :: "cpu \<Rightarrow> bool" where
  "swap_call s \<longleftrightarrow> aligned8 (regs s RDI) \<and> aligned8 (regs s RSI) \<and> aligned8 (regs s RSP) \<and>
     aligned8 (mem s (regs s RSI + 104)) \<and> disjoint_ctx (regs s RSI) (regs s RDI) \<and>
     \<not> in_ctx (regs s RDI) (regs s RSP) \<and> \<not> in_ctx (regs s RDI) (mem s (regs s RSI + 104)) \<and>
     \<not> in_ctx (regs s RSI) (mem s (regs s RSI + 104))"

lemma swap_call_loaded:
  assumes "swap_call s"
  shows "loaded (regs s RSI) (mem (exec_list save_code s)) (context_swap s)"
    "in_ctx (regs s RSI) a \<Longrightarrow> mem (exec_list save_code s) a = mem s a"
    "\<not> in_ctx (regs s RDI) a \<Longrightarrow> mem (exec_list save_code s) a = mem s a"
proof -
  have d: "disjoint_ctx (regs s RSI) (regs s RDI)" using assms by (simp add: swap_call_def)
  show k: "mem (exec_list save_code s) a = mem s a" if "in_ctx (regs s RSI) a" for a
    by (rule disjoint_ctx_frame [OF d that])
  show "loaded (regs s RSI) (mem (exec_list save_code s)) (context_swap s)"
    using assms k [of "regs s RSI + 104"] by (intro swap_loaded) (simp add: swap_call_def)
qed (rule save_frame)

lemma swap_saves:
  assumes "swap_call s" and "in_ctx (regs s RDI) a"
  shows "mem (context_swap s) a = mem (exec_list save_code s) a"
proof -
  have "mem (exec_list save_code s) (regs s RSI + 104) = mem s (regs s RSI + 104)"
    using swap_call_loaded(2) [OF assms(1)] by simp
  then have "a \<noteq> mem (exec_list save_code s) (regs s RSI + 104)" using assms by (auto simp: swap_call_def)
  with swap_call_loaded(1) [OF assms(1)] show ?thesis by (simp add: loaded_def)
qed

text \<open>
  C5. A coroutine that is switched away and later switched back to finds itself as if its
  call of \<open>context_swap\<close> had simply returned: it continues at the return address, its stack
  pointer is just above it, all the registers that the calling convention preserves have
  their values, and the switch back has written nothing but the context of the coroutine
  that left and the return address itself. The state \<open>t\<close> is any later state whose running
  code calls \<open>context_swap\<close> with the saved context, which nobody has written to.
\<close>

theorem context_swap_round_trip:
  assumes "swap_call s" and "swap_call t" and "regs t RSI = regs s RDI"
    and "\<forall>a. in_ctx (regs s RDI) a \<longrightarrow> mem t a = mem (context_swap s) a"
  shows "rip (context_swap t) = mem s (regs s RSP) \<and> regs (context_swap t) RSP = regs s RSP + 8 \<and>
     (\<forall>r \<in> {RBX, RBP, R12, R13, R14, R15}. regs (context_swap t) r = regs s r) \<and>
     (\<forall>a. \<not> in_ctx (regs t RDI) a \<longrightarrow> a \<noteq> regs s RSP \<longrightarrow> mem (context_swap t) a = mem t a) \<and>
     mem (context_swap t) (regs s RSP) = mem s (regs s RSP)"
proof -
  let ?p = "regs s RDI" and ?m = "mem (exec_list save_code t)"
  have sv: "saved ?p s (mem (exec_list save_code s))" using assms(1) by (intro save_saved) (simp add: swap_call_def)
  have "?m a = mem (exec_list save_code s) a" if "in_ctx ?p a" for a
    using swap_call_loaded(2) [OF assms(2), of a] swap_saves [OF assms(1) that] assms(3,4) that by simp
  then have sv': "saved ?p s ?m" using sv by (simp add: saved_def)
  have ld: "loaded ?p ?m (context_swap t)" using swap_call_loaded(1) [OF assms(2)] assms(3) by simp
  have "mem (context_swap t) a = mem t a" if "\<not> in_ctx (regs t RDI) a" "a \<noteq> regs s RSP" for a
    using ld sv' that swap_call_loaded(3) [OF assms(2) that(1)] by (simp add: loaded_def saved_def)
  with ld sv' show ?thesis by (simp add: loaded_def saved_def)
qed

text \<open>
  A machine for the witness: context 1000 switches to context 2000, whose saved stack
  pointer is 5000, and 2000 switches back.
\<close>

definition cpu0 :: cpu where
  "cpu0 = \<lparr>regs = (\<lambda>_. 0)(RDI := 1000, RSI := 2000, RSP := 4000, RBX := 11, R12 := 22),
     mem = (\<lambda>_. 0)(4000 := 77, 2104 := 5000, 2072 := 88), rip = 1\<rparr>"

definition cpu1 :: cpu where
  "cpu1 = (context_swap cpu0)\<lparr>regs := (regs (context_swap cpu0))(RDI := 2000, RSI := 1000, RSP := 4992, RBX := 99)\<rparr>"

lemma cpu0_call: "swap_call cpu0"
  by (simp add: swap_call_def cpu0_def aligned8_def in_ctx_def disjoint_ctx_def slot_addrs14)

lemma cpu1_104: "mem (context_swap cpu0) 1104 = 4000"
proof -
  have "in_ctx (regs cpu0 RDI) 1104" by (simp add: cpu0_def in_ctx_def slot_addrs14)
  from swap_saves [OF cpu0_call this] save_saved [of cpu0] cpu0_call
  show ?thesis by (simp add: swap_call_def saved_def) (simp add: cpu0_def)
qed

lemma cpu1_call: "swap_call cpu1"
  by (simp add: swap_call_def cpu1_def cpu1_104 aligned8_def in_ctx_def disjoint_ctx_def slot_addrs14)

theorem context_swap_round_trip_witness:
  "rip (context_swap cpu1) = 77 \<and> regs (context_swap cpu1) RSP = 4008 \<and> regs (context_swap cpu1) RBX = 11"
  using context_swap_round_trip [OF cpu0_call cpu1_call] by (simp add: cpu1_def cpu0_def)

text \<open>
  C18. The first switch to a coroutine: after \<open>context_make\<close>, \<open>context_swap\<close> enters the
  given function with the two arguments in the argument registers, on the coroutine's own
  stack: the stack pointer and the return-address word below it lie inside the stack, and
  at entry the stack pointer is 8 modulo 16, as the calling convention demands.
\<close>

theorem first_switch_enters:
  assumes sp: "sp = stack_bottom (m (ctx + 120)) (m (ctx + 112))"
    and size: "24 \<le> unat (m (ctx + 112))" "unat (m (ctx + 120)) + unat (m (ctx + 112)) < 2 ^ 64"
    and t: "swap_call t" "regs t RSI = ctx" "\<forall>a. in_ctx ctx a \<longrightarrow> mem t a = context_make ctx func s1 s2 m a"
  shows "rip (context_swap t) = func \<and> regs (context_swap t) RDI = s1 \<and> regs (context_swap t) RSI = s2 \<and>
     regs (context_swap t) RSP = sp + 8 \<and> unat (regs (context_swap t) RSP) mod 16 = 8 \<and>
     unat (m (ctx + 120)) \<le> unat sp \<and> unat sp + 8 \<le> unat (m (ctx + 120)) + unat (m (ctx + 112))"
proof -
  let ?m = "mem (exec_list save_code t)" and ?b = "m (ctx + 120)" and ?n = "m (ctx + 112)"
  have made: "context_make ctx func s1 s2 m (ctx + 104) = sp" "context_make ctx func s1 s2 m (ctx + 72) = func"
    "context_make ctx func s1 s2 m (ctx + 56) = s1" "context_make ctx func s1 s2 m (ctx + 64) = s2"
    using sp by (simp_all add: context_make_def Let_def kRSP_def kRET_def kRDI_def kRSI_def)
  have eq: "?m a = context_make ctx func s1 s2 m a" if "in_ctx ctx a" for a
    using swap_call_loaded(2) [OF t(1), of a] t(2,3) that by simp
  have ld: "loaded ctx ?m (context_swap t)" using swap_call_loaded(1) [OF t(1)] t(2) by simp
  have x: "unat (?b + ?n - 8) = unat ?b + unat ?n - 8"
    using size by (subst unat_sub) (simp_all add: word_le_nat_alt unat_add_u64)
  then have spn: "unat sp = unat ?b + unat ?n - 8 - (unat ?b + unat ?n - 8) mod 16"
    using sp by (simp add: stack_bottom_def align16)
  have b: "unat ?b \<le> unat sp" "unat sp + 8 \<le> unat ?b + unat ?n" "unat sp mod 16 = 0"
    using spn size by (auto simp: minus_mod_eq_div_mult)
  have "unat (sp + 8) = unat sp + 8" using b(2) size(2) by (subst unat_add_u64) auto
  moreover have "(unat sp + 8) mod 16 = 8" using b(3) by presburger
  ultimately show ?thesis using ld made eq b(1,2) by (simp add: loaded_def)
qed

definition mem2 :: "u64 \<Rightarrow> u64" where
  "mem2 = (\<lambda>_. 0)(2120 := 8192, 2112 := 4096)"

definition cpu2 :: cpu where
  "cpu2 = \<lparr>regs = (\<lambda>_. 0)(RDI := 1000, RSI := 2000, RSP := 4000), mem = context_make 2000 77 5 6 mem2, rip = 1\<rparr>"

lemma cpu2_call: "swap_call cpu2"
proof -
  have "context_make 2000 77 5 6 mem2 2104 = 12272"
    by (simp add: context_make_def Let_def kRSP_def kRET_def kRDI_def kRSI_def mem2_def stack_bottom_def)
  then show ?thesis
    by (simp add: swap_call_def cpu2_def aligned8_def in_ctx_def disjoint_ctx_def slot_addrs14)
qed

theorem first_switch_enters_witness:
  "rip (context_swap cpu2) = 77 \<and> regs (context_swap cpu2) RDI = 5 \<and> regs (context_swap cpu2) RSP = 12280"
  using first_switch_enters [of 12272 mem2 2000 cpu2 77 5 6] cpu2_call
  by (simp add: mem2_def stack_bottom_def cpu2_def)

section \<open>Stacks\<close>

definition pageSize :: u64 where
  "pageSize = 4096"

record co_stack =
  co_rut :: ptr
  stack_size :: u32
  stack_bp :: u64
  stack_sp :: u64

text \<open>
  The constructor, with \<open>base\<close> the address that \<open>malloc\<close> or \<open>mmap\<close> returned; the second
  component is the list of protected pages. The assertion excludes a failed \<open>mmap\<close>.
\<close>

definition new_co_stack :: "u32 \<Rightarrow> bool \<Rightarrow> u64 \<Rightarrow> (co_stack \<times> u64 list) option" where
  "new_co_stack ssize protect_mode base =
     (if \<not> protect_mode then
        Some (\<lparr>co_rut = None, stack_size = ssize, stack_bp = base + scast ssize, stack_sp = base\<rparr>, [])
      else if base = - 1 \<or> base = 0 then None
      else Some (\<lparr>co_rut = None, stack_size = ssize, stack_bp = base + pageSize + ucast ssize, stack_sp = base\<rparr>,
             [base, base + pageSize + ucast ssize]))"

text \<open>The destructor calls \<open>free\<close>, which is defined for the blocks of \<open>malloc\<close> and null pointers.\<close>

definition delete_co_stack :: "co_stack \<Rightarrow> u64 set \<Rightarrow> u64 set option" where
  "delete_co_stack st blocks =
     (if stack_sp st = 0 then Some blocks
      else if stack_sp st \<in> blocks then Some (blocks - {stack_sp st}) else None)"

lemma delete_co_stack_frees:
  assumes "new_co_stack n protect base = Some (st, guards)" and "base \<noteq> 0" and "base \<in> blocks \<longleftrightarrow> \<not> protect"
  shows "delete_co_stack st blocks = (if protect then None else Some (blocks - {base}))"
  using assms by (auto simp: new_co_stack_def delete_co_stack_def split: if_splits)

text \<open>
  A coroutine puts its stack between \<open>stack_sp_\<close> and \<open>stack_sp_ + size\<close>, but in the
  protected mode of \<open>co_stack\<close> \<open>stack_sp_\<close> is the start of the lower guard page: the first
  page of the stack cannot be written, and with a stack of at most a page the very first
  word that \<open>context_make\<close> writes is in the guard page.
\<close>

lemma protected_stack_in_guard:
  assumes "new_co_stack n True base = Some (st, guards)" and "24 \<le> unat n" and "unat n \<le> 4096"
    and "unat base + 3 * 4096 < 2 ^ 64"
  shows "hd guards = stack_sp st \<and>
     unat (hd guards) \<le> unat (stack_bottom (stack_sp st) (ucast (stack_size st))) \<and>
     unat (stack_bottom (stack_sp st) (ucast (stack_size st))) + 8 \<le> unat (hd guards) + unat pageSize"
proof -
  have st: "stack_sp st = base" "stack_size st = n" "hd guards = base"
    using assms(1) by (auto simp: new_co_stack_def split: if_splits)
  have u: "unat (ucast n :: u64) = unat n" using assms(3) by (simp add: unsigned_ucast_eq take_bit_nat_eq_self)
  have "unat (base + ucast n - 8) = unat base + unat n - 8"
    using assms(2-4) u by (subst unat_sub) (simp_all add: word_le_nat_alt unat_add_u64)
  then have b: "unat (stack_bottom base (ucast n)) = unat base + unat n - 8 - (unat base + unat n - 8) mod 16"
    by (simp add: stack_bottom_def align16)
  have "(unat base + unat n - 8) mod 16 < 16" by simp
  then have "unat base \<le> unat (stack_bottom base (ucast n))" "unat (stack_bottom base (ucast n)) + 8 \<le> unat base + 4096"
    using b assms(2,3) by linarith+
  then show ?thesis using st by (simp add: pageSize_def)
qed

end
