(* ===== verification/Co_Sys_Call.thy ===== *)
theory Co_Sys_Call
  imports Scheduler
begin

text \<open>
  The blocking calls for coroutines, \<open>co_sys_call.h\<close> and \<open>co_sys_call.cpp\<close>, over the table
  \<open>g_socket_inf\<close> of sockets. The kernel and \<open>register_event\<close> answer through arguments: the
  results of the calls in the order in which the code makes them. A function returns
  \<^term>\<open>None\<close> when it dereferences a null entry of the table, or when the given answers do
  not bring it to its end.
\<close>

section \<open>Sockets\<close>

definition TIME_OUT :: int where
  "TIME_OUT = - 10086"

record timeval =
  tv_sec :: int
  tv_usec :: int

record socket_inf =
  si_domain :: int
  si_fd :: int
  si_istimeout :: bool
  read_timeout :: timeval
  write_timeout :: timeval

text \<open>The map from descriptors to pointers; \<open>Some None\<close> is an entry with a null pointer.\<close>

record sockets =
  g_socket_inf :: "int \<Rightarrow> ptr option"
  infs :: "addr \<Rightarrow> socket_inf option"

text \<open>\<open>new socket_inf(fd)\<close> at the address \<open>a\<close>; the member \<open>domain\<close> is not set.\<close>

definition new_socket_inf :: "addr \<Rightarrow> int \<Rightarrow> sockets \<Rightarrow> sockets" where
  "new_socket_inf a fd g =
     g\<lparr>infs := (infs g)(a \<mapsto> \<lparr>si_domain = 0, si_fd = fd, si_istimeout = False,
         read_timeout = \<lparr>tv_sec = 30, tv_usec = 0\<rparr>, write_timeout = \<lparr>tv_sec = 30, tv_usec = 0\<rparr>\<rparr>),
       g_socket_inf := (g_socket_inf g)(fd \<mapsto> Some a)\<rparr>"

definition delete_socket_inf :: "ptr \<Rightarrow> sockets \<Rightarrow> sockets option" where
  "delete_socket_inf p g =
     (case p of None \<Rightarrow> Some g
      | Some a \<Rightarrow> do {
          x \<leftarrow> infs g a;
          Some (g\<lparr>g_socket_inf := (g_socket_inf g)(si_fd x := None), infs := (infs g)(a := None)\<rparr>)
        })"

text \<open>\<open>g_socket_inf[fd]\<close>: a missing entry is created with a null pointer.\<close>

definition table_at :: "int \<Rightarrow> sockets \<Rightarrow> ptr \<times> sockets" where
  "table_at fd g =
     (case g_socket_inf g fd of Some p \<Rightarrow> (p, g)
      | None \<Rightarrow> (None, g\<lparr>g_socket_inf := (g_socket_inf g)(fd \<mapsto> None)\<rparr>))"

definition inf_at :: "int \<Rightarrow> sockets \<Rightarrow> (socket_inf \<times> sockets) option" where
  "inf_at fd g = do {
     let (p, g) = table_at fd g;
     a \<leftarrow> p;
     x \<leftarrow> infs g a;
     Some (x, g)
   }"

text \<open>\<open>tv_sec * 1000 + tv_usec / 1000\<close>, computed in \<open>long\<close> and stored in an \<open>int\<close>.\<close>

definition timeout_ms :: "timeval \<Rightarrow> int" where
  "timeout_ms tv = signed_take_bit 31 (tv_sec tv * 1000 + tv_usec tv sdiv 1000)"

section \<open>The calls\<close>

text \<open>\<open>fd\<close> is the result of \<open>socket\<close>.\<close>

definition co_socket :: "int \<Rightarrow> int \<Rightarrow> addr \<Rightarrow> sockets \<Rightarrow> int \<times> sockets" where
  "co_socket domain fd a g =
     (if fd < 0 then (fd, g)
      else let g = new_socket_inf a fd g
           in (fd, g\<lparr>infs := (infs g)(a := map_option (\<lambda>x. x\<lparr>si_domain := domain\<rparr>) (infs g a))\<rparr>))"

text \<open>\<open>client_fd\<close> is the result of \<open>accept\<close>; the result of \<open>co_register\<close> is ignored.\<close>

definition co_accept :: "int \<Rightarrow> addr \<Rightarrow> sockets \<Rightarrow> int \<times> sockets" where
  "co_accept client_fd a g = (client_fd, new_socket_inf a client_fd g)"

text \<open>
  \<open>ret\<close> is the result of \<open>connect\<close>, \<open>inprogress\<close> whether \<open>errno\<close> is \<open>EINPROGRESS\<close>,
  \<open>regs\<close> the results of \<open>co_register\<close>, \<open>opt\<close> the result of \<open>getsockopt\<close> with the pending
  error. Each round waits at most 25 seconds.
\<close>

fun connect_loop :: "nat \<Rightarrow> int list \<Rightarrow> bool \<Rightarrow> bool option" where
  "connect_loop 0 regs timeout = Some timeout"
| "connect_loop (Suc n) regs timeout =
     (case regs of [] \<Rightarrow> None
      | r # regs \<Rightarrow> if r = 0 then Some False else connect_loop n regs True)"

definition co_connect :: "int \<Rightarrow> bool \<Rightarrow> int list \<Rightarrow> int \<times> int \<Rightarrow> int option" where
  "co_connect ret inprogress regs opt =
     (if ret = 0 then Some ret
      else if \<not> (ret < 0 \<and> inprogress) then Some ret
      else do {
        timeout \<leftarrow> connect_loop 3 regs False;
        if timeout then Some TIME_OUT
        else if fst opt < 0 then Some (- 1)
        else if snd opt \<noteq> 0 then Some (- 1)
        else Some 0
      })"

definition co_close :: "int \<Rightarrow> int \<Rightarrow> sockets \<Rightarrow> (int \<times> sockets) option" where
  "co_close fd ret g = do {
     let (inf, g) = table_at fd g;
     g \<leftarrow> delete_socket_inf inf g;
     Some (ret, g)
   }"

text \<open>
  \<open>co_read\<close> and \<open>co_recv\<close>: \<open>reg\<close> is \<open>co_register\<close> as a function of the timeout, \<open>ret\<close> the
  result of \<open>read\<close> or \<open>recv\<close>.
\<close>

definition co_read :: "int \<Rightarrow> (int \<Rightarrow> int) \<Rightarrow> int \<Rightarrow> sockets \<Rightarrow> (int \<times> sockets) option" where
  "co_read fd reg ret g = do {
     (inf, g) \<leftarrow> inf_at fd g;
     let timeout = timeout_ms (read_timeout inf);
     let regret = reg timeout;
     if regret \<noteq> 0 then Some (TIME_OUT, g) else Some (ret, g)
   }"

definition co_recv :: "int \<Rightarrow> (int \<Rightarrow> int) \<Rightarrow> int \<Rightarrow> sockets \<Rightarrow> (int \<times> sockets) option" where
  "co_recv sock reg ret g = do {
     (inf, g) \<leftarrow> inf_at sock g;
     let timeout = timeout_ms (read_timeout inf);
     let regret = reg timeout;
     if regret \<noteq> 0 then Some (TIME_OUT, g) else Some (ret, g)
   }"

text \<open>
  The loop of \<open>co_write\<close> and \<open>co_send\<close>, with \<open>co_register\<close> as a function of the timeout
  and the result of the system call in each round; \<open>write_ret\<close> and \<open>n\<close> are the local
  variables \<open>write_ret\<close> and \<open>write_size\<close>, and the text is what the kernel has taken so
  far.
\<close>

definition write_result :: "int \<Rightarrow> nat \<Rightarrow> int" where
  "write_result write_ret n = (if write_ret \<le> 0 \<and> n = 0 then write_ret else int n)"

fun write_loop :: "((int \<Rightarrow> int) \<times> int) list \<Rightarrow> string \<Rightarrow> int \<Rightarrow> int \<Rightarrow> nat \<Rightarrow> string \<Rightarrow> (int \<times> string) option" where
  "write_loop ws buf timeout write_ret n out =
     (if n < length buf then
        (case ws of [] \<Rightarrow> None
         | (reg, ret) # ws \<Rightarrow>
           if reg timeout \<noteq> 0 then Some (TIME_OUT, out)
           else if ret \<le> 0 then Some (write_result ret n, out)
           else write_loop ws buf timeout ret (n + nat ret) (out @ take (nat ret) (drop n buf)))
      else Some (write_result write_ret n, out))"

declare write_loop.simps [simp del]

definition co_write ::
    "int \<Rightarrow> int \<Rightarrow> ((int \<Rightarrow> int) \<times> int) list \<Rightarrow> string \<Rightarrow> sockets \<Rightarrow> (int \<times> string) option" where
  "co_write fd ret ws buf g = do {
     (inf, g) \<leftarrow> inf_at fd g;
     let timeout = timeout_ms (write_timeout inf);
     if ret \<le> 0 then Some (ret, [])
     else write_loop ws buf timeout ret (nat ret) (take (nat ret) buf)
   }"

definition co_send ::
    "int \<Rightarrow> int \<Rightarrow> ((int \<Rightarrow> int) \<times> int) list \<Rightarrow> string \<Rightarrow> sockets \<Rightarrow> (int \<times> string) option" where
  "co_send sock ret ws buf g = do {
     (inf, g) \<leftarrow> inf_at sock g;
     let timeout = timeout_ms (write_timeout inf);
     if ret = 0 then Some (ret, [])
     else if ret > 0 then write_loop ws buf timeout ret (nat ret) (take (nat ret) buf)
     else write_loop ws buf timeout ret 0 []
   }"

section \<open>Specification\<close>

text \<open>The answers of the kernel to the writes: never more than was asked for.\<close>

fun answers_ok :: "((int \<Rightarrow> int) \<times> int) list \<Rightarrow> nat \<Rightarrow> bool" where
  "answers_ok [] n \<longleftrightarrow> True"
| "answers_ok ((reg, ret) # ws) n \<longleftrightarrow> ret \<le> int n \<and> answers_ok ws (n - nat ret)"

text \<open>Every write makes progress and no wait times out.\<close>

definition progress :: "((int \<Rightarrow> int) \<times> int) list \<Rightarrow> bool" where
  "progress ws \<longleftrightarrow> (\<forall>(reg, ret) \<in> set ws. (\<forall>t. reg t = 0) \<and> 0 < ret)"

text \<open>The table has no null entries and every entry belongs to its descriptor.\<close>

definition table_ok :: "sockets \<Rightarrow> bool" where
  "table_ok g \<longleftrightarrow> (\<forall>fd p. g_socket_inf g fd = Some p \<longrightarrow>
     (\<exists>a x. p = Some a \<and> infs g a = Some x \<and> si_fd x = fd))"

section \<open>Lemmas\<close>

lemma take_drop_step: "take n buf @ take m (drop n buf) = take (n + m) buf"
  by (simp add: take_add)

lemma write_loop_ok:
  assumes "answers_ok ws (length buf - n)" and "n \<le> length buf" and "0 < wr"
    and "write_loop ws buf t wr n (take n buf) = Some (r, out)"
  shows "\<exists>k. n \<le> k \<and> k \<le> length buf \<and> out = take k buf \<and> (r > 0 \<longrightarrow> r = int k) \<and>
     (r = int (length buf) \<or> r = TIME_OUT \<or> k < length buf)"
  using assms
proof (induction ws arbitrary: n wr)
  case Nil
  then show ?case by (auto simp: write_loop.simps write_result_def split: if_splits)
next
  case (Cons w ws)
  obtain reg ret where w: "w = (reg, ret)" by (cases w)
  show ?case
  proof (cases "n < length buf \<and> reg t = 0 \<and> 0 < ret")
    case True
    then have lt: "n < length buf" "reg t = 0" "0 < ret" by auto
    have le: "nat ret \<le> length buf - n" and ok: "answers_ok ws (length buf - (n + nat ret))"
      using Cons.prems(1) w by auto
    have run: "write_loop ws buf t ret (n + nat ret) (take (n + nat ret) buf) = Some (r, out)"
      using Cons.prems(4) lt w by (simp add: write_loop.simps [of "x # xs" for x xs] take_drop_step)
    have "n + nat ret \<le> length buf" using le lt(1) by linarith
    from Cons.IH [OF ok this lt(3) run] obtain k where "n + nat ret \<le> k" "k \<le> length buf" "out = take k buf"
      "r > 0 \<longrightarrow> r = int k" "r = int (length buf) \<or> r = TIME_OUT \<or> k < length buf" by blast
    then show ?thesis by (intro exI [of _ k]) auto
  next
    case False
    then show ?thesis
      using Cons.prems(2-4) w
      by (intro exI [of _ n])
        (auto simp: write_loop.simps [of "x # xs" for x xs] write_result_def TIME_OUT_def split: if_splits)
  qed
qed

lemma write_loop_delivers:
  assumes "answers_ok ws (length buf - n)" and "n \<le> length buf" and "progress ws" and "length buf - n \<le> length ws"
    and "0 < wr"
  shows "write_loop ws buf t wr n (take n buf) = Some (int (length buf), buf)"
  using assms
proof (induction ws arbitrary: n wr)
  case Nil
  then show ?case by (simp add: write_loop.simps write_result_def)
next
  case (Cons w ws)
  obtain reg ret where w: "w = (reg, ret)" by (cases w)
  show ?case
  proof (cases "n < length buf")
    case True
    have r: "reg t = 0" "0 < ret" using Cons.prems(3) w by (auto simp: progress_def)
    have le: "nat ret \<le> length buf - n" and ok: "answers_ok ws (length buf - (n + nat ret))"
      using Cons.prems(1) w by auto
    have "n + nat ret \<le> length buf" "length buf - (n + nat ret) \<le> length ws" "progress ws"
      using le True r(2) Cons.prems(3,4) by (auto simp: progress_def)
    from Cons.IH [OF ok this(1,3,2) r(2)] True r w show ?thesis
      by (simp add: write_loop.simps [of "x # xs" for x xs] take_drop_step)
  next
    case False
    with Cons.prems(2,5) show ?thesis by (simp add: write_loop.simps [of "x # xs" for x xs] write_result_def)
  qed
qed

lemma timeout_ms_default: "timeout_ms \<lparr>tv_sec = 30, tv_usec = 0\<rparr> = 30000"
  by (simp add: timeout_ms_def)

lemma inf_at_ok:
  assumes "table_ok g" and "g_socket_inf g fd \<noteq> None"
  shows "\<exists>x. inf_at fd g = Some (x, g) \<and> si_fd x = fd"
  using assms by (fastforce simp: table_ok_def inf_at_def table_at_def)

lemma inf_at_missing: "g_socket_inf g fd = None \<Longrightarrow> inf_at fd g = None"
  by (simp add: inf_at_def table_at_def)

lemma new_socket_inf_ok:
  assumes "table_ok g" and "infs g a = None"
  shows "table_ok (new_socket_inf a fd g)"
  unfolding table_ok_def
proof (intro allI impI)
  fix fd2 p assume p: "g_socket_inf (new_socket_inf a fd g) fd2 = Some p"
  show "\<exists>b x. p = Some b \<and> infs (new_socket_inf a fd g) b = Some x \<and> si_fd x = fd2"
  proof (cases "fd2 = fd")
    case True
    with p show ?thesis by (intro exI [of _ a]) (simp add: new_socket_inf_def)
  next
    case False
    with p have "g_socket_inf g fd2 = Some p" by (simp add: new_socket_inf_def)
    with assms(1) obtain c y where "p = Some c" "infs g c = Some y" "si_fd y = fd2" unfolding table_ok_def by blast
    with assms(2) show ?thesis by (auto simp: new_socket_inf_def)
  qed
qed

lemma table_ok_touch:
  assumes "table_ok g" and "\<And>x. si_fd (f x) = si_fd x"
  shows "table_ok (g\<lparr>infs := (infs g)(a := map_option f (infs g a))\<rparr>)"
  using assms unfolding table_ok_def by (simp add: fun_upd_def) (metis option.simps(9))

section \<open>Properties\<close>

definition sock5 :: sockets where
  "sock5 = new_socket_inf 1 5 \<lparr>g_socket_inf = Map.empty, infs = Map.empty\<rparr>"

lemma sock5_ok: "table_ok sock5" "g_socket_inf sock5 5 \<noteq> None"
  by (auto simp: sock5_def table_ok_def new_socket_inf_def split: if_splits)

text \<open>
  \<open>co_write\<close> hands the bytes of the buffer to the kernel in order, each once: when it
  returns, the kernel has taken a prefix of the buffer; a positive result is exactly the
  length of this prefix, and the call returns the full length, reports a timeout, or has
  stopped at an error before the end. If every write makes progress, it returns with the
  whole buffer written after at most one wait per byte.
\<close>

lemma co_write_prefix:
  assumes "table_ok g" and "g_socket_inf g fd \<noteq> None" and "ret \<le> int (length buf)"
    and "answers_ok ws (length buf - nat ret)"
  shows "(\<forall>r out. co_write fd ret ws buf g = Some (r, out) \<longrightarrow>
       (\<exists>k \<le> length buf. out = take k buf \<and> (r > 0 \<longrightarrow> r = int k) \<and>
          (r = int (length buf) \<or> r = TIME_OUT \<or> k < length buf \<or> ret \<le> 0))) \<and>
     (0 < ret \<longrightarrow> progress ws \<longrightarrow> length buf - nat ret \<le> length ws \<longrightarrow>
       co_write fd ret ws buf g = Some (int (length buf), buf))"
proof -
  obtain x where x: "inf_at fd g = Some (x, g)" using inf_at_ok [OF assms(1,2)] by blast
  have eq: "co_write fd ret ws buf g =
      (if ret \<le> 0 then Some (ret, [])
       else write_loop ws buf (timeout_ms (write_timeout x)) ret (nat ret) (take (nat ret) buf))"
    using x by (simp add: co_write_def)
  have le: "nat ret \<le> length buf" using assms(3) by simp
  have "\<exists>k \<le> length buf. out = take k buf \<and> (r > 0 \<longrightarrow> r = int k) \<and>
      (r = int (length buf) \<or> r = TIME_OUT \<or> k < length buf \<or> ret \<le> 0)"
    if run: "co_write fd ret ws buf g = Some (r, out)" for r out
  proof (cases "ret \<le> 0")
    case True
    with run eq show ?thesis by (auto intro!: exI [of _ 0])
  next
    case False
    with run eq have "write_loop ws buf (timeout_ms (write_timeout x)) ret (nat ret) (take (nat ret) buf) = Some (r, out)"
      by simp
    from write_loop_ok [OF assms(4) le _ this] False show ?thesis by auto
  qed
  moreover have "co_write fd ret ws buf g = Some (int (length buf), buf)"
    if "0 < ret" "progress ws" "length buf - nat ret \<le> length ws"
    using write_loop_delivers [OF assms(4) le that(2,3,1)] that(1) eq by simp
  ultimately show ?thesis by blast
qed

text \<open>
  C34. The table of sockets: opening and accepting sockets at fresh addresses keeps every
  entry valid, and closing a socket of the table removes exactly its entry, frees its
  record and keeps the rest valid, so no later call can reach the freed record.
\<close>

theorem socket_table:
  assumes "table_ok g" and "infs g a = None"
  shows "table_ok (snd (co_socket domain fd a g)) \<and> table_ok (snd (co_accept client_fd a g)) \<and>
     (\<forall>fd'. g_socket_inf g fd' \<noteq> None \<longrightarrow> (\<exists>g'. co_close fd' ret g = Some (ret, g') \<and> table_ok g' \<and>
        g_socket_inf g' = (g_socket_inf g)(fd' := None)))"
proof (intro conjI allI impI)
  show "table_ok (snd (co_socket domain fd a g))"
    using new_socket_inf_ok [OF assms, of fd] assms(1)
    by (auto simp: co_socket_def Let_def intro: table_ok_touch)
  show "table_ok (snd (co_accept client_fd a g))"
    using new_socket_inf_ok [OF assms] by (simp add: co_accept_def)
  fix fd' assume "g_socket_inf g fd' \<noteq> None"
  with assms(1) obtain b x where b: "g_socket_inf g fd' = Some (Some b)" "infs g b = Some x" "si_fd x = fd'"
    unfolding table_ok_def by blast
  let ?g = "g\<lparr>g_socket_inf := (g_socket_inf g)(fd' := None), infs := (infs g)(b := None)\<rparr>"
  have run: "co_close fd' ret g = Some (ret, ?g)"
    using b by (simp add: co_close_def table_at_def delete_socket_inf_def)
  have "table_ok ?g"
    unfolding table_ok_def
  proof (intro allI impI)
    fix fd2 p assume p: "g_socket_inf ?g fd2 = Some p"
    then have "fd2 \<noteq> fd'" "g_socket_inf g fd2 = Some p" by (auto split: if_splits)
    with assms(1) obtain c y where "p = Some c" "infs g c = Some y" "si_fd y = fd2" unfolding table_ok_def by blast
    with b \<open>fd2 \<noteq> fd'\<close> show "\<exists>a x. p = Some a \<and> infs ?g a = Some x \<and> si_fd x = fd2" by auto
  qed
  with run show "\<exists>g'. co_close fd' ret g = Some (ret, g') \<and> table_ok g' \<and> g_socket_inf g' = (g_socket_inf g)(fd' := None)"
    by auto
qed

theorem socket_table_witness: "\<exists>g'. co_close 5 0 sock5 = Some (0, g') \<and> g_socket_inf g' 5 = None"
  using socket_table [OF sock5_ok(1), of 2 0 6 7 0] sock5_ok(2) by (force simp: sock5_def new_socket_inf_def)

text \<open>
  Descriptors that are not in the table: \<open>co_read\<close>, \<open>co_recv\<close>, \<open>co_write\<close> and
  \<open>co_send\<close> dereference a null pointer, and \<open>co_close\<close> prints a message but then creates
  an entry with a null pointer and leaves it there.
\<close>

lemma unknown_socket:
  assumes "g_socket_inf g fd = None"
  shows "co_read fd reg ret g = None \<and> co_recv fd reg ret g = None \<and> co_write fd ret ws buf g = None \<and>
     co_send fd ret ws buf g = None \<and>
     (\<exists>g'. co_close fd ret g = Some (ret, g') \<and> g_socket_inf g' fd = Some None \<and> \<not> table_ok g')"
  using assms inf_at_missing [OF assms]
  by (auto simp: co_read_def co_recv_def co_write_def co_send_def co_close_def table_at_def delete_socket_inf_def table_ok_def)

end
