(* ===== verification/Sched_Registry.thy ===== *)
theory Sched_Registry
  imports Scheduler
begin

text \<open>
  The helpers of \<open>tool.cpp\<close> and the registry of schedulers in \<open>scheduler.cpp\<close>, which maps
  every thread to its scheduler.
\<close>

section \<open>Tools\<close>

text \<open>\<open>GetNowTimeMs\<close>, for the seconds and microseconds of \<open>gettimeofday\<close>.\<close>

definition GetNowTimeMs :: "int \<Rightarrow> int \<Rightarrow> u64" where
  "GetNowTimeMs sec usec =
     (let ret = word_of_int sec; ret = ret * 1000 in ret + word_of_int (usec sdiv 1000))"

text \<open>
  \<open>GetPid\<close> returns the id of the thread; the thread-local variables \<open>pid\<close> and \<open>tid\<close> cache
  it, and a different process id, after a \<open>fork\<close>, empties the cache.
\<close>

record pid_cache =
  c_pid :: int
  c_tid :: int

definition GetPid :: "int \<Rightarrow> int \<Rightarrow> pid_cache \<Rightarrow> int \<times> pid_cache" where
  "GetPid getpid gettid c =
     (let c = (if c_pid c = 0 \<or> c_tid c = 0 \<or> c_pid c \<noteq> getpid
               then \<lparr>c_pid = getpid, c_tid = gettid\<rparr> else c)
      in (c_tid c, c))"

text \<open>
  \<open>SetAddr\<close>: \<open>htons\<close> swaps the two bytes of the port on this machine, \<open>INADDR_ANY\<close> is 0, and
  \<open>inet_addr\<close> is code of the C library.
\<close>

record sockaddr_in =
  sin_family :: int
  sin_port :: "16 word"
  sin_addr :: u32

definition htons :: "16 word \<Rightarrow> 16 word" where
  "htons p = push_bit 8 p + drop_bit 8 p"

definition SetAddr :: "(string \<Rightarrow> u32) \<Rightarrow> string option \<Rightarrow> 16 word \<Rightarrow> sockaddr_in" where
  "SetAddr inet_addr ip port =
     \<lparr>sin_family = 2, sin_port = htons port,
      sin_addr = (case ip of None \<Rightarrow> 0
                  | Some s \<Rightarrow> if s = [] \<or> s = ''0'' \<or> s = ''0.0.0.0'' then 0 else inet_addr s)\<rparr>"

section \<open>The registry\<close>

text \<open>\<open>scheds\<close> holds the scheduler objects whose constructor has initialised them.\<close>

record registry =
  g_thr_to_sch :: "int \<Rightarrow> addr option"
  scheds :: "addr \<Rightarrow> sched option"

text \<open>
  The constructor for the object at \<open>a\<close>, in the thread \<open>tid\<close>; \<open>s\<close> is the new scheduler. In a
  thread that has one it prints a message and returns, leaving the object uninitialised.
\<close>

definition scheduler_ctor :: "int \<Rightarrow> addr \<Rightarrow> sched \<Rightarrow> registry \<Rightarrow> registry" where
  "scheduler_ctor tid a s r =
     (if g_thr_to_sch r tid \<noteq> None then r\<lparr>scheds := (scheds r)(a := None)\<rparr>
      else r\<lparr>g_thr_to_sch := (g_thr_to_sch r)(tid \<mapsto> a), scheds := (scheds r)(a \<mapsto> s)\<rparr>)"

definition get_curr_thr_sch :: "int \<Rightarrow> registry \<Rightarrow> addr option" where
  "get_curr_thr_sch tid r = g_thr_to_sch r tid"

definition get_curr_thr_co :: "int \<Rightarrow> registry \<Rightarrow> addr option" where
  "get_curr_thr_co tid r = do {
     a \<leftarrow> get_curr_thr_sch tid r;
     s \<leftarrow> scheds r a;
     get_curr_co s
   }"

text \<open>
  The destructors of the wheel and of the epoll wrapper delete their lists, not the items
  in them; closing the descriptor of epoll empties its interest list. \<^term>\<open>None\<close> is a fault.
\<close>

definition delete_link :: "addr \<Rightarrow> theap \<Rightarrow> theap option" where
  "delete_link a h = do { k \<leftarrow> tlinks h a; Some (h\<lparr>tlinks := (tlinks h)(a := None)\<rparr>) }"

fun delete_links :: "addr list \<Rightarrow> theap \<Rightarrow> theap option" where
  "delete_links [] h = Some h"
| "delete_links (a # as) h = do { h \<leftarrow> delete_link a h; delete_links as h }"

definition delete_time_wheel :: "time_wheel \<Rightarrow> theap \<Rightarrow> theap option" where
  "delete_time_wheel tw h = delete_links (tw_slots tw) h"

definition delete_co_epoll :: "co_epoll \<Rightarrow> theap \<Rightarrow> (co_epoll \<times> theap) option" where
  "delete_co_epoll e h = do {
     let e = e\<lparr>interest := Map.empty\<rparr>;
     h \<leftarrow> delete_link (active_link e) h;
     h \<leftarrow> delete_link (timeout_link e) h;
     Some (e, h)
   }"

text \<open>
  The destructor: it deletes every coroutine on the call stack, the main coroutine last,
  then the epoll wrapper and the wheel.
\<close>

fun delete_stack :: "addr list \<Rightarrow> sched \<Rightarrow> sched option" where
  "delete_stack [] s = Some s"
| "delete_stack (c # cs) s = do {
     s \<leftarrow> delete_coroutine c (s\<lparr>co_call_stack := cs\<rparr>);
     delete_stack cs s
   }"

definition scheduler_dtor :: "int \<Rightarrow> addr \<Rightarrow> registry \<Rightarrow> registry \<times> sched option" where
  "scheduler_dtor tid a r =
     (let r = r\<lparr>g_thr_to_sch := (g_thr_to_sch r)(tid := None)\<rparr> in
      (r\<lparr>scheds := (scheds r)(a := None)\<rparr>,
       do {
         s \<leftarrow> scheds r a;
         s \<leftarrow> delete_stack (co_call_stack s) s;
         (e, h) \<leftarrow> delete_co_epoll (sch_epoll s) (hp s);
         h \<leftarrow> delete_time_wheel (sch_tw s) h;
         Some (s\<lparr>sch_epoll := e, hp := h\<rparr>)
       }))"

section \<open>Lemmas\<close>

lemma GetNowTimeMs_unat:
  assumes "0 \<le> sec" and "sec < 2 ^ 53" and "0 \<le> usec" and "usec < 1000000"
  shows "unat (GetNowTimeMs sec usec) = nat sec * 1000 + nat usec div 1000"
proof -
  have q: "usec sdiv 1000 = usec div 1000" using assms(3) by (cases "usec = 0") (simp_all add: signed_divide_int_def)
  have "GetNowTimeMs sec usec = word_of_int (sec * 1000 + usec div 1000)"
    by (simp add: GetNowTimeMs_def q)
  moreover have "0 \<le> sec * 1000 + usec div 1000" "sec * 1000 + usec div 1000 < 2 ^ 64" using assms by auto
  ultimately have "unat (GetNowTimeMs sec usec) = nat (sec * 1000 + usec div 1000)"
    using unat_u64_of_int [of "sec * 1000 + usec div 1000"] by (simp only: u64_of_int_def)
  also have "\<dots> = nat sec * 1000 + nat usec div 1000"
    using assms by (simp add: nat_add_distrib nat_mult_distrib nat_div_distrib)
  finally show ?thesis .
qed

lemma delete_stack_main:
  assumes "cos s m = Some co" and "co_conn co = None"
  shows "m \<notin> set cs \<Longrightarrow> delete_stack (cs @ [m]) s = None"
  using assms
proof (induction cs arbitrary: s)
  case Nil
  then show ?case by (simp add: delete_coroutine_def)
next
  case (Cons c cs)
  show ?case
  proof (cases "delete_coroutine c (s\<lparr>co_call_stack := cs @ [m]\<rparr>)")
    case (Some s')
    then have "cos s' m = Some co" using Cons.prems by (auto simp: delete_coroutine_def bind_eq_Some_conv)
    then show ?thesis using Cons Some by simp
  qed simp
qed

lemma delete_links_frees:
  assumes "distinct as" and "\<forall>a \<in> set as. tlinks h a \<noteq> None"
  shows "delete_links as h = Some (h\<lparr>tlinks := (\<lambda>a. if a \<in> set as then None else tlinks h a)\<rparr>)"
  using assms
proof (induction as arbitrary: h)
  case (Cons a as)
  from Cons.prems obtain k where k: "tlinks h a = Some k" by auto
  let ?h = "h\<lparr>tlinks := (tlinks h)(a := None)\<rparr>"
  have "\<forall>x \<in> set as. tlinks ?h x \<noteq> None" using Cons.prems by auto
  from Cons.IH [OF _ this] Cons.prems(1) have "delete_links as ?h =
      Some (?h\<lparr>tlinks := (\<lambda>x. if x \<in> set as then None else tlinks ?h x)\<rparr>)" by simp
  moreover have "(\<lambda>x. if x \<in> set as then None else tlinks ?h x) = (\<lambda>x. if x \<in> set (a # as) then None else tlinks h x)"
    by auto
  ultimately show ?case using k by (simp add: delete_link_def)
qed simp

text \<open>
  The rest of the destructor would be in order: it frees each list of the wheel and of the
  epoll wrapper once, and leaves the items that are still queued behind.
\<close>

lemma delete_lists_frees:
  assumes "distinct (active_link e # timeout_link e # tw_slots tw)"
    and "\<forall>a \<in> set (active_link e # timeout_link e # tw_slots tw). tlinks h a \<noteq> None"
  shows "\<exists>e' h' h''. delete_co_epoll e h = Some (e', h') \<and> delete_time_wheel tw h' = Some h'' \<and>
     (\<forall>a. tlinks h'' a \<noteq> None \<longrightarrow> tlinks h a \<noteq> None \<and> a \<notin> set (active_link e # timeout_link e # tw_slots tw)) \<and>
     titems h'' = titems h"
proof -
  obtain k k' where k: "tlinks h (active_link e) = Some k" "tlinks h (timeout_link e) = Some k'" using assms(2) by auto
  let ?h = "h\<lparr>tlinks := (tlinks h)(active_link e := None, timeout_link e := None)\<rparr>"
  have "delete_co_epoll e h = Some (e\<lparr>interest := Map.empty\<rparr>, ?h)"
    using k assms(1) by (simp add: delete_co_epoll_def delete_link_def)
  moreover have "\<forall>a \<in> set (tw_slots tw). tlinks ?h a \<noteq> None" using assms by auto
  from delete_links_frees [OF _ this] assms(1)
  have "delete_time_wheel tw ?h = Some (?h\<lparr>tlinks := (\<lambda>a. if a \<in> set (tw_slots tw) then None else tlinks ?h a)\<rparr>)"
    by (simp add: delete_time_wheel_def)
  ultimately show ?thesis by auto
qed

section \<open>Properties\<close>

text \<open>
  The registry: a scheduler made in a thread without one is found by this thread and
  by no other, until it is destroyed. A second one in the same thread is never found and
  never initialised, but its destructor takes the first one out of the registry; after
  that, calls such as \<open>get_curr_thr_sch\<close> find nothing in a thread whose scheduler is alive.
\<close>

lemma scheduler_registry:
  assumes "get_curr_thr_sch tid r = None" and "a \<noteq> b"
  shows "get_curr_thr_sch tid (scheduler_ctor tid a s r) = Some a \<and>
     (\<forall>t. t \<noteq> tid \<longrightarrow> get_curr_thr_sch t (scheduler_ctor tid a s r) = get_curr_thr_sch t r) \<and>
     get_curr_thr_sch tid (scheduler_ctor tid b s2 (scheduler_ctor tid a s r)) = Some a \<and>
     scheds (scheduler_ctor tid b s2 (scheduler_ctor tid a s r)) b = None \<and>
     get_curr_thr_sch tid (fst (scheduler_dtor tid b (scheduler_ctor tid b s2 (scheduler_ctor tid a s r)))) = None \<and>
     scheds (fst (scheduler_dtor tid b (scheduler_ctor tid b s2 (scheduler_ctor tid a s r)))) a = Some s"
  using assms by (simp add: get_curr_thr_sch_def scheduler_ctor_def scheduler_dtor_def Let_def)

text \<open>
  The destructor of every scheduler whose call stack ends in its main coroutine reads a
  pointer that was never set: the constructor for main coroutines leaves \<open>conn_\<close> out.
\<close>

lemma scheduler_dtor_faults:
  assumes "scheds r a = Some s" and "co_call_stack s = cs @ [m]" and "m \<notin> set cs" and "cos s m = Some new_main_coroutine"
  shows "snd (scheduler_dtor tid a r) = None"
  using assms delete_stack_main [of s m new_main_coroutine cs]
  by (simp add: scheduler_dtor_def Let_def new_main_coroutine_def)

text \<open>The clock of the scheduler runs forwards when the system's does.\<close>

lemma GetNowTimeMs_mono:
  assumes "0 \<le> sec" and "sec' < 2 ^ 53" and "0 \<le> usec" "usec < 1000000" "0 \<le> usec'" "usec' < 1000000"
    and "sec < sec' \<or> sec = sec' \<and> usec \<le> usec'"
  shows "GetNowTimeMs sec usec \<le> GetNowTimeMs sec' usec'"
proof -
  have "nat sec * 1000 + nat usec div 1000 \<le> nat sec' * 1000 + nat usec' div 1000"
    using assms(7)
  proof (elim disjE conjE)
    assume "sec < sec'"
    then have "nat sec + 1 \<le> nat sec'" using assms(1) by linarith
    moreover have "nat usec div 1000 < 1000" using assms(4) by linarith
    ultimately show ?thesis by linarith
  next
    assume "sec = sec'" "usec \<le> usec'"
    then show ?thesis by (simp add: div_le_mono nat_mono)
  qed
  then show ?thesis
    using assms GetNowTimeMs_unat [of sec usec] GetNowTimeMs_unat [of sec' usec'] by (simp add: word_le_nat_alt) linarith
qed

text \<open>\<open>GetPid\<close> is the id of the calling thread, also in a process made by \<open>fork\<close>.\<close>

lemma GetPid_current:
  assumes "c_pid c = pid \<longrightarrow> c_tid c = 0 \<or> c_tid c = tid"
  shows "fst (GetPid pid tid c) = tid"
  using assms by (auto simp: GetPid_def Let_def)

end
