(* ===== verification/Co_Blocking.thy ===== *)
theory Co_Blocking
  imports Co_Sys_Call Sched_Times Sched_Registry
begin

text \<open>
  A blocking call on its way through the library: \<open>co_register\<close> finds the scheduler of the
  thread, \<open>register_event\<close> puts the coroutine to sleep, the event loop wakes it, and the call
  returns. \<open>Co_Sys_Call\<close> takes the result of \<open>co_register\<close> as an argument; here it is the
  result of the scheduler, so the calls are split where the coroutine yields.
\<close>

section \<open>Operations\<close>

text \<open>\<open>co_register\<close> in the thread \<open>tid\<close>, up to the \<open>yield()\<close> of \<open>register_event\<close>.\<close>

definition co_register_begin ::
    "int \<Rightarrow> int \<Rightarrow> u32 \<Rightarrow> int \<Rightarrow> u64 \<Rightarrow> addr \<Rightarrow> addr \<Rightarrow> registry \<Rightarrow> ((int + unit) \<times> registry) option" where
  "co_register_begin tid socket events timeout now ae at r = do {
     sch \<leftarrow> get_curr_thr_sch tid r;
     s \<leftarrow> scheds r sch;
     (ret, s) \<leftarrow> register_begin socket events timeout now ae at s;
     Some (ret, r\<lparr>scheds := (scheds r)(sch \<mapsto> s)\<rparr>)
   }"

text \<open>\<open>EPOLLIN | EPOLLERR | EPOLLHUP\<close>.\<close>

definition READ_EVENTS :: u32 where
  "READ_EVENTS = 25"

text \<open>
  \<open>co_read\<close> after \<open>co_register\<close> has returned \<open>regret\<close>; \<open>readret\<close> is the result of \<open>read\<close>.
\<close>

definition co_read_end :: "int \<Rightarrow> int \<Rightarrow> int" where
  "co_read_end regret readret = (if regret \<noteq> 0 then TIME_OUT else readret)"

definition co_read_begin ::
    "int \<Rightarrow> int \<Rightarrow> u64 \<Rightarrow> addr \<Rightarrow> addr \<Rightarrow> int \<Rightarrow> sockets \<Rightarrow> registry \<Rightarrow> ((int + unit) \<times> registry) option" where
  "co_read_begin tid fd now ae at readret g r = do {
     (inf, g) \<leftarrow> inf_at fd g;
     (q, r) \<leftarrow> co_register_begin tid fd READ_EVENTS (timeout_ms (read_timeout inf)) now ae at r;
     Some (case q of Inl regret \<Rightarrow> Inl (co_read_end regret readret) | Inr _ \<Rightarrow> Inr (), r)
   }"

section \<open>Lemmas\<close>

text \<open>The two halves are \<open>co_read\<close>, for a \<open>co_register\<close> with the given result.\<close>

lemma co_read_split:
  assumes "inf_at fd g = Some (x, g')"
  shows "co_read fd (\<lambda>_. regret) readret g = Some (co_read_end regret readret, g')"
  using assms by (simp add: co_read_def co_read_end_def)

text \<open>
  The first half: the coroutine sleeps on the descriptor until the read timeout of the socket,
  counted from now, and the kernel is asked for the right events.
\<close>

lemma co_read_begin_sleeps:
  assumes r: "get_curr_thr_sch tid r = Some sch" "scheds r sch = Some s"
    and inv: "sched_inv m pc s" and st: "co_call_stack s = c # c' # rest"
    and x: "inf_at fd g = Some (x, g')" and ok: "register_ok fd (timeout_ms (read_timeout x)) now ae at s"
    and le: "timeout_ms (read_timeout x) \<le> w_size (sch_tw s)"
  shows "\<exists>r' s'. co_read_begin tid fd now ae at readret g r = Some (Inr (), r') \<and> scheds r' sch = Some s' \<and>
     susp s' c = InRegister fd ae at \<and> sched_inv m pc s' \<and>
     expire_of (hp s') at = Some (if timeout_ms (read_timeout x) = - 1 then 0 else unat now + nat (timeout_ms (read_timeout x)))"
proof -
  let ?ms = "timeout_ms (read_timeout x)"
  from inv obtain L A where l: "stack_ok m s" "lists_ok L A s" "waits L A s" by (auto simp: sched_inv_def)
  have len: "length (co_call_stack s) > 1" using st by simp
  from step_register [OF inv len ok, of READ_EVENTS] obtain q s' where
    s': "register_begin fd READ_EVENTS ?ms now ae at s = Some (q, s')" "sched_inv m pc s'" by blast
  from register_begin_ok [OF st stack_top(1) [OF l(1) st] l(2,3) ok, of READ_EVENTS] s'(1)
  have run: "q = Inr ()" "susp s' c = InRegister fd ae at"
    "expire_of (hp s') at = Some (if ?ms = - 1 then 0 else unat now + nat ?ms)"
    using le by (auto simp: asleep_def)
  with r s' run x show ?thesis by (simp add: co_read_begin_def co_register_begin_def)
qed

section \<open>Properties\<close>

text \<open>
  The outcome of a blocked \<open>co_read\<close>: at each poll of the event loop the coroutine becomes
  ready exactly if its descriptor has an event or its deadline has passed. If it has an event
  the call will return what \<open>read\<close> returns, even if the deadline has passed too; otherwise it
  will return \<open>TIME_OUT\<close>. If neither is the case it sleeps on unchanged.
\<close>

lemma co_read_outcome:
  assumes "sched_inv m AtPoll s" and "susp s c = InRegister fd e t" and "events_ok evs s" and "time_ok now s"
  shows "\<exists>s' A. loop_collect evs now s = Some (False, s') \<and> dll (hp s') (active_link (sch_epoll s')) A \<and>
     susp s' c = InRegister fd e t \<and>
     (t \<in> set A \<longleftrightarrow> e \<in> set evs \<or> (\<exists>n. expire_of (hp s) t = Some n \<and> 0 < n \<and> n \<le> unat now)) \<and>
     (t \<in> set A \<longrightarrow> co_read_end (result (eitems s') (susp s' c)) readret = (if e \<in> set evs then readret else TIME_OUT)) \<and>
     (t \<notin> set A \<longrightarrow> expire_of (hp s') t = expire_of (hp s) t)"
proof -
  from assms(1) obtain L A where ok: "lists_ok L A s" "waits L A s" "quiet A s" by (auto simp: sched_inv_def)
  from poll_round_inv [OF assms(1,3,4) lists_ok_active [OF ok(1)]] obtain s' ts due where
    s': "loop_collect evs now s = Some (False, s')" "collected s s'"
      "dll (hp s') (active_link (sch_epoll s)) (A @ ts @ due)"
      "list_all2 (\<lambda>e t. \<exists>c fd. susp s c = InRegister fd e t) evs ts"
    and reg: "(t \<in> set due \<longleftrightarrow> t \<notin> set ts \<and> (\<exists>n. expire_of (hp s) t = Some n \<and> 0 < n \<and> n \<le> unat now)) \<and>
        (\<exists>x. eitems s' e = Some x \<and> (ei_is_timeout x \<longleftrightarrow> t \<in> set due))"
    using assms(2) by blast
  have tA: "t \<notin> set A" using ok(3) assms(2) unfolding quiet_def by blast
  have ev: "t \<in> set ts \<longleftrightarrow> e \<in> set evs"
  proof -
    have same: "e' = e \<longleftrightarrow> t' = t" if "susp s d = InRegister f e' t'" for d f e' t'
      using recs_inj [OF waitsD(1) [OF ok(2) [unfolded waits_def]], of d e' t' c e t] that assms(2) by simp
    show ?thesis
    proof
      assume "t \<in> set ts"
      from list_all2_setD(1) [OF s'(4) this] same show "e \<in> set evs" by blast
    next
      assume "e \<in> set evs"
      from list_all2_setD(2) [OF s'(4) this] same show "t \<in> set ts" by blast
    qed
  qed
  have "t \<in> set (A @ ts @ due) \<longleftrightarrow> e \<in> set evs \<or> (\<exists>n. expire_of (hp s) t = Some n \<and> 0 < n \<and> n \<le> unat now)"
    using tA reg ev by auto
  moreover have "susp s' c = InRegister fd e t" using s'(2) assms(2) by (simp add: collected_def)
  moreover have "co_read_end (result (eitems s') (InRegister fd e t)) readret = (if e \<in> set evs then readret else TIME_OUT)"
    if "t \<in> set (A @ ts @ due)"
    using that tA reg ev by (auto simp: co_read_end_def result_def)
  moreover have "active_link (sch_epoll s') = active_link (sch_epoll s)" "expire_of (hp s') = expire_of (hp s)"
    using s'(2) by (simp_all add: collected_def)
  ultimately show ?thesis
    using s'(1,3) by (intro exI [of _ s'] exI [of _ "A @ ts @ due"]) simp
qed

end
