(* ===== verification/Co_Calls.thy ===== *)
theory Co_Calls
  imports Co_Blocking
begin

text \<open>
  The blocking calls of \<open>co_sys_call.cpp\<close> as resumptions: a call runs until it asks the
  scheduler to wait or the kernel for a system call, and goes on with the answer. In this form
  a call can be interleaved with the rest of its thread. \<open>Co_Sys_Call\<close> has the same calls as
  functions of all their answers; here the two are shown to be the same, every call to ask a
  bounded number of questions, and the calls of any number of coroutines to run on the
  scheduler.
\<close>

section \<open>Calls\<close>

text \<open>
  The system calls, with the text that is handed over. An answer is the return value and, for
  \<open>connect\<close> and \<open>getsockopt\<close>, what is in \<open>errno\<close> or stored through the pointer.
\<close>

datatype sysop = OpRead int | OpRecv int | OpAccept int | OpConnect int | OpSockErr int
  | OpWrite int string | OpSend int string

text \<open>\<open>Return r made\<close>: the result, and the descriptor for which \<open>socket_inf\<close> is made just before.\<close>

datatype call =
    Return int "int option"
  | Register int u32 int "int \<Rightarrow> call"
  | SysCall sysop "int \<Rightarrow> int \<Rightarrow> call"

text \<open>\<open>EPOLLOUT | EPOLLERR | EPOLLHUP\<close>, \<open>EPOLLIN | EPOLLOUT\<close>, and \<open>EINPROGRESS\<close>.\<close>

definition WRITE_EVENTS :: u32 where
  "WRITE_EVENTS = 28"

definition CONNECT_EVENTS :: u32 where
  "CONNECT_EVENTS = 5"

definition EINPROGRESS :: int where
  "EINPROGRESS = 115"

text \<open>Each call, from the record of its socket on.\<close>

definition call_read :: "int \<Rightarrow> socket_inf \<Rightarrow> call" where
  "call_read fd si =
     (let timeout = timeout_ms (read_timeout si) in
      Register fd READ_EVENTS timeout (\<lambda>regret.
        if regret \<noteq> 0 then Return TIME_OUT None
        else SysCall (OpRead fd) (\<lambda>readret _. Return readret None)))"

definition call_recv :: "int \<Rightarrow> socket_inf \<Rightarrow> call" where
  "call_recv sock si =
     (let timeout = timeout_ms (read_timeout si) in
      Register sock READ_EVENTS timeout (\<lambda>regret.
        if regret \<noteq> 0 then Return TIME_OUT None
        else SysCall (OpRecv sock) (\<lambda>readret _. Return readret None)))"

definition call_accept :: "int \<Rightarrow> call" where
  "call_accept fd =
     Register fd READ_EVENTS (- 1) (\<lambda>regret.
       SysCall (OpAccept fd) (\<lambda>client_fd _. Return client_fd (Some client_fd)))"

fun connect_rounds :: "int \<Rightarrow> nat \<Rightarrow> bool \<Rightarrow> (bool \<Rightarrow> call) \<Rightarrow> call" where
  "connect_rounds fd 0 timeout k = k timeout"
| "connect_rounds fd (Suc n) timeout k =
     Register fd CONNECT_EVENTS 25000 (\<lambda>r. if r = 0 then k False else connect_rounds fd n True k)"

definition call_connect :: "int \<Rightarrow> call" where
  "call_connect fd =
     SysCall (OpConnect fd) (\<lambda>ret errno.
       if ret = 0 then Return ret None
       else if \<not> (ret < 0 \<and> errno = EINPROGRESS) then Return ret None
       else connect_rounds fd 3 False (\<lambda>timeout.
         if timeout then Return TIME_OUT None
         else SysCall (OpSockErr fd) (\<lambda>ret error.
           if ret < 0 then Return (- 1) None else if error \<noteq> 0 then Return (- 1) None else Return 0 None)))"

text \<open>The loop of \<open>co_write\<close> and \<open>co_send\<close>; \<open>op\<close> makes the system call for a text.\<close>

function (sequential) write_rounds :: "(string \<Rightarrow> sysop) \<Rightarrow> int \<Rightarrow> string \<Rightarrow> int \<Rightarrow> int \<Rightarrow> nat \<Rightarrow> call" where
  "write_rounds op fd buf timeout write_ret n =
     (if n < length buf then
        Register fd WRITE_EVENTS timeout (\<lambda>regret.
          if regret \<noteq> 0 then Return TIME_OUT None
          else SysCall (op (drop n buf)) (\<lambda>ret _.
            if ret \<le> 0 then Return (write_result ret n) None
            else write_rounds op fd buf timeout ret (n + nat ret)))
      else Return (write_result write_ret n) None)"
  by pat_completeness auto
termination by (relation "measure (\<lambda>(_, _, buf, _, _, n). length buf - n)") auto

declare write_rounds.simps [simp del]

definition call_write :: "int \<Rightarrow> string \<Rightarrow> socket_inf \<Rightarrow> call" where
  "call_write fd buf si =
     (let timeout = timeout_ms (write_timeout si) in
      SysCall (OpWrite fd buf) (\<lambda>write_ret _.
        if write_ret \<le> 0 then Return write_ret None
        else write_rounds (OpWrite fd) fd buf timeout write_ret (nat write_ret)))"

definition call_send :: "int \<Rightarrow> string \<Rightarrow> socket_inf \<Rightarrow> call" where
  "call_send sock buf si =
     (let timeout = timeout_ms (write_timeout si) in
      SysCall (OpSend sock buf) (\<lambda>write_ret _.
        if write_ret = 0 then Return write_ret None
        else write_rounds (OpSend sock) sock buf timeout write_ret (if write_ret > 0 then nat write_ret else 0)))"

section \<open>Answers\<close>

text \<open>A call after some answers, and the text that the kernel has taken by them.\<close>

fun feed :: "(int \<times> int) list \<Rightarrow> call \<Rightarrow> call" where
  "feed (x # xs) (Register fd ev t k) = feed xs (k (fst x))"
| "feed (x # xs) (SysCall op k) = feed xs (k (fst x) (snd x))"
| "feed xs p = p"

fun op_text :: "sysop \<Rightarrow> string" where
  "op_text (OpWrite fd s) = s"
| "op_text (OpSend fd s) = s"
| "op_text _ = []"

fun given :: "(int \<times> int) list \<Rightarrow> call \<Rightarrow> string" where
  "given (x # xs) (Register fd ev t k) = given xs (k (fst x))"
| "given (x # xs) (SysCall op k) = take (nat (fst x)) (op_text op) @ given xs (k (fst x) (snd x))"
| "given xs p = []"

text \<open>The kernel takes at most the text it is given.\<close>

fun fair :: "(int \<times> int) list \<Rightarrow> call \<Rightarrow> bool" where
  "fair (x # xs) (Register fd ev t k) \<longleftrightarrow> fair xs (k (fst x))"
| "fair (x # xs) (SysCall op k) \<longleftrightarrow>
     (op_text op \<noteq> [] \<longrightarrow> fst x \<le> int (length (op_text op))) \<and> fair xs (k (fst x) (snd x))"
| "fair xs p \<longleftrightarrow> True"

definition returned :: "call \<Rightarrow> int option" where
  "returned p = (case p of Return r _ \<Rightarrow> Some r | _ \<Rightarrow> None)"

text \<open>The answers that \<open>Co_Sys_Call\<close> takes, in the order in which the calls ask for them.\<close>

definition rounds :: "int \<Rightarrow> ((int \<Rightarrow> int) \<times> int) list \<Rightarrow> (int \<times> int) list" where
  "rounds t ws = concat (map (\<lambda>(reg, ret). [(reg t, 0), (ret, 0)]) ws)"

fun used :: "nat \<Rightarrow> int list \<Rightarrow> int list" where
  "used (Suc n) (r # rs) = r # (if r = 0 then [] else used n rs)"
| "used n rs = []"

lemma feed_Return [simp]: "feed xs (Return r m) = Return r m" "given xs (Return r m) = []" "fair xs (Return r m)"
  by (cases xs; simp)+

lemma returned_simps [simp]:
  "returned (Return r m) = Some r" "returned (Register fd ev t k) = None" "returned (SysCall op k') = None"
  by (simp_all add: returned_def)

lemma rounds_simps [simp]:
  "rounds t [] = []" "rounds t (w # ws) = (fst w t, 0) # (snd w, 0) # rounds t ws"
  by (simp_all add: rounds_def split: prod.splits)

lemma write_rounds_loop:
  assumes "\<And>s. op_text (op s) = s"
  shows "write_loop ws buf t wr n out =
    map_option (\<lambda>r. (r, out @ given (rounds t ws) (write_rounds op fd buf t wr n)))
      (returned (feed (rounds t ws) (write_rounds op fd buf t wr n)))"
proof (induction ws arbitrary: n wr out)
  case Nil
  then show ?case by (simp add: write_loop.simps [of "[]"] write_rounds.simps [of op fd buf t wr n])
next
  case (Cons w ws)
  then show ?case
    by (cases w) (simp add: write_loop.simps [of "_ # _"] write_rounds.simps [of op fd buf t wr n] assms)
qed

lemma connect_rounds_loop:
  "connect_loop n regs b = Some timeout \<Longrightarrow> feed (map (\<lambda>r. (r, 0)) (used n regs) @ xs) (connect_rounds fd n b k) = feed xs (k timeout)"
  by (induction n regs b rule: connect_loop.induct) (auto split: list.splits if_splits)

section \<open>Bounds\<close>

text \<open>A call has at most so many questions left; connected calls end by their bound.\<close>

lemma write_rounds_end:
  "2 * (length buf - n) \<le> length xs \<Longrightarrow> returned (feed xs (write_rounds op fd buf t wr n)) \<noteq> None"
proof (induction op fd buf t wr n arbitrary: xs rule: write_rounds.induct)
  case (1 op fd buf t wr n)
  show ?case
  proof (cases "n < length buf")
    case True
    with "1.prems" obtain x y ys where xs: "xs = x # y # ys" by (cases xs; cases "List.tl xs") auto
    have "2 * (length buf - (n + nat (fst y))) \<le> length ys" if "0 < fst y" using that "1.prems" True xs by auto
    with "1.IH" [OF True, of "fst x" "fst y" ys] True xs show ?thesis
      by (auto simp: write_rounds.simps [of op fd buf t wr n])
  qed (simp add: write_rounds.simps [of op fd buf t wr n])
qed

text \<open>What the kernel has taken is a prefix of the text, whatever it answers.\<close>

lemma write_rounds_given:
  assumes "\<And>s. op_text (op s) = s" and "fair xs (write_rounds op fd buf t wr n)" and "n \<le> length buf" and "buf \<noteq> []"
  shows "\<exists>k. n \<le> k \<and> k \<le> length buf \<and> given xs (write_rounds op fd buf t wr n) = take (k - n) (drop n buf) \<and>
     (\<forall>r. returned (feed xs (write_rounds op fd buf t wr n)) = Some r \<longrightarrow>
        (r > 0 \<longrightarrow> r = int k) \<and> (r = int (length buf) \<or> r = TIME_OUT \<or> k < length buf))"
  using assms(2,3)
proof (induction xs arbitrary: n wr rule: induct_list012)
  case (3 x y zs)
  note unf = write_rounds.simps [of op fd buf t wr n]
  show ?case
  proof (cases "n < length buf \<and> fst x = 0 \<and> 0 < fst y")
    case True
    let ?q = "write_rounds op fd buf t (fst y) (n + nat (fst y))"
    have step: "feed (x # y # zs) (write_rounds op fd buf t wr n) = feed zs ?q"
      "given (x # y # zs) (write_rounds op fd buf t wr n) = take (nat (fst y)) (drop n buf) @ given zs ?q"
      using True by (simp_all add: unf assms(1))
    have "fair zs ?q" and le: "nat (fst y) \<le> length buf - n" using "3.prems"(1) True by (auto simp: unf assms(1))
    have "n + nat (fst y) \<le> length buf" using le True by linarith
    from "3.IH"(1) [OF \<open>fair zs ?q\<close> this] obtain k where k: "n + nat (fst y) \<le> k" "k \<le> length buf"
      "given zs ?q = take (k - (n + nat (fst y))) (drop (n + nat (fst y)) buf)"
      "\<forall>r. returned (feed zs ?q) = Some r \<longrightarrow> (r > 0 \<longrightarrow> r = int k) \<and> (r = int (length buf) \<or> r = TIME_OUT \<or> k < length buf)"
      by blast
    have "take (nat (fst y)) (drop n buf) @ take (k - (n + nat (fst y))) (drop (n + nat (fst y)) buf) = take (k - n) (drop n buf)"
      using k(1) take_add [of "nat (fst y)" "k - (n + nat (fst y))" "drop n buf"] by (simp add: add.commute)
    with k show ?thesis unfolding step by (intro exI [of _ k]) simp
  next
    case False
    then show ?thesis using "3.prems"(2) assms(4)
      by (intro exI [of _ n]) (auto simp: unf assms(1) write_result_def TIME_OUT_def)
  qed
next
  case 1
  then show ?case using assms(4)
    by (intro exI [of _ n]) (auto simp: write_rounds.simps [of op fd buf t wr n] write_result_def)
next
  case (2 x)
  then show ?case using assms(4)
    by (intro exI [of _ n]) (auto simp: write_rounds.simps [of op fd buf t wr n] write_result_def TIME_OUT_def)
qed

lemma first_write_given:
  assumes op: "\<And>s. op_text (op s) = s" and "buf \<noteq> []" and stop: "\<And>r. stop r \<Longrightarrow> r \<le> 0"
    and p: "p = SysCall (op buf) (\<lambda>r _. if stop r then Return r None else write_rounds op fd buf t r (nat r))"
    and "fair xs p"
  shows "\<exists>k \<le> length buf. given xs p = take k buf \<and> (\<forall>r. returned (feed xs p) = Some r \<longrightarrow>
     (r > 0 \<longrightarrow> r = int k) \<and> (r = int (length buf) \<or> r = TIME_OUT \<or> k < length buf))"
proof (cases xs)
  case Nil
  then show ?thesis by (intro exI [of _ 0]) (simp add: p)
next
  case (Cons x ys)
  show ?thesis
  proof (cases "stop (fst x)")
    case True
    with stop [OF True] Cons assms(2) show ?thesis by (intro exI [of _ 0]) (simp add: p)
  next
    case False
    let ?n = "nat (fst x)"
    have f: "fair ys (write_rounds op fd buf t (fst x) ?n)" "?n \<le> length buf"
      using assms(2,5) False Cons by (auto simp: p op)
    from write_rounds_given [OF op f(1,2) assms(2)] obtain k where k: "?n \<le> k" "k \<le> length buf"
      "given ys (write_rounds op fd buf t (fst x) ?n) = take (k - ?n) (drop ?n buf)"
      "\<forall>r. returned (feed ys (write_rounds op fd buf t (fst x) ?n)) = Some r \<longrightarrow>
         (r > 0 \<longrightarrow> r = int k) \<and> (r = int (length buf) \<or> r = TIME_OUT \<or> k < length buf)" by blast
    then have "take ?n buf @ take (k - ?n) (drop ?n buf) = take k buf"
      using take_add [of ?n "k - ?n" buf] by simp
    with k False Cons show ?thesis by (intro exI [of _ k]) (simp add: p op)
  qed
qed

section \<open>Requests\<close>

text \<open>What coroutines call, and the call up to its first question; \<^term>\<open>None\<close> is a null entry of the table.\<close>

datatype request = RRead int | RRecv int | RAccept int | RConnect int | RWrite int string | RSend int string

definition start_call :: "request \<Rightarrow> sockets \<Rightarrow> (call \<times> sockets) option" where
  "start_call req g = (case req of
     RRead fd \<Rightarrow> do { (si, g) \<leftarrow> inf_at fd g; Some (call_read fd si, g) }
   | RRecv fd \<Rightarrow> do { (si, g) \<leftarrow> inf_at fd g; Some (call_recv fd si, g) }
   | RAccept fd \<Rightarrow> Some (call_accept fd, g)
   | RConnect fd \<Rightarrow> Some (call_connect fd, g)
   | RWrite fd buf \<Rightarrow> do { (si, g) \<leftarrow> inf_at fd g; Some (call_write fd buf si, g) }
   | RSend fd buf \<Rightarrow> do { (si, g) \<leftarrow> inf_at fd g; Some (call_send fd buf si, g) })"

text \<open>How many questions a request may have.\<close>

fun questions :: "request \<Rightarrow> nat" where
  "questions (RConnect fd) = 5"
| "questions (RWrite fd buf) = 2 * length buf + 1"
| "questions (RSend fd buf) = 2 * length buf + 1"
| "questions _ = 2"

fun req_text :: "request \<Rightarrow> string option" where
  "req_text (RWrite fd buf) = Some buf"
| "req_text (RSend fd buf) = Some buf"
| "req_text _ = None"

lemma start_call_table:
  assumes "table_ok g" and "start_call req g = Some (p, g')"
  shows "g' = g"
proof -
  have "g2 = g" if "inf_at fd g = Some (x, g2)" for fd x g2
    using that assms(1) by (auto simp: inf_at_def table_at_def bind_eq_Some_conv split: option.splits)
  with assms(2) show ?thesis by (auto simp: start_call_def bind_eq_Some_conv split: request.splits)
qed

text \<open>Every request ends by its bound, and gives the kernel a prefix of its text.\<close>

lemma start_call_ends:
  assumes "start_call req g = Some (p, g')" and "questions req \<le> length xs"
  shows "returned (feed xs p) \<noteq> None"
proof -
  obtain x y ys where xs: "xs = x # ys" using assms(2) by (cases xs; cases req) auto
  have w: "returned (feed ys (write_rounds op fd buf t wr n)) \<noteq> None" if "2 * length buf \<le> length ys" for op fd buf t wr n
    using that by (intro write_rounds_end) simp
  show ?thesis
  proof (cases req)
    case (RConnect fd)
    then obtain a b c d zs where "ys = a # b # c # d # zs"
      using assms(2) xs by (cases ys; cases "List.tl ys"; cases "List.tl (List.tl ys)"; cases "List.tl (List.tl (List.tl ys))") auto
    with RConnect assms(1) xs show ?thesis by (auto simp: start_call_def call_connect_def numeral_3_eq_3)
  next
    case (RWrite fd buf)
    with assms xs w show ?thesis by (auto simp: start_call_def call_write_def Let_def bind_eq_Some_conv)
  next
    case (RSend fd buf)
    with assms xs w show ?thesis by (auto simp: start_call_def call_send_def Let_def bind_eq_Some_conv)
  qed (use assms xs in \<open>cases ys; auto simp: start_call_def call_read_def call_recv_def call_accept_def Let_def bind_eq_Some_conv\<close>)+
qed

lemma start_call_given:
  assumes p: "start_call req g = Some (p, g')" and buf: "req_text req = Some buf" "buf \<noteq> []" and "fair xs p"
  shows "\<exists>k \<le> length buf. given xs p = take k buf \<and> (\<forall>r. returned (feed xs p) = Some r \<longrightarrow>
     (r > 0 \<longrightarrow> r = int k) \<and> (r = int (length buf) \<or> r = TIME_OUT \<or> k < length buf))"
proof -
  from buf(1) consider fd where "req = RWrite fd buf" | fd where "req = RSend fd buf" by (cases req) auto
  then show ?thesis
  proof cases
    case (1 fd)
    with p obtain si where "p = call_write fd buf si" by (auto simp: start_call_def bind_eq_Some_conv)
    then show ?thesis
      by (intro first_write_given [OF _ buf(2) _ _ assms(4), where op = "OpWrite fd" and stop = "\<lambda>r. r \<le> 0"])
        (simp_all add: call_write_def Let_def)
  next
    case (2 fd)
    with p obtain si where "p = call_send fd buf si" by (auto simp: start_call_def bind_eq_Some_conv)
    then show ?thesis
      by (intro first_write_given [OF _ buf(2) _ _ assms(4), where op = "OpSend fd" and fd = fd and t = "timeout_ms (write_timeout si)" and stop = "\<lambda>r. r = 0"])
        (simp_all add: call_send_def Let_def fun_eq_iff)
  qed
qed

section \<open>Calls on the scheduler\<close>

text \<open>
  A thread whose coroutines make blocking calls: where its main coroutine is, its scheduler,
  the table of sockets, and for every coroutine inside a call the request, the call, and the
  answers it has had.
\<close>

datatype csys = CS mpc sched sockets "addr \<Rightarrow> (request \<times> call \<times> (int \<times> int) list) option"

definition answered :: "addr \<Rightarrow> int \<times> int \<Rightarrow> (addr \<Rightarrow> (request \<times> call \<times> (int \<times> int) list) option) \<Rightarrow>
    (addr \<Rightarrow> (request \<times> call \<times> (int \<times> int) list) option)" where
  "answered c x calls = calls(c := map_option (\<lambda>(req, p, xs). (req, p, xs @ [x])) (calls c))"

text \<open>
  The steps: a coroutine starts a call; the kernel answers it; \<open>co_register\<close> puts it to sleep or
  refuses to; the event loop resumes a coroutine, and a call goes on with the result; a call
  returns. Every other step of the thread leaves the coroutines inside calls where they are.
\<close>

inductive cstep :: "csys \<Rightarrow> csys \<Rightarrow> bool" where
  call: "co_call_stack s = c # c' # rest \<Longrightarrow> calls c = None \<Longrightarrow> start_call req g = Some (p, g') \<Longrightarrow>
     cstep (CS pc s g calls) (CS pc s g' (calls(c \<mapsto> (req, p, []))))"
| kernel: "co_call_stack s = c # c' # rest \<Longrightarrow> calls c = Some (req, p, xs) \<Longrightarrow> feed xs p = SysCall op k \<Longrightarrow>
     op_text op \<noteq> [] \<longrightarrow> fst x \<le> int (length (op_text op)) \<Longrightarrow>
     cstep (CS pc s g calls) (CS pc s g (answered c x calls))"
| sleep: "co_call_stack s = c # c' # rest \<Longrightarrow> calls c = Some (req, p, xs) \<Longrightarrow> feed xs p = Register fd ev t k \<Longrightarrow>
     register_ok fd t now ae at s \<Longrightarrow> register_begin fd ev t now ae at s = Some (q, s') \<Longrightarrow>
     cstep (CS pc s g calls) (CS pc s' g (case q of Inl r \<Rightarrow> answered c (r, 0) calls | Inr _ \<Rightarrow> calls))"
| wake: "length (co_call_stack s) = 1 \<Longrightarrow> \<not> active_empty s \<Longrightarrow> loop_pop s = Some (c, s1) \<Longrightarrow>
     resume_co c s1 = Some (Some r, s') \<Longrightarrow>
     cstep (CS AtDrain s g calls) (CS AtDrain s' g (answered c (r, 0) calls))"
| return: "co_call_stack s = c # c' # rest \<Longrightarrow> calls c = Some (req, p, xs) \<Longrightarrow> feed xs p = Return r made \<Longrightarrow>
     infs g a = None \<Longrightarrow>
     cstep (CS pc s g calls) (CS pc s (case made of None \<Rightarrow> g | Some fd \<Rightarrow> new_socket_inf a fd g) (calls(c := None)))"
| other: "step (Sys pc s) (Sys pc' s') \<Longrightarrow> \<forall>c. calls c \<noteq> None \<longrightarrow> susp s' c = susp s c \<Longrightarrow>
     cstep (CS pc s g calls) (CS pc' s' g calls)"

text \<open>A coroutine inside a call runs, or sleeps for the wait that its call asks for.\<close>

definition in_call :: "kont \<Rightarrow> call \<Rightarrow> bool" where
  "in_call su p \<longleftrightarrow> su = Running \<or> (\<exists>fd ev t k e n. p = Register fd ev t k \<and> su = InRegister fd e n)"

definition cinv :: "addr \<Rightarrow> csys \<Rightarrow> bool" where
  "cinv m x = (case x of CS pc s g calls \<Rightarrow> sched_inv m pc s \<and> table_ok g \<and>
     (\<forall>c req p xs. calls c = Some (req, p, xs) \<longrightarrow>
        fair xs p \<and> (\<exists>g0 g1. start_call req g0 = Some (p, g1)) \<and> in_call (susp s c) (feed xs p) \<and>
        length xs \<le> questions req))"

lemma feed_Nil [simp]: "feed [] p = p" "fair [] p" "given [] p = []"
  by (cases p; simp)+

lemma feed_snoc: "feed (xs @ [x]) p = feed [x] (feed xs p)"
  by (induction xs p rule: feed.induct) auto

lemma fair_snoc: "fair (xs @ [x]) p \<longleftrightarrow> fair xs p \<and> fair [x] (feed xs p)"
  by (induction xs p rule: feed.induct) auto

text \<open>Each step of a call is a step of the thread, or leaves its scheduler alone.\<close>

lemma wake_step:
  assumes "length (co_call_stack s) = 1" and "\<not> active_empty s" and "loop_pop s = Some (c, s1)"
    and "resume_co c s1 = Some (Some r, s')"
  shows "step (Sys AtDrain s) (Sys AtDrain s')"
  using step.drain [OF assms(1,2)] assms(3,4) by (simp add: loop_drain_def outcome_def)

lemma sleep_step:
  assumes "co_call_stack s = c # c' # rest" and "register_ok fd t now ae at s"
    and "register_begin fd ev t now ae at s = Some (q, s')"
  shows "step (Sys pc s) (Sys pc s')"
  using step.register [OF _ assms(2), of pc ev] assms(1,3) by (simp add: outcome_def)

lemma cinvI:
  assumes "sched_inv m pc s" and "table_ok g"
    and "\<And>c req p xs. calls c = Some (req, p, xs) \<Longrightarrow>
      fair xs p \<and> (\<exists>g0 g1. start_call req g0 = Some (p, g1)) \<and> in_call (susp s c) (feed xs p) \<and> length xs \<le> questions req"
  shows "cinv m (CS pc s g calls)"
  using assms by (simp add: cinv_def)

lemma cinvD:
  assumes "cinv m (CS pc s g calls)"
  shows "sched_inv m pc s" "table_ok g"
    "calls c = Some (req, p, xs) \<Longrightarrow> fair xs p \<and> (\<exists>g0 g1. start_call req g0 = Some (p, g1)) \<and>
      in_call (susp s c) (feed xs p) \<and> length xs \<le> questions req"
  using assms by (simp_all add: cinv_def)

text \<open>A coroutine that runs after an answer which its call was waiting for.\<close>

lemma cinv_answered:
  assumes inv: "cinv m (CS pc s g calls)" and s': "sched_inv m pc s'" "susp s' c = Running" "\<forall>d. d \<noteq> c \<longrightarrow> susp s' d = susp s d"
    and f: "\<And>req p xs. calls c = Some (req, p, xs) \<Longrightarrow> fair [x] (feed xs p) \<and> returned (feed xs p) = None"
  shows "cinv m (CS pc s' g (answered c x calls))"
proof (rule cinvI [OF s'(1) cinvD(2) [OF inv]])
  fix d req p ys assume d: "answered c x calls d = Some (req, p, ys)"
  show "fair ys p \<and> (\<exists>g0 g1. start_call req g0 = Some (p, g1)) \<and> in_call (susp s' d) (feed ys p) \<and> length ys \<le> questions req"
  proof (cases "d = c")
    case True
    with d obtain xs where xs: "calls c = Some (req, p, xs)" "ys = xs @ [x]" by (auto simp: answered_def)
    from cinvD(3) [OF inv xs(1)] obtain g0 g1 where p: "fair xs p" "start_call req g0 = Some (p, g1)" by blast
    have "length xs < questions req"
      using start_call_ends [OF p(2), of xs] f [OF xs(1)] by (cases "questions req \<le> length xs") auto
    with p f [OF xs(1)] s'(2) True xs(2) show ?thesis by (auto simp: fair_snoc in_call_def)
  next
    case False
    then show ?thesis using cinvD(3) [OF inv, of d] d s'(3) by (simp add: answered_def)
  qed
qed

lemma cstep_inv: "cstep x y \<Longrightarrow> cinv m x \<Longrightarrow> cinv m y"
proof (induction rule: cstep.induct)
  case (call s c c' rest calls req g p g' pc)
  note inv = cinvD [OF call(4)]
  have "g' = g" using start_call_table [OF inv(2) call(3)] .
  moreover have "susp s c = Running" using inv(1) call(1) by (auto simp: sched_inv_def dest: stack_top(1))
  ultimately show ?case using inv call(3) by (intro cinvI) (auto simp: in_call_def split: if_splits)
next
  case (kernel s c c' rest calls req p xs op k x pc g)
  have "susp s c = Running" using cinvD(1) [OF kernel(5)] kernel(1) by (auto simp: sched_inv_def dest: stack_top(1))
  with kernel show ?case
    by (intro cinv_answered [OF kernel(5) cinvD(1) [OF kernel(5)]]) (auto split: call.splits)
next
  case (sleep s c c' rest calls req p xs fd ev t k now ae at q s' pc g)
  note inv = cinvD [OF sleep(6)]
  from inv(1) obtain L A where ok: "stack_ok m s" "lists_ok L A s" "waits L A s" by (auto simp: sched_inv_def)
  have run: "susp s c = Running" using stack_top(1) [OF ok(1) sleep(1)] .
  have s': "sched_inv m pc s'" using step_inv [OF sleep_step [OF sleep(1,4,5)], of m pc] inv(1) by simp
  from register_begin_ok [OF sleep(1) run ok(2,3) sleep(4), of ev] sleep(5)
  consider "q = Inl (- 1)" "s' = s" | "q = Inr ()" "susp s' = (susp s)(c := InRegister fd ae at)" by (auto simp: asleep_def)
  then show ?case
  proof cases
    case 1
    with run sleep(2,3) show ?thesis by (auto intro!: cinv_answered [OF sleep(6) inv(1)])
  next
    case 2
    with inv sleep(2,3) s' show ?thesis by (auto intro!: cinvI simp: in_call_def)
  qed
next
  case (wake s c s1 r s' g calls)
  note inv = cinvD [OF wake(5)]
  from inv(1) obtain L A where ok: "stack_ok m s" "lists_ok L A s" "waits L A s" by (auto simp: sched_inv_def)
  obtain t A' where A: "A = t # A'" using wake(2) active_empty_iff [OF ok(2)] by (cases A) auto
  from drain_round_inv [OF inv(1) lists_ok_active [OF ok(2), unfolded A]] wake(3,4) obtain e where
    e: "node_of (susp s c) = Some (e, t)" "susp s' = (susp s)(c := Running)" by auto
  have s': "sched_inv m AtDrain s'" using step_inv [OF wake_step [OF wake(1-4)], of m] inv(1) by simp
  have "fair [(r, 0)] (feed xs p) \<and> returned (feed xs p) = None" if "calls c = Some (req, p, xs)" for req p xs
    using inv(3) [OF that] e(1) by (auto simp: in_call_def)
  then show ?case using e(2) s' by (intro cinv_answered [OF wake(5)]) simp_all
next
  case (return s c c' rest calls req p xs r made g a pc)
  note inv = cinvD [OF return(5)]
  have "table_ok (case made of None \<Rightarrow> g | Some fd \<Rightarrow> new_socket_inf a fd g)"
    using inv(2) new_socket_inf_ok [OF inv(2) return(4)] by (simp split: option.splits)
  then show ?case using inv by (intro cinvI) (auto split: if_splits)
next
  case (other pc s pc' s' calls g)
  have "sched_inv m pc' s'" using step_inv [OF other(1), of m] cinvD(1) [OF other(3)] by simp
  then show ?case using cinvD(2,3) [OF other(3)] other(2) by (intro cinvI) auto
qed

definition csys0 :: "sched \<Rightarrow> sockets \<Rightarrow> csys" where
  "csys0 s g = CS Outside s g (\<lambda>_. None)"

interpretation calls: machine cstep
  "\<lambda>x. \<exists>a b slots now g. fresh_sched m a b slots now \<and> table_ok g \<and> x = csys0 (new_scheduler m a b slots now) g" "cinv m" for m
  by unfold_locales (use cstep_inv new_scheduler_inv in \<open>auto simp: csys0_def cinv_def\<close>)

text \<open>The thread behind the calls, as a specification of them.\<close>

fun thread_of :: "csys \<Rightarrow> sys" where
  "thread_of (CS pc s g calls) = Sys pc s"

lemma cstep_thread: "cstep x y \<Longrightarrow> step\<^sup>*\<^sup>* (thread_of x) (thread_of y)"
proof (induction rule: cstep.induct)
  case (wake s c s1 r s' g calls)
  then show ?case using wake_step [OF wake] by auto
qed (auto intro: sleep_step)

lemma csteps_thread: "cstep\<^sup>*\<^sup>* x y \<Longrightarrow> step\<^sup>*\<^sup>* (thread_of x) (thread_of y)"
  by (induction rule: rtranclp_induct) (auto dest: cstep_thread)

lemma csteps_idle:
  assumes "step\<^sup>*\<^sup>* (Sys pc s) (Sys pc' s')"
  shows "cstep\<^sup>*\<^sup>* (CS pc s g (\<lambda>_. None)) (CS pc' s' g (\<lambda>_. None))"
proof -
  have "cstep\<^sup>*\<^sup>* (CS pc s g (\<lambda>_. None)) (CS pc' s' g (\<lambda>_. None))" if "step\<^sup>*\<^sup>* (Sys pc s) y" "y = Sys pc' s'" for y pc' s'
    using that
  proof (induction arbitrary: pc' s' rule: rtranclp_induct)
    case (step y z)
    then obtain pc1 s1 where y: "y = Sys pc1 s1" by (cases y) (auto elim: step.cases)
    with step.hyps(2) step.prems have "cstep (CS pc1 s1 g (\<lambda>_. None)) (CS pc' s' g (\<lambda>_. None))" by (auto intro: cstep.other)
    with step.IH [OF y] show ?case by (rule rtranclp.rtrancl_into_rtrancl)
  qed simp
  with assms show ?thesis by blast
qed

section \<open>Properties\<close>

text \<open>
  The two forms of the blocking calls are the same: fed with the answers in the order in
  which the code asks for them, the resumption of a call ends with the result of the function
  of \<open>Co_Sys_Call\<close>, has given the kernel the same text, and is still waiting exactly when the
  function has run out of answers (for \<open>co_connect\<close>, when it has not).
\<close>

lemma calls_are_functions:
  assumes "inf_at fd g = Some (x, g')" and "connect_loop 3 regs False \<noteq> None"
  shows "co_read fd reg ret g =
      map_option (\<lambda>r. (r, g')) (returned (feed [(reg (timeout_ms (read_timeout x)), 0), (ret, 0)] (call_read fd x))) \<and>
    co_recv fd reg ret g =
      map_option (\<lambda>r. (r, g')) (returned (feed [(reg (timeout_ms (read_timeout x)), 0), (ret, 0)] (call_recv fd x))) \<and>
    (let as = (ret, 0) # rounds (timeout_ms (write_timeout x)) ws in
      co_write fd ret ws buf g =
        map_option (\<lambda>r. (r, given as (call_write fd buf x))) (returned (feed as (call_write fd buf x))) \<and>
      co_send fd ret ws buf g =
        map_option (\<lambda>r. (r, given as (call_send fd buf x))) (returned (feed as (call_send fd buf x)))) \<and>
    (feed [(regret, 0), (ret, 0)] (call_accept fd) = Return (fst (co_accept ret a g)) (Some ret) \<and>
      snd (co_accept ret a g) = new_socket_inf a ret g) \<and>
    co_connect ret inprogress regs opt =
      returned (feed ((ret, if inprogress then EINPROGRESS else 0) # map (\<lambda>r. (r, 0)) (used 3 regs) @ [opt]) (call_connect fd))"
proof -
  have "co_write fd ret ws buf g = (let as = (ret, 0) # rounds (timeout_ms (write_timeout x)) ws in
      map_option (\<lambda>r. (r, given as (call_write fd buf x))) (returned (feed as (call_write fd buf x))))"
    using assms(1)
    by (simp add: co_write_def call_write_def Let_def write_rounds_loop [where op = "OpWrite fd" and fd = fd])
  moreover have "co_send fd ret ws buf g = (let as = (ret, 0) # rounds (timeout_ms (write_timeout x)) ws in
      map_option (\<lambda>r. (r, given as (call_send fd buf x))) (returned (feed as (call_send fd buf x))))"
    using assms(1)
    by (simp add: co_send_def call_send_def Let_def write_rounds_loop [where op = "OpSend fd" and fd = fd])
  moreover obtain timeout where "connect_loop 3 regs False = Some timeout" using assms(2) by blast
  then have "co_connect ret inprogress regs opt =
      returned (feed ((ret, if inprogress then EINPROGRESS else 0) # map (\<lambda>r. (r, 0)) (used 3 regs) @ [opt]) (call_connect fd))"
    by (simp add: co_connect_def call_connect_def connect_rounds_loop EINPROGRESS_def)
  ultimately show ?thesis
    using assms(1) by (simp add: co_read_def co_recv_def call_read_def call_recv_def co_accept_def call_accept_def Let_def)
qed

text \<open>
  C13. Every blocking call ends. On a socket of the table each of the six calls starts without a
  fault, and after a number of answers that depends on the call and the length of its text
  only, whatever the answers are, it has returned: two for \<open>co_read\<close>, \<open>co_recv\<close> and
  \<open>co_accept\<close>, five for \<open>co_connect\<close>, one and two per character for \<open>co_write\<close> and \<open>co_send\<close>.
\<close>

theorem calls_end:
  assumes "table_ok g" and "g_socket_inf g fd \<noteq> None"
    and "req \<in> {RRead fd, RRecv fd, RAccept fd, RConnect fd, RWrite fd buf, RSend fd buf}"
  shows "\<exists>p. start_call req g = Some (p, g) \<and> (\<forall>xs. questions req \<le> length xs \<longrightarrow> returned (feed xs p) \<noteq> None)"
proof -
  from inf_at_ok [OF assms(1,2)] obtain x where "inf_at fd g = Some (x, g)" by blast
  with assms(3) obtain p where p: "start_call req g = Some (p, g)" by (auto simp: start_call_def)
  with start_call_ends [OF p] show ?thesis by blast
qed

theorem calls_end_witness:
  "\<exists>p. start_call (RWrite 5 ''ab'') sock5 = Some (p, sock5) \<and> returned (feed [(1, 0), (0, 0), (- 1, 0), (0, 0), (0, 0)] p) \<noteq> None"
  using calls_end [OF sock5_ok, of "RWrite 5 ''ab''" "''ab''"] by auto

text \<open>
  C11. Blocking calls on the scheduler. Let any number of coroutines of a thread make blocking
  calls, interleaved with each other, with the event loop and with everything else that
  coroutines do. The scheduler behind them is always in a state that the thread can reach, so
  all that holds there holds here. A coroutine inside a call is running, or asleep on the very
  descriptor that its call waits for. No call asks more questions than its bound, and a
  \<open>co_write\<close> or \<open>co_send\<close> has at any time given the kernel a prefix of its text; a positive
  result is the length of this prefix, and a result other than a timeout comes with the whole
  text or with an error of the kernel before its end.
\<close>

theorem blocking_calls:
  assumes "fresh_sched m a b slots now" and "table_ok g0"
    and "cstep\<^sup>*\<^sup>* (csys0 (new_scheduler m a b slots now) g0) (CS pc s g calls)" and "calls c = Some (req, p, xs)"
  shows "step\<^sup>*\<^sup>* (Sys Outside (new_scheduler m a b slots now)) (Sys pc s) \<and> table_ok g \<and>
    in_call (susp s c) (feed xs p) \<and> length xs \<le> questions req \<and>
    (\<forall>buf. req_text req = Some buf \<longrightarrow> buf \<noteq> [] \<longrightarrow> (\<exists>k \<le> length buf. given xs p = take k buf \<and>
       (\<forall>r. returned (feed xs p) = Some r \<longrightarrow>
          (r > 0 \<longrightarrow> r = int k) \<and> (r = int (length buf) \<or> r = TIME_OUT \<or> k < length buf))))"
proof -
  have "cinv m (CS pc s g calls)" using calls.inv_reach [OF _ assms(3), of m] assms(1,2) by blast
  note inv = cinvD(2) [OF this] cinvD(3) [OF this assms(4)]
  from inv(2) obtain g1 g2 where "start_call req g1 = Some (p, g2)" "fair xs p" by blast
  note start_call_given [OF this(1) _ _ this(2)]
  with inv csteps_thread [OF assms(3)] show ?thesis by (simp add: csys0_def)
qed

theorem blocking_calls_witness:
  "\<exists>p. cstep\<^sup>*\<^sup>* (csys0 run0 sock5) (CS Outside run2 sock5 [9 \<mapsto> (RWrite 5 ''ab'', p, [(1, 0)])]) \<and>
     (\<exists>k \<le> length ''ab''. given [(1, 0)] p = take k ''ab'')"
proof -
  obtain x where x: "inf_at 5 sock5 = Some (x, sock5)" using inf_at_ok [OF sock5_ok] by blast
  let ?p = "call_write 5 ''ab'' x"
  obtain k where k: "feed [] ?p = SysCall (OpWrite 5 ''ab'') k" by (simp add: call_write_def Let_def)
  have st: "co_call_stack run2 = 9 # 1 # []" by (simp add: run2_def)
  have "cstep\<^sup>*\<^sup>* (csys0 run0 sock5) (CS Outside run2 sock5 (\<lambda>_. None))"
    unfolding csys0_def by (rule csteps_idle [OF reach2])
  also have "cstep (CS Outside run2 sock5 (\<lambda>_. None)) (CS Outside run2 sock5 [9 \<mapsto> (RWrite 5 ''ab'', ?p, [])])"
    by (rule cstep.call [OF st]) (simp_all add: start_call_def x)
  also (rtranclp.rtrancl_into_rtrancl) have "cstep (CS Outside run2 sock5 [9 \<mapsto> (RWrite 5 ''ab'', ?p, [])])
      (CS Outside run2 sock5 (answered 9 (1, 0) [9 \<mapsto> (RWrite 5 ''ab'', ?p, [])]))"
    by (rule cstep.kernel [OF st _ k]) simp_all
  finally (rtranclp.rtrancl_into_rtrancl) have run: "cstep\<^sup>*\<^sup>* (csys0 run0 sock5) (CS Outside run2 sock5 [9 \<mapsto> (RWrite 5 ''ab'', ?p, [(1, 0)])])"
    by (simp add: answered_def)
  from blocking_calls [OF fresh0 sock5_ok(1) run [unfolded run0_def], of 9 "RWrite 5 ''ab''" ?p "[(1, 0)]"] run show ?thesis
    by (intro exI [of _ ?p]) auto
qed

end
