(* ===== verification/Co_Net.thy ===== *)
theory Co_Net
  imports Sched_Props Co_Sys_Call
begin

text \<open>
  Connections and the server, \<open>net/connection.cpp\<close> and \<open>net/server.cpp\<close>. The callbacks are
  code of the user: what \<open>connection::run\<close> does with them is its trace of calls, and what
  they do to the connection is whether they call \<open>close()\<close>. Whether a callback was set is part
  of the state: calling an empty \<open>std::function\<close> throws.
\<close>

section \<open>Connections\<close>

datatype statue = connected | connecting | close_by_server_timeout | close_by_server_other
  | close_by_client | disconnected

record connection =
  conn_fd :: int
  conn_end :: bool
  conn_co :: ptr
  conn_statue :: statue
  ConnectedCb_set :: bool
  ReceiveCb_set :: bool
  DisconnectedCb_set :: bool

definition new_connection :: "int \<Rightarrow> connection" where
  "new_connection fd = \<lparr>conn_fd = fd, conn_end = False, conn_co = None, conn_statue = disconnected,
     ConnectedCb_set = False, ReceiveCb_set = False, DisconnectedCb_set = False\<rparr>"

text \<open>Each argument says whether the given \<open>std::function\<close> is not empty.\<close>

definition setConnectedCb :: "bool \<Rightarrow> connection \<Rightarrow> connection" where
  "setConnectedCb cb c = c\<lparr>ConnectedCb_set := cb\<rparr>"

definition setReceiveCb :: "bool \<Rightarrow> connection \<Rightarrow> connection" where
  "setReceiveCb cb c = c\<lparr>ReceiveCb_set := cb\<rparr>"

definition setDisconnectedCb :: "bool \<Rightarrow> connection \<Rightarrow> connection" where
  "setDisconnectedCb cb c = c\<lparr>DisconnectedCb_set := cb\<rparr>"


definition set_write_timeout :: "int \<Rightarrow> int \<Rightarrow> sockets \<Rightarrow> sockets option" where
  "set_write_timeout fd ms g = do {
     let (p, g) = table_at fd g;
     a \<leftarrow> p;
     inf \<leftarrow> infs g a;
     let inf = inf\<lparr>write_timeout := (write_timeout inf)\<lparr>tv_sec := ms sdiv 1000\<rparr>\<rparr>;
     let inf = inf\<lparr>write_timeout := (write_timeout inf)\<lparr>tv_usec := (ms smod 1000) * 1000\<rparr>\<rparr>;
     Some (g\<lparr>infs := (infs g)(a \<mapsto> inf)\<rparr>)
   }"

definition close_conn :: "connection \<Rightarrow> connection" where
  "close_conn c = c\<lparr>conn_end := True\<rparr>"

text \<open>
  \<open>send\<close>, on the own socket and on another one: the result of \<open>co_write\<close> is dropped, so what
  is left is the text that the kernel has taken.
\<close>

definition conn_send_to ::
    "int \<Rightarrow> int \<Rightarrow> ((int \<Rightarrow> int) \<times> int) list \<Rightarrow> string \<Rightarrow> sockets \<Rightarrow> string option" where
  "conn_send_to fd ret ws buf g = do {
     (_, out) \<leftarrow> co_write fd ret ws buf g;
     Some out
   }"

definition conn_send ::
    "connection \<Rightarrow> int \<Rightarrow> ((int \<Rightarrow> int) \<times> int) list \<Rightarrow> string \<Rightarrow> sockets \<Rightarrow> string option" where
  "conn_send c ret ws buf g = do {
     (_, out) \<leftarrow> co_write (conn_fd c) ret ws buf g;
     Some out
   }"

text \<open>
  A round of the loop of \<open>run\<close>: the result of \<open>co_read\<close>, the value of \<open>errno\<close> after it,
  and whether \<open>close()\<close> is called during the round, by the receive callback or by another
  coroutine while \<open>co_read\<close> waits.
\<close>

datatype errno = EAGAIN | EINTR | EOther

record round =
  rd_len :: int
  rd_errno :: errno
  rd_close :: bool

datatype callback = ConnectedCb | ReceiveCb int | DisconnectedCb statue

text \<open>
  Why a run does not return: an empty callback was called, the given rounds have not ended the
  loop, or \<open>co_close\<close> has followed a dangling pointer.
\<close>

datatype conn_error = BadFunctionCall | StillReading | BadSocket

fun run_loop :: "round list \<Rightarrow> connection \<Rightarrow> callback list \<Rightarrow> conn_error + (connection \<times> callback list)" where
  "run_loop rs c tr =
     (if conn_end c then Inr (c, tr)
      else case rs of [] \<Rightarrow> Inl StillReading
      | r # rs \<Rightarrow>
        let c = (if rd_close r then close_conn c else c) in
        if rd_len r > 0 then
          if \<not> ReceiveCb_set c then Inl BadFunctionCall
          else run_loop rs c (tr @ [ReceiveCb (rd_len r)])
        else if rd_len r \<noteq> TIME_OUT \<and> rd_errno r = EAGAIN then run_loop rs c tr
        else if rd_len r \<noteq> TIME_OUT \<and> rd_errno r = EINTR then run_loop rs c tr
        else if rd_len r = TIME_OUT then Inr (c\<lparr>conn_statue := close_by_server_timeout\<rparr>, tr)
        else Inr (c\<lparr>conn_statue := close_by_client\<rparr>, tr))"

declare run_loop.simps [simp del]

text \<open>\<open>cl\<close>: whether the connected callback calls \<open>close()\<close>; \<open>ret\<close>: the result of \<open>close\<close>.\<close>

definition conn_run :: "bool \<Rightarrow> round list \<Rightarrow> int \<Rightarrow> connection \<Rightarrow> sockets \<Rightarrow>
    conn_error + (connection \<times> callback list \<times> sockets)" where
  "conn_run cl rs ret c g =
     (let c = c\<lparr>conn_statue := connected\<rparr> in
      if \<not> ConnectedCb_set c then Inl BadFunctionCall
      else
        let tr = [ConnectedCb];
            c = (if cl then close_conn c else c);
            c = c\<lparr>conn_statue := connecting\<rparr>
        in case run_loop rs c tr of
          Inl err \<Rightarrow> Inl err
        | Inr (c, tr) \<Rightarrow>
            let c = (if conn_end c \<and> conn_statue c \<noteq> close_by_client
                     then c\<lparr>conn_statue := close_by_server_other\<rparr> else c) in
            if \<not> DisconnectedCb_set c then Inl BadFunctionCall
            else
              let tr = tr @ [DisconnectedCb (conn_statue c)];
                  c = c\<lparr>conn_statue := disconnected\<rparr>
              in case co_close (conn_fd c) ret g of None \<Rightarrow> Inl BadSocket | Some (_, g) \<Rightarrow> Inr (c, tr, g))"

text \<open>\<open>conn_func\<close>, the function of the coroutine of a connection.\<close>

definition conn_func :: "bool \<Rightarrow> round list \<Rightarrow> int \<Rightarrow> connection \<Rightarrow> sockets \<Rightarrow>
    conn_error + (connection \<times> callback list \<times> sockets)" where
  "conn_func cl rs ret c g =
     (case conn_run cl rs ret c g of Inl err \<Rightarrow> Inl err
      | Inr (c, tr, g) \<Rightarrow> Inr (c\<lparr>conn_end := True\<rparr>, tr, g))"

section \<open>The server\<close>

text \<open>The constructor leaves \<open>fd_\<close> uninitialised and the callbacks empty.\<close>

record server =
  ser_ip :: string
  ser_port :: int
  ser_fd :: "int option"
  ser_ConnectedCb :: bool
  ser_ReceiveCb :: bool
  ser_DisconnectedCb :: bool

definition new_server :: "string \<Rightarrow> int \<Rightarrow> server" where
  "new_server ip port = \<lparr>ser_ip = ip, ser_port = port, ser_fd = None,
     ser_ConnectedCb = False, ser_ReceiveCb = False, ser_DisconnectedCb = False\<rparr>"

definition server_setConnectedCb :: "bool \<Rightarrow> server \<Rightarrow> server" where
  "server_setConnectedCb cb ser = ser\<lparr>ser_ConnectedCb := cb\<rparr>"

definition server_setReceiveCb :: "bool \<Rightarrow> server \<Rightarrow> server" where
  "server_setReceiveCb cb ser = ser\<lparr>ser_ReceiveCb := cb\<rparr>"

definition server_setDisconnectedCb :: "bool \<Rightarrow> server \<Rightarrow> server" where
  "server_setDisconnectedCb cb ser = ser\<lparr>ser_DisconnectedCb := cb\<rparr>"

text \<open>
  \<open>server::init\<close>, with the results of \<open>socket\<close> and \<open>bind\<close>; a failed \<open>bind\<close> aborts.
\<close>

definition server_init :: "int \<Rightarrow> int \<Rightarrow> addr \<Rightarrow> server \<Rightarrow> sockets \<Rightarrow> (server \<times> sockets) option" where
  "server_init sockret bindret a ser g = do {
     let (fd, g) = co_socket 2 sockret a g;
     let ser = ser\<lparr>ser_fd := Some fd\<rparr>;
     if fd \<ge> 0 \<and> ser_port ser \<noteq> 0 \<and> bindret \<noteq> 0 then do {
       (_, g) \<leftarrow> co_close fd 0 g;
       None
     } else Some (ser, g)
   }"

text \<open>
  One round of \<open>server::run\<close>, from the return of \<open>accept\<close> to the first instruction of the
  new coroutine: the new \<open>socket_inf\<close>, connection and coroutine are at \<open>ainf\<close>, \<open>aconn\<close>
  and \<open>aco\<close>.
\<close>

record srv =
  srv_ser :: server
  srv_socks :: sockets
  srv_conns :: "addr \<Rightarrow> connection option"
  srv_sched :: sched

definition setcoroutine :: "addr \<Rightarrow> addr \<Rightarrow> srv \<Rightarrow> srv option" where
  "setcoroutine aconn aco v = do {
     c \<leftarrow> srv_conns v aconn;
     let v = v\<lparr>srv_conns := (srv_conns v)(aconn \<mapsto> c\<lparr>conn_co := Some aco\<rparr>)\<rparr>;
     s \<leftarrow> setconn aco (Some aconn) (srv_sched v);
     Some (v\<lparr>srv_sched := s\<rparr>)
   }"

definition on_conn :: "addr \<Rightarrow> (connection \<Rightarrow> connection) \<Rightarrow> srv \<Rightarrow> srv option" where
  "on_conn aconn f v = do {
     c \<leftarrow> srv_conns v aconn;
     Some (v\<lparr>srv_conns := (srv_conns v)(aconn \<mapsto> f c)\<rparr>)
   }"

definition serve_one :: "int \<Rightarrow> addr \<Rightarrow> addr \<Rightarrow> addr \<Rightarrow> srv \<Rightarrow> srv option" where
  "serve_one acc ainf aconn aco v = do {
     let (client_fd, g) = co_accept acc ainf (srv_socks v);
     let v = v\<lparr>srv_socks := g\<rparr>;
     if client_fd < 0 then Some v
     else do {
       let v = v\<lparr>srv_conns := (srv_conns v)(aconn \<mapsto> new_connection client_fd)\<rparr>;
       let v = v\<lparr>srv_sched := spawn aco (Some 0) (srv_sched v)\<rparr>;
       v \<leftarrow> setcoroutine aconn aco v;
       v \<leftarrow> on_conn aconn (setConnectedCb (ser_ConnectedCb (srv_ser v))) v;
       v \<leftarrow> on_conn aconn (setDisconnectedCb (ser_DisconnectedCb (srv_ser v))) v;
       v \<leftarrow> on_conn aconn (setReceiveCb (ser_ReceiveCb (srv_ser v))) v;
       (_, s) \<leftarrow> resume_co aco (srv_sched v);
       Some (v\<lparr>srv_sched := s\<rparr>)
     }
   }"

text \<open>\<open>server::start\<close>: the coroutine of the server, at \<open>aco\<close>, runs \<open>server_func\<close>.\<close>

definition server_start :: "addr \<Rightarrow> srv \<Rightarrow> srv option" where
  "server_start aco v = do {
     let v = v\<lparr>srv_sched := spawn aco (Some 1) (srv_sched v)\<rparr>;
     (_, s) \<leftarrow> resume_co aco (srv_sched v);
     Some (v\<lparr>srv_sched := s\<rparr>)
   }"

text \<open>\<open>server_func\<close> up to the first round of \<open>run\<close>.\<close>

definition server_func :: "int \<Rightarrow> int \<Rightarrow> addr \<Rightarrow> srv \<Rightarrow> srv option" where
  "server_func sockret bindret a v = do {
     (ser, g) \<leftarrow> server_init sockret bindret a (srv_ser v) (srv_socks v);
     Some (v\<lparr>srv_ser := ser, srv_socks := g\<rparr>)
   }"

section \<open>Lemmas\<close>

text \<open>A round after which the loop ends, and the data it delivers.\<close>

definition ends :: "round \<Rightarrow> bool" where
  "ends r \<longleftrightarrow> rd_close r \<or> rd_len r = TIME_OUT \<or> rd_len r \<le> 0 \<and> rd_errno r = EOther"

definition received :: "round list \<Rightarrow> callback list" where
  "received rs = map (\<lambda>r. ReceiveCb (rd_len r)) (filter (\<lambda>r. rd_len r > 0) rs)"

definition last_statue :: "round \<Rightarrow> statue" where
  "last_statue r =
     (if rd_len r \<le> 0 \<and> rd_len r \<noteq> TIME_OUT \<and> rd_errno r = EOther then close_by_client
      else if rd_close r then close_by_server_other else close_by_server_timeout)"

lemma not_ends:
  assumes "\<not> ends r" and "\<not> conn_end c" and "ReceiveCb_set c"
  shows "run_loop (r # rs) c tr = run_loop rs c (tr @ received [r])"
  using assms by (cases "rd_errno r") (auto simp: ends_def received_def run_loop.simps [of "r # rs"] Let_def)

lemma received_append [simp]: "received (xs @ ys) = received xs @ received ys"
  by (simp add: received_def)

lemma received_Nil [simp]: "received [] = []"
  by (simp add: received_def)

lemma run_loop_skip:
  assumes "\<forall>x \<in> set pre. \<not> ends x" and "\<not> conn_end c" and "ReceiveCb_set c"
  shows "run_loop (pre @ rs) c tr = run_loop rs c (tr @ received pre)"
  using assms
proof (induction pre arbitrary: tr)
  case (Cons x xs)
  then have "run_loop ((x # xs) @ rs) c tr = run_loop rs c (tr @ received [x] @ received xs)"
    using not_ends [of x c "xs @ rs" tr] by simp
  then show ?case using received_append [of "[x]" xs] by simp
qed simp

lemma run_loop_spins:
  assumes "\<forall>x \<in> set rs. \<not> ends x" and "\<not> conn_end c" and "ReceiveCb_set c"
  shows "run_loop rs c tr = Inl StillReading"
  using run_loop_skip [OF assms, of "[]" tr] assms(2) by (simp add: run_loop.simps [of "[]"])

lemma run_loop_last:
  assumes "ends r" and "\<not> conn_end c" and "conn_statue c \<noteq> close_by_client" and "ReceiveCb_set c"
  shows "\<exists>c'. run_loop (r # rs) c tr = Inr (c', tr @ received [r]) \<and> conn_fd c' = conn_fd c \<and>
     DisconnectedCb_set c' = DisconnectedCb_set c \<and>
     (if conn_end c' \<and> conn_statue c' \<noteq> close_by_client then close_by_server_other else conn_statue c') = last_statue r"
proof -
  have closed: "run_loop rs (c\<lparr>conn_end := True\<rparr>) tr' = Inr (c\<lparr>conn_end := True\<rparr>, tr')" for tr'
    by (simp add: run_loop.simps [of rs])
  let ?c = "if rd_close r then c\<lparr>conn_end := True\<rparr> else c"
  let ?d = "if rd_len r = TIME_OUT then ?c\<lparr>conn_statue := close_by_server_timeout\<rparr>
    else if rd_len r \<le> 0 \<and> rd_errno r = EOther then ?c\<lparr>conn_statue := close_by_client\<rparr> else ?c"
  show ?thesis
    using assms
    by (intro exI [of _ ?d]; cases "rd_errno r"; cases "rd_close r"; cases "rd_len r > 0")
      (auto simp: ends_def closed run_loop.simps [of "r # rs"] Let_def received_def close_conn_def
        last_statue_def TIME_OUT_def)
qed

lemma co_close_entry:
  assumes "table_ok g" and "g_socket_inf g fd \<noteq> None"
  shows "\<exists>g'. co_close fd ret g = Some (ret, g') \<and> g_socket_inf g' = (g_socket_inf g)(fd := None)"
proof -
  from assms obtain b x where "g_socket_inf g fd = Some (Some b)" "infs g b = Some x" "si_fd x = fd"
    unfolding table_ok_def by blast
  then show ?thesis by (simp add: co_close_def table_at_def delete_socket_inf_def)
qed


text \<open>
  \<open>send\<close> loses data without a sign: when the first \<open>write\<close> finds the socket buffer full,
  nothing is sent, whatever the later writes could do, while \<open>co_send\<close> in the same
  situation waits and delivers everything.
\<close>

lemma send_gives_up:
  assumes "table_ok g" and "g_socket_inf g (conn_fd c) \<noteq> None"
  shows "conn_send c (- 1) ws buf g = Some []"
    and "answers_ok ws (length buf) \<Longrightarrow> progress ws \<Longrightarrow> length buf \<le> length ws \<Longrightarrow> 0 < length buf \<Longrightarrow>
      co_send (conn_fd c) (- 1) ws buf g = Some (int (length buf), buf)"
proof -
  obtain x where x: "inf_at (conn_fd c) g = Some (x, g)" using inf_at_ok [OF assms] by blast
  then show "conn_send c (- 1) ws buf g = Some []" by (simp add: conn_send_def co_write_def)
  assume ok: "answers_ok ws (length buf)" "progress ws" "length buf \<le> length ws" "0 < length buf"
  then obtain reg ret ws' where w: "ws = (reg, ret) # ws'" "\<forall>t. reg t = 0" "0 < ret"
    by (cases ws) (auto simp: progress_def)
  have "write_loop ws buf t 1 0 (take 0 buf) = Some (int (length buf), buf)" for t
    using ok by (intro write_loop_delivers) simp_all
  then have "write_loop ws buf t (- 1) 0 [] = Some (int (length buf), buf)" for t
    using w ok(4) by (simp add: write_loop.simps [of "z # zs" for z zs])
  then show "co_send (conn_fd c) (- 1) ws buf g = Some (int (length buf), buf)"
    using x by (simp add: co_send_def)
qed

text \<open>\<open>init\<close>: the listening descriptor is in the table, or the process has aborted.\<close>

lemma server_init_listens:
  assumes "0 \<le> sockret"
  shows "server_init sockret bindret a ser g = None \<longleftrightarrow> ser_port ser \<noteq> 0 \<and> bindret \<noteq> 0"
    and "server_init sockret bindret a ser g = Some (ser', g') \<Longrightarrow>
      ser_fd ser' = Some sockret \<and> g_socket_inf g' sockret = Some (Some a)"
  using assms by (auto simp: server_init_def co_socket_def new_socket_inf_def Let_def bind_eq_None_conv bind_eq_Some_conv split: if_splits)

lemma server_start_runs:
  assumes "sched_inv m pc (srv_sched v)" and "cos (srv_sched v) aco = None"
  shows "\<exists>v'. server_start aco v = Some v' \<and> sched_inv m pc (srv_sched v') \<and>
     co_call_stack (srv_sched v') = aco # co_call_stack (srv_sched v)"
proof -
  let ?s = "spawn aco (Some 1) (srv_sched v)"
  have co: "cos ?s aco \<noteq> None" "susp ?s aco = Fresh" by (simp_all add: spawn_def)
  obtain s2 where s2: "resume_co aco ?s = Some (None, s2)" "sched_inv m pc s2"
    using step_resume [OF step_spawn [OF assms]] co by blast
  then have "co_call_stack s2 = aco # co_call_stack (srv_sched v)"
    by (auto simp: resume_co_def resume_def get_curr_co_def spawn_def split: list.splits)
  with s2 show ?thesis by (simp add: server_start_def)
qed

text \<open>
  From \<open>start\<close> to the first \<open>accept\<close>: the coroutine of the server runs, its descriptor is in
  the table, and the callbacks are the ones that were set.
\<close>

lemma server_listens:
  assumes "sched_inv m pc (srv_sched v)" and "cos (srv_sched v) aco = None"
    and "0 \<le> sockret" and "ser_port (srv_ser v) = 0 \<or> bindret = 0"
  shows "\<exists>v1 v2. server_start aco v = Some v1 \<and> server_func sockret bindret a v1 = Some v2 \<and>
     sched_inv m pc (srv_sched v2) \<and> co_call_stack (srv_sched v2) = aco # co_call_stack (srv_sched v) \<and>
     ser_fd (srv_ser v2) = Some sockret \<and> g_socket_inf (srv_socks v2) sockret = Some (Some a) \<and>
     ser_ConnectedCb (srv_ser v2) = ser_ConnectedCb (srv_ser v)"
proof -
  obtain v1 where v1: "server_start aco v = Some v1" "sched_inv m pc (srv_sched v1)"
    "co_call_stack (srv_sched v1) = aco # co_call_stack (srv_sched v)"
    using server_start_runs [OF assms(1,2)] by blast
  have keep: "srv_ser v1 = srv_ser v" "srv_socks v1 = srv_socks v"
    using v1(1) by (auto simp: server_start_def bind_eq_Some_conv)
  obtain ser g where i: "server_init sockret bindret a (srv_ser v) (srv_socks v) = Some (ser, g)"
    using server_init_listens(1) [OF assms(3), of bindret a "srv_ser v" "srv_socks v"] assms(4) by fastforce
  have "ser_ConnectedCb ser = ser_ConnectedCb (srv_ser v)"
    using i by (auto simp: server_init_def Let_def bind_eq_Some_conv split: if_splits prod.splits)
  with v1 keep i server_init_listens(2) [OF assms(3) i] show ?thesis by (auto simp: server_func_def)
qed

text \<open>Without callbacks a connection throws at once, and so does every connection of a server without them.\<close>

lemma conn_run_no_callback: "\<not> ConnectedCb_set c \<Longrightarrow> conn_run cl rs ret c g = Inl BadFunctionCall"
  by (simp add: conn_run_def Let_def)

definition conn_cbs :: "connection \<Rightarrow> connection" where
  "conn_cbs c = setReceiveCb True (setDisconnectedCb True (setConnectedCb True c))"

section \<open>Properties\<close>

text \<open>
  C30. The life of a connection whose three callbacks are set. Let \<open>r\<close> be the
  first round of \<open>run\<close> in which the socket times out, is closed by the peer, or \<open>close()\<close> is called. The callbacks are called in
  this order: connected once, then receive for every chunk read up to and including that
  round, in order, then disconnected once with the reason. Afterwards the connection is
  disconnected and its socket is closed and out of the table. If the connected callback
  calls \<open>close()\<close>, nothing is read.
\<close>

theorem connection_lifecycle:
  assumes "table_ok g" and "g_socket_inf g (conn_fd c) \<noteq> None" and "\<not> conn_end c"
    and "rs = pre @ r # post" and "\<forall>x \<in> set pre. \<not> ends x" and "ends r"
    and "ConnectedCb_set c" and "ReceiveCb_set c" and "DisconnectedCb_set c"
  shows "(\<exists>c' g'. conn_func False rs ret c g =
         Inr (c', ConnectedCb # received (pre @ [r]) @ [DisconnectedCb (last_statue r)], g') \<and>
       conn_statue c' = disconnected \<and> conn_end c' \<and> g_socket_inf g' = (g_socket_inf g)(conn_fd c := None)) \<and>
     (\<exists>c' g'. conn_func True rs ret c g = Inr (c', [ConnectedCb, DisconnectedCb close_by_server_other], g') \<and>
       conn_statue c' = disconnected \<and> conn_end c' \<and> g_socket_inf g' = (g_socket_inf g)(conn_fd c := None))"
proof -
  obtain g' where g': "co_close (conn_fd c) ret g = Some (ret, g')" "g_socket_inf g' = (g_socket_inf g)(conn_fd c := None)"
    using co_close_entry [OF assms(1,2)] by blast
  let ?c = "c\<lparr>conn_statue := connecting\<rparr>"
  have e: "\<not> conn_end ?c" "ReceiveCb_set ?c" using assms(3,8) by simp_all
  obtain c' where c': "run_loop rs ?c [ConnectedCb] = Inr (c', ConnectedCb # received (pre @ [r]))"
    "conn_fd c' = conn_fd c" "DisconnectedCb_set c'"
    "(if conn_end c' \<and> conn_statue c' \<noteq> close_by_client then close_by_server_other else conn_statue c') = last_statue r"
    using run_loop_last [OF assms(6) e(1) _ e(2), of post "[ConnectedCb] @ received pre"]
      run_loop_skip [OF assms(5) e, of "r # post"] assms(4,9)
    by auto
  have closed: "run_loop rs (close_conn c\<lparr>conn_statue := connecting\<rparr>) tr = Inr (close_conn c\<lparr>conn_statue := connecting\<rparr>, tr)" for tr
    by (simp add: run_loop.simps [of rs] close_conn_def)
  show ?thesis
    using c' g' closed assms(7-9)
    by (auto simp: conn_func_def conn_run_def Let_def close_conn_def split: if_splits)
qed

theorem connection_lifecycle_witness:
  "\<exists>c' g'. conn_func False [\<lparr>rd_len = 3, rd_errno = EAGAIN, rd_close = False\<rparr>, \<lparr>rd_len = TIME_OUT, rd_errno = EAGAIN, rd_close = False\<rparr>]
     0 (conn_cbs (new_connection 5)) sock5 = Inr (c', [ConnectedCb, ReceiveCb 3, DisconnectedCb close_by_server_timeout], g')"
  using connection_lifecycle [OF sock5_ok(1), of "conn_cbs (new_connection 5)" _ "[\<lparr>rd_len = 3, rd_errno = EAGAIN, rd_close = False\<rparr>]"
      "\<lparr>rd_len = TIME_OUT, rd_errno = EAGAIN, rd_close = False\<rparr>" "[]" 0] sock5_ok(2)
  by (auto simp: conn_cbs_def setConnectedCb_def setReceiveCb_def setDisconnectedCb_def new_connection_def ends_def received_def last_statue_def TIME_OUT_def)



text \<open>
  C31. The loop of \<open>run\<close> ends exactly when some round ends it. In particular a peer that
  has closed the connection, so that \<open>read\<close> returns 0 without setting \<open>errno\<close>, keeps the
  coroutine spinning for as long as \<open>errno\<close> still holds an old \<open>EAGAIN\<close>.
\<close>

theorem eof_spins:
  assumes "\<not> conn_end c" and "conn_statue c = connecting" and "ReceiveCb_set c"
  shows "(run_loop rs c tr = Inl StillReading \<longleftrightarrow> (\<forall>r \<in> set rs. \<not> ends r)) \<and>
     run_loop (replicate k \<lparr>rd_len = 0, rd_errno = EAGAIN, rd_close = False\<rparr>) c tr = Inl StillReading"
proof
  have "run_loop rs c tr \<noteq> Inl StillReading" if "\<exists>r \<in> set rs. ends r"
  proof -
    from split_list_first_prop [OF that] obtain pre r post where "rs = pre @ r # post" "ends r" "\<forall>x \<in> set pre. \<not> ends x"
      by blast
    then show ?thesis
      using run_loop_last [OF _ assms(1) _ assms(3), of r post "tr @ received pre"] assms(2) run_loop_skip [OF _ assms(1,3), of pre "r # post" tr] by auto
  qed
  then show "run_loop rs c tr = Inl StillReading \<longleftrightarrow> (\<forall>r \<in> set rs. \<not> ends r)"
    using run_loop_spins [OF _ assms(1,3), of rs tr] by blast
  show "run_loop (replicate k \<lparr>rd_len = 0, rd_errno = EAGAIN, rd_close = False\<rparr>) c tr = Inl StillReading"
    using assms by (intro run_loop_spins) (auto simp: ends_def TIME_OUT_def)
qed

theorem eof_spins_witness:
  "run_loop (replicate 1000 \<lparr>rd_len = 0, rd_errno = EAGAIN, rd_close = False\<rparr>) ((conn_cbs (new_connection 5))\<lparr>conn_statue := connecting\<rparr>) [] = Inl StillReading"
  using eof_spins [of "(conn_cbs (new_connection 5))\<lparr>conn_statue := connecting\<rparr>" "[]" "[]" 1000] by (simp add: conn_cbs_def setConnectedCb_def setReceiveCb_def setDisconnectedCb_def new_connection_def)

text \<open>
  C32. A round of the server. A failed \<open>accept\<close> starts nothing. After a successful one
  the thread's invariant still holds, the new coroutine runs on top of the server's, it
  and the new connection point to each other, and the descriptor is in the table.
\<close>

theorem serve_one_starts:
  assumes "sched_inv m pc (srv_sched v)" and "cos (srv_sched v) aco = None"
    and "table_ok (srv_socks v)" and "infs (srv_socks v) ainf = None"
  shows "\<exists>v'. serve_one acc ainf aconn aco v = Some v' \<and> sched_inv m pc (srv_sched v') \<and> table_ok (srv_socks v') \<and>
     (if acc < 0 then srv_conns v' = srv_conns v \<and> srv_sched v' = srv_sched v
      else co_call_stack (srv_sched v') = aco # co_call_stack (srv_sched v) \<and>
        (\<exists>co. cos (srv_sched v') aco = Some co \<and> co_conn co = Some (Some aconn)) \<and>
        (\<exists>c. srv_conns v' aconn = Some c \<and> conn_co c = Some aco \<and> conn_fd c = acc \<and>
          ConnectedCb_set c = ser_ConnectedCb (srv_ser v) \<and> ReceiveCb_set c = ser_ReceiveCb (srv_ser v) \<and>
          DisconnectedCb_set c = ser_DisconnectedCb (srv_ser v)) \<and>
        g_socket_inf (srv_socks v') acc = Some (Some ainf))"
proof -
  let ?g = "new_socket_inf ainf acc (srv_socks v)"
  have g: "table_ok ?g" "g_socket_inf ?g acc = Some (Some ainf)"
    using new_socket_inf_ok [OF assms(3,4)] by (simp_all add: new_socket_inf_def)
  let ?s = "spawn aco (Some 0) (srv_sched v)"
  have inv: "sched_inv m pc ?s" using step_spawn [OF assms(1,2)] .
  have co: "cos ?s aco = Some (new_coroutine (Some 0))" "susp ?s aco = Fresh" by (simp_all add: spawn_def)
  obtain s1 where s1: "setconn aco (Some aconn) ?s = Some s1" "sched_inv m pc s1"
    using step_setconn [OF inv, of aco "Some aconn"] co by auto
  then have s1_eq: "s1 = ?s\<lparr>cos := (cos ?s)(aco \<mapsto> (new_coroutine (Some 0))\<lparr>co_conn := Some (Some aconn)\<rparr>)\<rparr>"
    using co by (simp add: setconn_def)
  then obtain s2 where s2: "resume_co aco s1 = Some (None, s2)" "sched_inv m pc s2"
    using step_resume [OF s1(2), of aco] co by auto
  have s2_eq: "co_call_stack s2 = aco # co_call_stack (srv_sched v)"
    "cos s2 aco = Some ((new_coroutine (Some 0))\<lparr>co_conn := Some (Some aconn), co_start := True\<rparr>)"
    using s2(1) s1_eq by (auto simp: resume_co_def resume_def get_curr_co_def spawn_def split: list.splits)
  show ?thesis
    using assms(1) g s1 s2 s2_eq
    by (auto simp: serve_one_def co_accept_def setcoroutine_def new_connection_def on_conn_def
        setConnectedCb_def setReceiveCb_def setDisconnectedCb_def Let_def)
qed

theorem serve_one_starts_witness:
  "\<exists>v'. serve_one 7 2 3 9 \<lparr>srv_ser = new_server [] 80, srv_socks = sock5, srv_conns = Map.empty, srv_sched = run0\<rparr> = Some v' \<and>
     co_call_stack (srv_sched v') = [9, 1]"
proof -
  have "sched_inv 1 Outside run0" using reachable_inv [OF fresh0 reach0 [unfolded run0_def]] by (simp add: run0_def)
  moreover have "infs sock5 2 = None" by (simp add: sock5_def new_socket_inf_def)
  ultimately show ?thesis
    using serve_one_starts [of 1 Outside "\<lparr>srv_ser = new_server [] 80, srv_socks = sock5, srv_conns = Map.empty, srv_sched = run0\<rparr>" 9 2 7 3]
      sock5_ok(1) run0 by auto
qed

end
