(* ===== verification/Co_Stackless.thy ===== *)
theory Co_Stackless
  imports Baton_Prelude
begin

text \<open>
  The stackless coroutines of \<open>coroutine_stackless.h\<close> and \<open>coroutine_stackless.cpp\<close>, and the
  coroutine-local variables of \<open>coroutine_local.h\<close>.

  The body of a stackless coroutine is a function whose code is wrapped in \<open>CO_REENTER\<close> and
  cut into segments by \<open>YEILD\<close>. Here it is its first segment and, for each \<open>YEILD\<close>, the
  label \<open>__COUNTER__ + 1\<close> of its \<open>case\<close> with the segment behind it.
\<close>

section \<open>Stackless coroutines\<close>

record 'a body =
  b_first :: 'a
  b_rest :: "(int \<times> 'a) list"

record coroutine_stackless =
  counter :: int

definition new_stackless :: coroutine_stackless where
  "new_stackless = \<lparr>counter = 0\<rparr>"

text \<open>
  Control reaches the \<open>YEILD\<close>s of the list one after the other: \<open>CO_YEILD(n)\<close> stores \<open>n\<close> in
  the counter and leaves the function, unless \<open>n\<close> is 0. The result is the segments executed
  and the counter.
\<close>

fun run_yields :: "(int \<times> 'a) list \<Rightarrow> int \<Rightarrow> 'a list \<times> int" where
  "run_yields [] flag = ([], flag)"
| "run_yields ((n, s) # ys) flag =
     (let flag = n in
      if flag = 0 then (let (tr, f) = run_yields ys flag in (s # tr, f)) else ([], flag))"

text \<open>
  The \<open>switch\<close> of \<open>CO_REENTER\<close>: \<open>case -1\<close> leaves at once, \<open>case 0\<close> starts with the first
  segment, \<open>case n\<close> of a \<open>YEILD\<close> with the segment behind it; any other value skips the body.
\<close>

definition co_reenter :: "'a body \<Rightarrow> int \<Rightarrow> 'a list \<times> int" where
  "co_reenter b flag =
     (if flag = - 1 then ([], - 1)
      else if flag = 0 then (let (tr, f) = run_yields (b_rest b) flag in (b_first b # tr, f))
      else case dropWhile (\<lambda>(n, _). n \<noteq> flag) (b_rest b) of
        [] \<Rightarrow> ([], flag)
      | (n, s) # ys \<Rightarrow> (let (tr, f) = run_yields ys flag in (s # tr, f)))"

definition resume_stackless :: "'a body \<Rightarrow> coroutine_stackless \<Rightarrow> 'a list \<times> coroutine_stackless" where
  "resume_stackless b co = (let (tr, f) = co_reenter b (counter co) in (tr, co\<lparr>counter := f\<rparr>))"

text \<open>A number of resumptions, with all that they execute.\<close>

fun resumes :: "nat \<Rightarrow> 'a body \<Rightarrow> coroutine_stackless \<Rightarrow> 'a list \<times> coroutine_stackless" where
  "resumes 0 b co = ([], co)"
| "resumes (Suc k) b co =
     (let (tr, co) = resumes k b co; (tr', co) = resume_stackless b co in (tr @ tr', co))"

definition segments :: "'a body \<Rightarrow> 'a list" where
  "segments b = b_first b # map snd (b_rest b)"

text \<open>The labels of one function: the preprocessor counts up from 0 or more.\<close>

definition labels_ok :: "'a body \<Rightarrow> bool" where
  "labels_ok b \<longleftrightarrow> distinct (map fst (b_rest b)) \<and> (\<forall>n \<in> set (map fst (b_rest b)). n > 0)"

text \<open>The counter after \<open>k\<close> resumptions.\<close>

definition flag_after :: "'a body \<Rightarrow> nat \<Rightarrow> int" where
  "flag_after b k = (if k = 0 \<or> b_rest b = [] then 0 else fst (b_rest b ! (min k (length (b_rest b)) - 1)))"

lemma run_yields_stops:
  assumes "\<forall>n \<in> set (map fst ys). n > 0"
  shows "run_yields ys flag = ([], if ys = [] then flag else fst (hd ys))"
  using assms by (cases ys) auto

lemma dropWhile_label:
  assumes "distinct (map fst ys)" and "i < length ys"
  shows "dropWhile (\<lambda>(n, _). n \<noteq> fst (ys ! i)) ys = drop i ys"
  using assms
proof (induction ys arbitrary: i)
  case (Cons y ys)
  show ?case
  proof (cases i)
    case 0
    then show ?thesis by (cases y) simp
  next
    case (Suc j)
    with Cons.prems have "fst y \<noteq> fst (ys ! j)" by auto
    with Cons Suc show ?thesis by (cases y) simp
  qed
qed simp

lemma resume_at:
  assumes "labels_ok b"
  shows "co_reenter b (flag_after b k) = ([segments b ! min k (length (b_rest b))], flag_after b (Suc k))"
proof (cases "k = 0 \<or> b_rest b = []")
  case True
  then have "flag_after b k = 0" by (auto simp: flag_after_def)
  with True assms show ?thesis
    by (cases "b_rest b") (auto simp: co_reenter_def run_yields_stops labels_ok_def segments_def flag_after_def)
next
  case False
  let ?ys = "b_rest b"
  define i where "i = min k (length ?ys) - 1"
  have i: "i < length ?ys" using False by (cases ?ys) (auto simp: i_def)
  have f: "flag_after b k = fst (?ys ! i)" using False by (simp add: flag_after_def i_def)
  have pos: "fst (?ys ! i) > 0" using assms i by (auto simp: labels_ok_def)
  have d: "dropWhile (\<lambda>(n, _). n \<noteq> fst (?ys ! i)) ?ys = ?ys ! i # drop (Suc i) ?ys"
    using dropWhile_label [OF _ i] assms i by (simp add: labels_ok_def Cons_nth_drop_Suc)
  have rest: "\<forall>n \<in> set (map fst (drop (Suc i) ?ys)). n > 0"
    using assms by (auto simp: labels_ok_def dest: in_set_dropD)
  have Suc_i: "min k (length ?ys) = Suc i" using False by (cases ?ys) (auto simp: i_def)
  have "(b_first b # map snd ?ys) ! Suc i = snd (?ys ! i)" using i by simp
  then have seg: "segments b ! min k (length ?ys) = snd (?ys ! i)"
    by (simp only: Suc_i segments_def)
  have next_f: "flag_after b (Suc k) = (if drop (Suc i) ?ys = [] then fst (?ys ! i) else fst (hd (drop (Suc i) ?ys)))"
  proof (cases "k < length ?ys")
    case True
    then have "Suc i = k" using Suc_i by simp
    then have "drop (Suc i) ?ys \<noteq> []" "hd (drop (Suc i) ?ys) = ?ys ! k"
      using True by (simp_all add: hd_drop_conv_nth)
    then show ?thesis using True False by (simp add: flag_after_def)
  next
    case nk: False
    then have "Suc i = length ?ys" using Suc_i by simp
    then show ?thesis using False nk i_def by (simp add: flag_after_def)
  qed
  obtain n s where ns: "?ys ! i = (n, s)" by fastforce
  with pos d f have "co_reenter b (flag_after b k) = (let (tr, g) = run_yields (drop (Suc i) ?ys) n in (s # tr, g))"
    by (simp add: co_reenter_def)
  with ns seg next_f run_yields_stops [OF rest, of n] show ?thesis by (simp only: fst_conv snd_conv prod.case Let_def)
qed

lemma resumes_counter: "labels_ok b \<Longrightarrow> counter (snd (resumes k b new_stackless)) = flag_after b k"
proof (induction k)
  case 0
  then show ?case by (simp add: new_stackless_def flag_after_def)
next
  case (Suc k)
  then show ?case by (simp add: resume_stackless_def resume_at Let_def case_prod_beta)
qed

section \<open>Coroutine-local variables\<close>

text \<open>
  \<open>COROUTINE_LOCAL\<close> declares a map from coroutines to values, \<open>COLOCAL\<close> is the entry of the
  running coroutine, made with the default value \<open>d\<close> when there is none, and \<open>DELCOLOCAL\<close>
  removes an entry. Nothing removes the entry of a coroutine that is deleted.
\<close>

type_synonym 'v colocal = "addr \<Rightarrow> 'v option"

definition colocal_read :: "'v \<Rightarrow> addr \<Rightarrow> 'v colocal \<Rightarrow> 'v \<times> 'v colocal" where
  "colocal_read d co y = (case y co of Some v \<Rightarrow> (v, y) | None \<Rightarrow> (d, y(co \<mapsto> d)))"

definition colocal_assign :: "addr \<Rightarrow> 'v \<Rightarrow> 'v colocal \<Rightarrow> 'v colocal" where
  "colocal_assign co v y = y(co \<mapsto> v)"

definition delcolocal :: "addr \<Rightarrow> 'v colocal \<Rightarrow> 'v colocal" where
  "delcolocal co y = (if y co \<noteq> None then y(co := None) else y)"

section \<open>Properties\<close>

text \<open>
  C37. The macros cut the function where it says: the first \<open>n + 1\<close> resumptions of a
  stackless coroutine with \<open>n\<close> \<open>YEILD\<close>s execute its \<open>n + 1\<close> segments in order, one each. The
  counter is never set to -1, so it does not know that it has finished: every further
  resumption executes the last segment again.
\<close>

theorem stackless_segments:
  assumes "labels_ok b"
  shows "fst (resumes k b new_stackless) = map (\<lambda>i. segments b ! min i (length (b_rest b))) [0..<k] \<and>
     counter (snd (resumes k b new_stackless)) \<noteq> - 1"
proof (intro conjI)
  show "fst (resumes k b new_stackless) = map (\<lambda>i. segments b ! min i (length (b_rest b))) [0..<k]"
  proof (induction k)
    case (Suc k)
    then show ?case
      using resumes_counter [OF assms, of k] resume_at [OF assms, of k]
      by (simp add: resume_stackless_def Let_def case_prod_beta)
  qed simp
  have "flag_after b k \<ge> 0"
    using assms by (cases "b_rest b") (auto simp: flag_after_def labels_ok_def nth_Cons split: nat.splits intro: less_imp_le)
  then show "counter (snd (resumes k b new_stackless)) \<noteq> - 1" using resumes_counter [OF assms, of k] by simp
qed

theorem stackless_segments_witness:
  "fst (resumes 4 \<lparr>b_first = ''a'', b_rest = [(1, ''b''), (2, ''c'')]\<rparr> new_stackless) = [''a'', ''b'', ''c'', ''c'']"
  using stackless_segments [of "\<lparr>b_first = ''a'', b_rest = [(1, ''b''), (2, ''c'')]\<rparr>" 4]
  by (simp add: labels_ok_def segments_def upt_rec)

text \<open>
  Coroutine-local variables are separate: a coroutine reads what it wrote last, whatever
  the others write. An entry outlives its coroutine, so a new coroutine at the same address
  starts with the old value unless \<open>DELCOLOCAL\<close> was called.
\<close>

lemma colocal_separate:
  "fst (colocal_read d co (colocal_assign co v y)) = v"
  "co \<noteq> co' \<Longrightarrow> fst (colocal_read d co (colocal_assign co' v y)) = fst (colocal_read d co y)"
  "fst (colocal_read d co (delcolocal co y)) = d"
  by (auto simp: colocal_read_def colocal_assign_def delcolocal_def split: option.splits)

end
