(* ===== verification/Log_Stream.thy ===== *)
theory Log_Stream
  imports Baton_Prelude
begin

text \<open>
  The text buffers and number formatting of the log, \<open>LogStream.h\<close> and \<open>LogStream.cpp\<close>: a
  buffer of 4000 bytes with a write position, the conversion of integers of any of the
  C++ types, and the output operators.
\<close>

section \<open>Buffers\<close>

definition KSMALLBUFFER :: nat where
  "KSMALLBUFFER = 4000"

text \<open>\<open>cur\<close> is the offset of \<open>cur_\<close> in \<open>data_\<close>.\<close>

record Log_Buffer =
  data :: string
  cur :: nat

text \<open>Writing the bytes \<open>xs\<close> at an offset; beyond the end of the array it is a fault.\<close>

definition poke :: "nat \<Rightarrow> string \<Rightarrow> Log_Buffer \<Rightarrow> Log_Buffer option" where
  "poke i xs b =
     (if i + length xs \<le> length (data b)
      then Some (b\<lparr>data := take i (data b) @ xs @ drop (i + length xs) (data b)\<rparr>) else None)"

text \<open>\<open>std::reverse\<close> of the bytes from \<open>i\<close> to \<open>j\<close>.\<close>

definition reverse_range :: "nat \<Rightarrow> nat \<Rightarrow> Log_Buffer \<Rightarrow> Log_Buffer" where
  "reverse_range i j b = b\<lparr>data := take i (data b) @ rev (take (j - i) (drop i (data b))) @ drop j (data b)\<rparr>"

definition new_Log_Buffer :: "string \<Rightarrow> Log_Buffer" where
  "new_Log_Buffer junk = \<lparr>data = junk, cur = 0\<rparr>"

definition lb_length :: "Log_Buffer \<Rightarrow> int" where
  "lb_length b = int (cur b)"

definition avail :: "Log_Buffer \<Rightarrow> int" where
  "avail b = int (length (data b)) - int (cur b)"

definition lb_add :: "nat \<Rightarrow> Log_Buffer \<Rightarrow> Log_Buffer" where
  "lb_add len b = b\<lparr>cur := cur b + len\<rparr>"

definition lb_reset :: "Log_Buffer \<Rightarrow> Log_Buffer" where
  "lb_reset b = b\<lparr>cur := 0\<rparr>"

definition lb_bzero :: "Log_Buffer \<Rightarrow> Log_Buffer" where
  "lb_bzero b = b\<lparr>data := replicate (length (data b)) (CHR 0x00)\<rparr>"

text \<open>\<open>append\<close>: the comparison converts the \<open>int\<close> of \<open>avail()\<close> to \<open>size_t\<close>.\<close>

definition lb_append :: "string \<Rightarrow> Log_Buffer \<Rightarrow> Log_Buffer option" where
  "lb_append buf b =
     (if nat (avail b mod 2 ^ 64) > length buf then do {
        b \<leftarrow> poke (cur b) buf b;
        Some (lb_add (length buf) b)
      } else Some b)"

section \<open>Conversion of integers\<close>

definition digits :: string where
  "digits = ''9876543210123456789''"

definition digitsHex :: string where
  "digitsHex = ''0123456789ABCDEF''"

text \<open>
  \<open>zero[lsd]\<close> for the remainder of a division that truncates towards zero, so between -9
  and 9.
\<close>

definition zero_at :: "int \<Rightarrow> char" where
  "zero_at lsd = digits ! nat (9 + lsd)"

function convert_loop :: "int \<Rightarrow> string" where
  "convert_loop i =
     (let lsd = i smod 10; i = i sdiv 10 in
      zero_at lsd # (if i \<noteq> 0 then convert_loop i else []))"
  by pat_completeness auto

termination
proof (relation "measure (\<lambda>i. nat \<bar>i\<bar>)")
  fix i lsd j :: int assume "lsd = i smod 10" "j = i sdiv 10" "j \<noteq> 0"
  then show "(j, i) \<in> measure (\<lambda>i. nat \<bar>i\<bar>)"
    by (auto simp: signed_divide_int_def sgn_if split: if_splits)
qed simp

declare convert_loop.simps [simp del]

text \<open>\<open>convert\<close> at the write position: the new buffer and the number of characters.\<close>

definition convert :: "int \<Rightarrow> Log_Buffer \<Rightarrow> (nat \<times> Log_Buffer) option" where
  "convert value b = do {
     let chars = convert_loop value @ (if value < 0 then ''-'' else []);
     b \<leftarrow> poke (cur b) (chars @ [CHR 0x00]) b;
     Some (length chars, reverse_range (cur b) (cur b + length chars) b)
   }"

fun hex_loop :: "nat \<Rightarrow> string" where
  "hex_loop i = digitsHex ! (i mod 16) # (if i div 16 \<noteq> 0 then hex_loop (i div 16) else [])"

declare hex_loop.simps [simp del]

section \<open>The stream\<close>

definition kMaxNumericSize :: int where
  "kMaxNumericSize = 32"

definition formatInteger :: "int \<Rightarrow> Log_Buffer \<Rightarrow> Log_Buffer option" where
  "formatInteger v b =
     (if avail b \<ge> kMaxNumericSize then do {
        (len, b) \<leftarrow> convert v b;
        Some (lb_add len b)
      } else Some b)"

definition stream_bool :: "bool \<Rightarrow> Log_Buffer \<Rightarrow> Log_Buffer option" where
  "stream_bool v b = lb_append (if v then ''1'' else ''0'') b"

definition stream_char :: "char \<Rightarrow> Log_Buffer \<Rightarrow> Log_Buffer option" where
  "stream_char v b = lb_append [v] b"

text \<open>\<open>const char*\<close>: the characters before the terminating NUL, or a null pointer.\<close>

definition stream_cstr :: "string option \<Rightarrow> Log_Buffer \<Rightarrow> Log_Buffer option" where
  "stream_cstr str b = (case str of Some s \<Rightarrow> lb_append s b | None \<Rightarrow> lb_append ''(null)'' b)"

definition stream_string :: "string \<Rightarrow> Log_Buffer \<Rightarrow> Log_Buffer option" where
  "stream_string v b = lb_append v b"

text \<open>
  The operators for the integers of 16, 32 and 64 bits. The template \<open>formatInteger\<close> works
  on the value of its argument; the narrow types are widened first.
\<close>

definition stream_int :: "32 word \<Rightarrow> Log_Buffer \<Rightarrow> Log_Buffer option" where
  "stream_int v b = formatInteger (sint v) b"

definition stream_uint :: "32 word \<Rightarrow> Log_Buffer \<Rightarrow> Log_Buffer option" where
  "stream_uint v b = formatInteger (uint v) b"

definition stream_short :: "16 word \<Rightarrow> Log_Buffer \<Rightarrow> Log_Buffer option" where
  "stream_short v b = stream_int (scast v) b"

definition stream_ushort :: "16 word \<Rightarrow> Log_Buffer \<Rightarrow> Log_Buffer option" where
  "stream_ushort v b = stream_uint (ucast v) b"

definition stream_long :: "64 word \<Rightarrow> Log_Buffer \<Rightarrow> Log_Buffer option" where
  "stream_long v b = formatInteger (sint v) b"

definition stream_ulong :: "64 word \<Rightarrow> Log_Buffer \<Rightarrow> Log_Buffer option" where
  "stream_ulong v b = formatInteger (uint v) b"

definition stream_long_long :: "64 word \<Rightarrow> Log_Buffer \<Rightarrow> Log_Buffer option" where
  "stream_long_long v b = formatInteger (sint v) b"

definition stream_ulong_long :: "64 word \<Rightarrow> Log_Buffer \<Rightarrow> Log_Buffer option" where
  "stream_ulong_long v b = formatInteger (uint v) b"

definition stream_ptr :: "u64 \<Rightarrow> Log_Buffer \<Rightarrow> Log_Buffer option" where
  "stream_ptr v b =
     (if avail b \<ge> kMaxNumericSize then do {
        b \<leftarrow> poke (cur b) ''0x'' b;
        let chars = hex_loop (unat v);
        b \<leftarrow> poke (cur b) (chars @ [CHR 0x00]) b;
        let b = reverse_range (cur b) (cur b + length chars) b;
        Some (lb_add (length chars + 2) b)
      } else Some b)"

text \<open>
  \<open>double\<close> and \<open>long double\<close>: \<open>txt\<close> is what \<open>snprintf\<close> produces for the number without
  truncation; it stores at most 31 characters and the NUL, and returns the full length.
\<close>

definition stream_double :: "string \<Rightarrow> Log_Buffer \<Rightarrow> Log_Buffer option" where
  "stream_double txt b =
     (if avail b \<ge> kMaxNumericSize then do {
        b \<leftarrow> poke (cur b) (take 31 txt @ [CHR 0x00]) b;
        Some (lb_add (length txt) b)
      } else Some b)"

text \<open>\<open>float\<close>: \<open>txt\<close> is the text of the number converted to \<open>double\<close>.\<close>

definition stream_float :: "string \<Rightarrow> Log_Buffer \<Rightarrow> Log_Buffer option" where
  "stream_float txt b = stream_double txt b"

definition stream_append :: "string \<Rightarrow> Log_Buffer \<Rightarrow> Log_Buffer option" where
  "stream_append dat b = lb_append dat b"

definition buffer :: "Log_Buffer \<Rightarrow> Log_Buffer" where
  "buffer b = b"

definition resetBuffer :: "Log_Buffer \<Rightarrow> Log_Buffer" where
  "resetBuffer b = lb_reset b"

section \<open>Specification\<close>

definition lb_ok :: "Log_Buffer \<Rightarrow> bool" where
  "lb_ok b \<longleftrightarrow> length (data b) = KSMALLBUFFER \<and> cur b < KSMALLBUFFER"

definition content :: "Log_Buffer \<Rightarrow> string" where
  "content b = take (cur b) (data b)"

text \<open>The value of a decimal numeral, with an optional minus sign.\<close>

definition digit_val :: "char \<Rightarrow> int" where
  "digit_val c = int (of_char c) - 48"

definition parse_nat :: "string \<Rightarrow> int" where
  "parse_nat xs = foldl (\<lambda>n c. 10 * n + digit_val c) 0 xs"

definition parse_int :: "string \<Rightarrow> int" where
  "parse_int xs = (case xs of [] \<Rightarrow> 0 | c # cs \<Rightarrow> if c = CHR ''-'' then - parse_nat cs else parse_nat xs)"

definition int_text :: "int \<Rightarrow> string" where
  "int_text v = (if v < 0 then ''-'' else []) @ rev (convert_loop v)"

definition hex_text :: "nat \<Rightarrow> string" where
  "hex_text n = rev (hex_loop n)"

section \<open>Digits\<close>

lemma smod10: "i smod 10 = (if 0 \<le> i then int (nat \<bar>i\<bar> mod 10) else - int (nat \<bar>i\<bar> mod 10))"
proof (cases "0 \<le> i")
  case True
  then have "i smod 10 = i mod 10" by (cases "i = 0") (simp_all add: signed_modulo_int_def)
  with True show ?thesis by (simp add: zmod_int)
next
  case False
  then have "i smod 10 = - ((- i) mod 10)" by (simp add: signed_modulo_int_def)
  with False show ?thesis by (simp add: zmod_int)
qed

lemma sdiv10: "i sdiv 10 = sgn i * int (nat \<bar>i\<bar> div 10)"
  by (simp add: signed_divide_int_def zdiv_int)

lemma less10: "(n :: nat) < 10 \<Longrightarrow> n = 0 \<or> n = 1 \<or> n = 2 \<or> n = 3 \<or> n = 4 \<or> n = 5 \<or> n = 6 \<or> n = 7 \<or> n = 8 \<or> n = 9"
  by presburger

lemma zero_at_digit:
  assumes "n < 10"
  shows "zero_at (int n) = char_of (48 + n)" "zero_at (- int n) = char_of (48 + n)"
  using less10 [OF assms] by (auto simp: zero_at_def digits_def char_of_def bit_iff_odd)

lemma digit_val_char: "n < 10 \<Longrightarrow> digit_val (char_of (48 + n)) = int n"
  by (simp add: digit_val_def of_char_of take_bit_nat_eq_self)

fun dec_loop :: "nat \<Rightarrow> string" where
  "dec_loop n = char_of (48 + n mod 10) # (if n div 10 \<noteq> 0 then dec_loop (n div 10) else [])"

declare dec_loop.simps [simp del]

lemma convert_loop_dec: "convert_loop i = dec_loop (nat \<bar>i\<bar>)"
proof (induction "nat \<bar>i\<bar>" arbitrary: i rule: less_induct)
  case less
  define k where "k = nat \<bar>i\<bar> mod 10"
  have "i smod 10 = int k \<or> i smod 10 = - int k" unfolding k_def using smod10 [of i] by presburger
  moreover have "k < 10" by (simp add: k_def)
  ultimately have d: "zero_at (i smod 10) = char_of (48 + nat \<bar>i\<bar> mod 10)"
    using zero_at_digit [of k] by (auto simp: k_def)
  have a: "nat \<bar>i sdiv 10\<bar> = nat \<bar>i\<bar> div 10"
    by (cases "i = 0") (simp_all add: sdiv10 abs_mult abs_sgn_eq)
  then have z: "i sdiv 10 = 0 \<longleftrightarrow> nat \<bar>i\<bar> div 10 = 0" by (metis abs_eq_0 nat_0 nat_eq_iff2 abs_ge_zero order_refl)
  show ?case
  proof (cases "i sdiv 10 = 0")
    case True
    with z d show ?thesis by (simp add: convert_loop.simps [of i] dec_loop.simps [of "nat \<bar>i\<bar>"])
  next
    case False
    then have "nat \<bar>i sdiv 10\<bar> < nat \<bar>i\<bar>" unfolding a using z by (intro div_less_dividend) auto
    from less [OF this] False z d a show ?thesis
      by (simp add: convert_loop.simps [of i] dec_loop.simps [of "nat \<bar>i\<bar>"])
  qed
qed

lemma parse_nat_snoc: "parse_nat (xs @ [c]) = 10 * parse_nat xs + digit_val c"
  by (simp add: parse_nat_def)

lemma parse_dec_loop: "parse_nat (rev (dec_loop n)) = int n"
proof (induction n rule: dec_loop.induct)
  case (1 n)
  have "int n = 10 * int (n div 10) + int (n mod 10)" by presburger
  with 1 show ?case
    by (cases "n div 10 = 0")
      (simp_all add: dec_loop.simps [of n] parse_nat_snoc digit_val_char, simp add: parse_nat_def digit_val_char div_eq_0_iff)
qed

lemma dec_loop_len: "n < 10 ^ Suc k \<Longrightarrow> length (dec_loop n) \<le> Suc k"
proof (induction k arbitrary: n)
  case 0
  then show ?case by (simp add: dec_loop.simps [of n])
next
  case (Suc k)
  then have "n div 10 < 10 ^ Suc k" by (simp add: less_mult_imp_div_less mult.commute)
  with Suc.IH show ?case by (auto simp: dec_loop.simps [of n])
qed

lemma dec_loop_digits: "c \<in> set (dec_loop n) \<Longrightarrow> c \<noteq> CHR ''-''"
proof (induction n rule: dec_loop.induct)
  case (1 n)
  have "digit_val (char_of (48 + n mod 10)) \<noteq> digit_val (CHR ''-'')"
    by (simp add: digit_val_char) (simp add: digit_val_def)
  then have "char_of (48 + n mod 10) \<noteq> CHR ''-''" by metis
  moreover have "c = char_of (48 + n mod 10) \<or> n div 10 \<noteq> 0 \<and> c \<in> set (dec_loop (n div 10))"
    using 1(2) by (simp add: dec_loop.simps [of n] split: if_splits)
  ultimately show ?case using 1(1) by metis
qed

lemma dec_loop_nonempty: "dec_loop n \<noteq> []"
  by (simp add: dec_loop.simps [of n])

section \<open>Buffer operations\<close>

lemma poke_ok:
  assumes "i + length xs \<le> length (data b)"
  shows "poke i xs b = Some (b\<lparr>data := take i (data b) @ xs @ drop (i + length xs) (data b)\<rparr>)"
  using assms by (simp add: poke_def)

lemma write_reversed:
  assumes "lb_ok b" and "cur b + length xs < KSMALLBUFFER"
  shows "\<exists>b'. poke (cur b) (xs @ [z]) b = Some b' \<and> lb_ok (reverse_range (cur b) (cur b + length xs) b') \<and>
     data (reverse_range (cur b) (cur b + length xs) b') =
       take (cur b) (data b) @ rev xs @ z # drop (cur b + length xs + 1) (data b) \<and>
     cur b' = cur b"
proof -
  let ?b = "b\<lparr>data := take (cur b) (data b) @ (xs @ [z]) @ drop (cur b + length (xs @ [z])) (data b)\<rparr>"
  have len: "length (data b) = KSMALLBUFFER" "cur b < KSMALLBUFFER" using assms(1) by (auto simp: lb_ok_def)
  have p: "poke (cur b) (xs @ [z]) b = Some ?b" using assms(2) len by (intro poke_ok) simp
  have "data (reverse_range (cur b) (cur b + length xs) ?b) =
      take (cur b) (data b) @ rev xs @ z # drop (cur b + length xs + 1) (data b)"
    using len assms(2) by (simp add: reverse_range_def)
  with p len assms(2) show ?thesis by (auto simp: lb_ok_def reverse_range_def)
qed

lemma content_append:
  assumes "length (data b) = KSMALLBUFFER" and "cur b = i + length xs" and "data b = ys @ xs @ zs" and "length ys = i"
  shows "content b = ys @ xs"
  using assms by (simp add: content_def)

lemma avail_size: "lb_ok b \<Longrightarrow> nat (avail b mod 2 ^ 64) = KSMALLBUFFER - cur b"
  by (auto simp: avail_def lb_ok_def KSMALLBUFFER_def)

lemma lb_append_ok:
  assumes "lb_ok b"
  shows "\<exists>b'. lb_append buf b = Some b' \<and> lb_ok b' \<and>
     content b' = content b @ (if cur b + length buf < KSMALLBUFFER then buf else [])"
proof (cases "cur b + length buf < KSMALLBUFFER")
  case True
  then have "nat (avail b mod 2 ^ 64) > length buf" using avail_size [OF assms] assms by (simp add: lb_ok_def)
  moreover have "poke (cur b) buf b = Some (b\<lparr>data := take (cur b) (data b) @ buf @ drop (cur b + length buf) (data b)\<rparr>)"
    using True assms by (intro poke_ok) (simp add: lb_ok_def)
  ultimately show ?thesis using True assms by (simp add: lb_append_def lb_add_def lb_ok_def content_def)
next
  case False
  then have "\<not> nat (avail b mod 2 ^ 64) > length buf" using avail_size [OF assms] assms by (simp add: lb_ok_def)
  then show ?thesis using False assms by (simp add: lb_append_def)
qed

lemma int_text_len:
  assumes "\<bar>v\<bar> < 10 ^ 20"
  shows "length (int_text v) \<le> 21"
proof -
  have "nat \<bar>v\<bar> < 10 ^ Suc 19" using assms by (simp add: nat_less_iff)
  from dec_loop_len [OF this] show ?thesis by (cases "v < 0") (simp_all add: int_text_def convert_loop_dec)
qed

lemma formatInteger_ok:
  assumes "lb_ok b" and "\<bar>v\<bar> < 10 ^ 20"
  shows "\<exists>b'. formatInteger v b = Some b' \<and> lb_ok b' \<and>
     content b' = content b @ (if cur b + 32 \<le> KSMALLBUFFER then int_text v else [])"
proof (cases "cur b + 32 \<le> KSMALLBUFFER")
  case True
  let ?xs = "convert_loop v @ (if v < 0 then ''-'' else [])"
  have r: "rev ?xs = int_text v" by (simp add: int_text_def)
  have len: "length ?xs \<le> 21" using int_text_len [OF assms(2)] unfolding r [symmetric] by simp
  then have lt: "cur b + length ?xs < KSMALLBUFFER" using True by linarith
  obtain b1 where b1: "poke (cur b) (?xs @ [CHR 0x00]) b = Some b1"
    "lb_ok (reverse_range (cur b) (cur b + length ?xs) b1)"
    "data (reverse_range (cur b) (cur b + length ?xs) b1) =
       take (cur b) (data b) @ rev ?xs @ CHR 0x00 # drop (cur b + length ?xs + 1) (data b)" "cur b1 = cur b"
    using write_reversed [OF assms(1) lt] by blast
  let ?b = "lb_add (length ?xs) (reverse_range (cur b) (cur b + length ?xs) b1)"
  have av: "avail b \<ge> kMaxNumericSize"
    using True assms(1) by (simp add: avail_def kMaxNumericSize_def lb_ok_def)
  then have run: "formatInteger v b = Some ?b"
    using b1(1,4) by (simp add: formatInteger_def convert_def Let_def)
  have c: "cur ?b = cur b + length ?xs" using b1(4) by (simp add: lb_add_def reverse_range_def)
  have "lb_ok ?b" using b1(2) c lt by (simp add: lb_ok_def lb_add_def)
  moreover have "content ?b = content b @ int_text v"
  proof -
    have "data ?b = content b @ rev ?xs @ CHR 0x00 # drop (cur b + length ?xs + 1) (data b)"
      using b1(3) by (simp add: lb_add_def content_def)
    moreover have "length (content b) = cur b" using assms(1) by (simp add: content_def lb_ok_def)
    ultimately show ?thesis using c r unfolding content_def [of ?b] by simp
  qed
  ultimately show ?thesis using run True by simp
next
  case False
  then have "\<not> avail b \<ge> kMaxNumericSize"
    using assms(1) by (simp add: avail_def kMaxNumericSize_def lb_ok_def)
  with False assms(1) show ?thesis by (simp add: formatInteger_def)
qed

lemma hex_loop_len: "n < 16 ^ Suc k \<Longrightarrow> length (hex_loop n) \<le> Suc k"
proof (induction k arbitrary: n)
  case 0
  then show ?case by (simp add: hex_loop.simps [of n])
next
  case (Suc k)
  then have "n div 16 < 16 ^ Suc k" by (simp add: less_mult_imp_div_less mult.commute)
  with Suc.IH show ?case by (auto simp: hex_loop.simps [of n])
qed

lemma stream_ptr_ok:
  assumes "lb_ok b"
  shows "\<exists>b'. stream_ptr v b = Some b' \<and> lb_ok b' \<and> content b' = content b @
     (if cur b + 32 \<le> KSMALLBUFFER
      then hex_text (unat v) @ [CHR 0x00, data b ! (cur b + length (hex_text (unat v)) + 1)] else [])"
proof (cases "cur b + 32 \<le> KSMALLBUFFER")
  case True
  let ?xs = "hex_loop (unat v)" and ?i = "cur b"
  have ne: "1 \<le> length ?xs" by (simp add: hex_loop.simps [of "unat v"])
  have "unat v < 16 ^ Suc 15" using unsigned_less [of v] by simp
  from hex_loop_len [OF this] have len: "length ?xs \<le> 16" by simp
  let ?h = "b\<lparr>data := take ?i (data b) @ ''0x'' @ drop (?i + length ''0x'') (data b)\<rparr>"
  have ld: "length (data b) = KSMALLBUFFER" using assms by (simp add: lb_ok_def)
  have p0: "poke ?i ''0x'' b = Some ?h" using True ld by (intro poke_ok) simp
  have ok0: "lb_ok ?h" using True assms by (simp add: lb_ok_def)
  have lt: "cur ?h + length ?xs < KSMALLBUFFER" using True len by simp
  obtain b1 where b1: "poke (cur ?h) (?xs @ [CHR 0x00]) ?h = Some b1"
    "lb_ok (reverse_range (cur ?h) (cur ?h + length ?xs) b1)"
    "data (reverse_range (cur ?h) (cur ?h + length ?xs) b1) =
       take (cur ?h) (data ?h) @ rev ?xs @ CHR 0x00 # drop (cur ?h + length ?xs + 1) (data ?h)" "cur b1 = cur ?h"
    using write_reversed [OF ok0 lt] by blast
  let ?b = "lb_add (length ?xs + 2) (reverse_range ?i (?i + length ?xs) b1)"
  have av: "avail b \<ge> kMaxNumericSize"
    using True assms(1) by (simp add: avail_def kMaxNumericSize_def lb_ok_def)
  then have run: "stream_ptr v b = Some ?b"
    using p0 b1(1,4) by (simp add: stream_ptr_def Let_def)
  have c: "cur ?b = ?i + length ?xs + 2" using b1(4) by (simp add: lb_add_def reverse_range_def)
  have "lb_ok ?b" using b1(2) c True len by (simp add: lb_ok_def lb_add_def)
  moreover have "content ?b = content b @ hex_text (unat v) @ [CHR 0x00, data b ! (?i + length ?xs + 1)]"
  proof -
    have "drop (?i + length ?xs + 1) (data ?h) = drop (?i + length ?xs + 1) (data b)"
      using ne ld True by (cases "length ?xs") (simp_all add: ac_simps)
    also have "\<dots> = data b ! (?i + length ?xs + 1) # drop (?i + length ?xs + 2) (data b)"
      using True len ld by (subst Cons_nth_drop_Suc [symmetric]) auto
    finally have "data ?b = content b @ rev ?xs @ CHR 0x00 # data b ! (?i + length ?xs + 1) # drop (?i + length ?xs + 2) (data b)"
      using b1(3) ld True by (simp add: lb_add_def content_def)
    moreover have "length (content b) = ?i" using assms(1) by (simp add: content_def lb_ok_def)
    ultimately show ?thesis using c unfolding content_def [of ?b] by (simp add: hex_text_def)
  qed
  ultimately show ?thesis using run True by (simp add: hex_text_def)
next
  case False
  then have "\<not> avail b \<ge> kMaxNumericSize"
    using assms(1) by (simp add: avail_def kMaxNumericSize_def lb_ok_def)
  with False assms(1) show ?thesis by (simp add: stream_ptr_def)
qed

lemma stream_double_ok:
  assumes "lb_ok b" and "length txt \<le> 31"
  shows "\<exists>b'. stream_double txt b = Some b' \<and> lb_ok b' \<and>
     content b' = content b @ (if cur b + 32 \<le> KSMALLBUFFER then txt else [])"
proof (cases "cur b + 32 \<le> KSMALLBUFFER")
  case True
  have av: "avail b \<ge> kMaxNumericSize"
    using True assms(1) by (simp add: avail_def kMaxNumericSize_def lb_ok_def)
  have "poke (cur b) (txt @ [CHR 0x00]) b =
      Some (b\<lparr>data := take (cur b) (data b) @ (txt @ [CHR 0x00]) @ drop (cur b + length (txt @ [CHR 0x00])) (data b)\<rparr>)"
    using True assms by (intro poke_ok) (simp add: lb_ok_def)
  with av True assms show ?thesis by (simp add: stream_double_def lb_add_def lb_ok_def content_def)
next
  case False
  then have "\<not> avail b \<ge> kMaxNumericSize"
    using assms(1) by (simp add: avail_def kMaxNumericSize_def lb_ok_def)
  with False assms(1) show ?thesis by (simp add: stream_double_def)
qed

section \<open>Properties\<close>

text \<open>The integer types of the stream, the value of such a number and the operator that takes it.\<close>

datatype cint =
    CShort "16 word"
  | CUShort "16 word"
  | CInt "32 word"
  | CUInt "32 word"
  | CLong "64 word"
  | CULong "64 word"
  | CLongLong "64 word"
  | CULongLong "64 word"

fun cint_val :: "cint \<Rightarrow> int" where
  "cint_val (CShort v) = sint v"
| "cint_val (CUShort v) = uint v"
| "cint_val (CInt v) = sint v"
| "cint_val (CUInt v) = uint v"
| "cint_val (CLong v) = sint v"
| "cint_val (CULong v) = uint v"
| "cint_val (CLongLong v) = sint v"
| "cint_val (CULongLong v) = uint v"

fun stream_cint :: "cint \<Rightarrow> Log_Buffer \<Rightarrow> Log_Buffer option" where
  "stream_cint (CShort v) b = stream_short v b"
| "stream_cint (CUShort v) b = stream_ushort v b"
| "stream_cint (CInt v) b = stream_int v b"
| "stream_cint (CUInt v) b = stream_uint v b"
| "stream_cint (CLong v) b = stream_long v b"
| "stream_cint (CULong v) b = stream_ulong v b"
| "stream_cint (CLongLong v) b = stream_long_long v b"
| "stream_cint (CULongLong v) b = stream_ulong_long v b"

lemma word_range:
  fixes v :: "'a :: len word"
  assumes "LENGTH('a) \<le> 64"
  shows "\<bar>sint v\<bar> < 10 ^ 20" "\<bar>uint v\<bar> < 10 ^ 20"
proof -
  have p: "(2 :: int) ^ LENGTH('a) \<le> 2 ^ 64" by (rule power_increasing) (use assms in simp_all)
  have "(2 :: int) ^ (LENGTH('a) - 1) \<le> 2 ^ 64" by (rule power_increasing) (use assms in simp_all)
  with sint_lt [of v] sint_ge [of v] show "\<bar>sint v\<bar> < 10 ^ 20" by (simp add: abs_less_iff)
  have "uint v < 2 ^ LENGTH('a)" by (rule uint_bounded)
  with p have "uint v < 2 ^ 64" by linarith
  then show "\<bar>uint v\<bar> < 10 ^ 20" by simp
qed

text \<open>Widening keeps the value: every operator formats the value of its number.\<close>

lemma stream_cint_formats: "stream_cint v b = formatInteger (cint_val v) b" "\<bar>cint_val v\<bar> < 10 ^ 20"
proof -
  have "sint (scast w :: 32 word) = sint w" "uint (ucast w :: 32 word) = uint w" for w :: "16 word"
    by (simp_all add: sint_up_scast is_up uint_up_ucast)
  then show "stream_cint v b = formatInteger (cint_val v) b"
    by (cases v) (simp_all add: stream_short_def stream_ushort_def stream_int_def stream_uint_def stream_long_def
        stream_ulong_def stream_long_long_def stream_ulong_long_def)
  show "\<bar>cint_val v\<bar> < 10 ^ 20" by (cases v) (simp_all add: word_range [simplified])
qed

text \<open>A sequence of outputs to one stream.\<close>

datatype outp =
    OBool bool
  | OChar char
  | OCstr "string option"
  | OString string
  | OInt cint
  | OPtr u64
  | ODouble string
  | OFloat string

fun stream_out :: "outp \<Rightarrow> Log_Buffer \<Rightarrow> Log_Buffer option" where
  "stream_out (OBool v) b = stream_bool v b"
| "stream_out (OChar v) b = stream_char v b"
| "stream_out (OCstr v) b = stream_cstr v b"
| "stream_out (OString v) b = stream_string v b"
| "stream_out (OInt v) b = stream_cint v b"
| "stream_out (OPtr v) b = stream_ptr v b"
| "stream_out (ODouble v) b = stream_double v b"
| "stream_out (OFloat v) b = stream_float v b"

fun stream_outs :: "outp list \<Rightarrow> Log_Buffer \<Rightarrow> Log_Buffer option" where
  "stream_outs [] b = Some b"
| "stream_outs (x # xs) b = do { b \<leftarrow> stream_out x b; stream_outs xs b }"

fun output_ok :: "outp \<Rightarrow> bool" where
  "output_ok (ODouble txt) \<longleftrightarrow> length txt \<le> 31"
| "output_ok (OFloat txt) \<longleftrightarrow> length txt \<le> 31"
| "output_ok _ \<longleftrightarrow> True"

lemma stream_out_ok:
  assumes "lb_ok b" and "output_ok x"
  shows "\<exists>b' t. stream_out x b = Some b' \<and> lb_ok b' \<and> content b' = content b @ t"
proof -
  have app: "\<exists>b' t. lb_append buf b = Some b' \<and> lb_ok b' \<and> content b' = content b @ t" for buf
    using lb_append_ok [OF assms(1)] by blast
  show ?thesis
  proof (cases x)
    case (OInt v)
    then show ?thesis using formatInteger_ok [OF assms(1) stream_cint_formats(2)] by (auto simp: stream_cint_formats(1))
  next
    case (OCstr v)
    then show ?thesis using app by (cases v) (simp_all add: stream_cstr_def)
  next
    case (OPtr v)
    then show ?thesis using stream_ptr_ok [OF assms(1), of v] by auto
  next
    case (ODouble v)
    then show ?thesis using stream_double_ok [OF assms(1), of v] assms(2) by auto
  next
    case (OFloat v)
    then show ?thesis using stream_double_ok [OF assms(1), of v] assms(2) by (auto simp: stream_float_def)
  qed (use app in \<open>simp_all add: stream_bool_def stream_char_def stream_string_def\<close>)
qed

text \<open>A buffer for the witnesses.\<close>

definition buf0 :: Log_Buffer where
  "buf0 = new_Log_Buffer (replicate 4000 (CHR ''#''))"

lemma buf0_ok: "lb_ok buf0" "cur buf0 = 0"
  by (simp_all add: buf0_def new_Log_Buffer_def lb_ok_def KSMALLBUFFER_def)

text \<open>
  C27. Printing integers: for every value of the eight integer types of the stream, signed or
  unsigned, from 16 to 64 bits and the most negative one included, a stream with 32 free bytes gets the decimal
  numeral of exactly this value, of at most 20 characters and a sign, without writing
  outside the buffer; with less room the number is left out altogether.
\<close>

theorem format_integer_round_trip:
  assumes "lb_ok b"
  shows "\<exists>b'. stream_cint i b = Some b' \<and> lb_ok b' \<and>
     (if cur b + 32 \<le> KSMALLBUFFER then content b' = content b @ int_text (cint_val i) else b' = b) \<and>
     parse_int (int_text (cint_val i)) = cint_val i \<and> length (int_text (cint_val i)) \<le> 21"
proof -
  define v where "v = cint_val i"
  have v: "\<bar>v\<bar> < 10 ^ 20" unfolding v_def by (rule stream_cint_formats(2))
  obtain b' where b': "formatInteger v b = Some b'" "lb_ok b'"
    "content b' = content b @ (if cur b + 32 \<le> KSMALLBUFFER then int_text v else [])"
    using formatInteger_ok [OF assms v] by blast
  have "b' = b" if "\<not> cur b + 32 \<le> KSMALLBUFFER"
    using that b'(1) assms by (simp add: formatInteger_def avail_def kMaxNumericSize_def lb_ok_def)
  moreover have "parse_int (int_text v) = v"
  proof (cases "v < 0")
    case True
    then show ?thesis
      by (simp add: int_text_def parse_int_def convert_loop_dec parse_dec_loop)
  next
    case False
    obtain c cs where c: "rev (dec_loop (nat v)) = c # cs" using dec_loop_nonempty [of "nat v"] by (cases "rev (dec_loop (nat v))") auto
    then have "c \<in> set (dec_loop (nat v))" by (metis list.set_intros(1) set_rev)
    then have "c \<noteq> CHR ''-''" by (rule dec_loop_digits)
    with False c parse_dec_loop [of "nat v"] show ?thesis
      by (simp add: int_text_def parse_int_def convert_loop_dec)
  qed
  ultimately show ?thesis using b' int_text_len [OF v] by (auto simp: stream_cint_formats(1) v_def)
qed

theorem format_integer_round_trip_witness:
  "\<exists>b'. stream_cint (CLong (- 9223372036854775808)) buf0 = Some b' \<and> parse_int (content b') = - 9223372036854775808"
  using format_integer_round_trip [OF buf0_ok(1), of "CLong (- 9223372036854775808)"]
  by (auto simp: buf0_ok KSMALLBUFFER_def content_def)

lemma stream_outs_ok:
  assumes "lb_ok b" and "\<forall>x \<in> set xs. output_ok x"
  shows "\<exists>b' t. stream_outs xs b = Some b' \<and> lb_ok b' \<and> content b' = content b @ t"
  using assms
proof (induction xs arbitrary: b)
  case (Cons x xs)
  then obtain b1 t1 where b1: "stream_out x b = Some b1" "lb_ok b1" "content b1 = content b @ t1"
    using stream_out_ok [of b x] by auto
  with Cons.IH [OF b1(2)] Cons.prems(2) obtain b' t where
    "stream_outs xs b1 = Some b'" "lb_ok b'" "content b' = content b1 @ t" by auto
  with b1 show ?case by auto
qed simp

text \<open>
  C28. Any sequence of outputs to a stream, of every type the stream supports, stays
  inside the buffer: no operator writes beyond the 4000 bytes or moves the position past
  the end, and earlier output is never changed.
\<close>

theorem stream_never_overflows:
  assumes "lb_ok b" and "\<forall>x \<in> set xs. output_ok x"
  shows "\<exists>b' t. stream_outs xs b = Some b' \<and> lb_ok b' \<and> content b' = content b @ t"
  by (rule stream_outs_ok [OF assms])

theorem stream_never_overflows_witness:
  "\<exists>b' t. stream_outs [OCstr None, OInt (CInt 5), OPtr 255, OString (replicate 5000 (CHR ''a''))] buf0 = Some b' \<and> content b' = t"
  using stream_never_overflows [OF buf0_ok(1), of "[OCstr None, OInt (CInt 5), OPtr 255, OString (replicate 5000 (CHR ''a''))]"]
  by auto

text \<open>
  Printing pointers: the prefix \<open>0x\<close> is overwritten by the digits, and the position
  is moved two characters too far, so the output is the digits without prefix followed by
  a NUL byte and one byte of whatever the buffer held before.
\<close>

lemma stream_ptr_garbage:
  assumes "lb_ok b" and "cur b + 32 \<le> KSMALLBUFFER"
  shows "\<exists>b'. stream_ptr v b = Some b' \<and> content b' = content b @ hex_text (unat v) @
     [CHR 0x00, data b ! (cur b + length (hex_text (unat v)) + 1)]"
  using stream_ptr_ok [OF assms(1), of v] assms(2) by auto

end
