(* ===== verification/Async_Logging.thy ===== *)
theory Async_Logging
  imports Log_Stream
begin

text \<open>
  The log files and the asynchronous logger: \<open>AppendFile.cpp\<close>, \<open>LogFile.cpp\<close> and
  \<open>AsyncLogging.cpp\<close>. Any number of threads append lines to buffers under a mutex; the
  log thread takes the full buffers away and writes them to the file.

  A fault is a value: a failed assertion, a null pointer, a thread that locks a mutex it
  already holds, or a loop that does not end. \<open>fwrite_unlocked\<close> answers through a parameter:
  \<open>fw line\<close> is the list of its results while \<open>line\<close> is written.
\<close>

datatype lerr = AssertFail | NullDeref | Deadlock | NoReturn

section \<open>Files\<close>

text \<open>
  An \<open>AppendFile\<close> is the text that it has been given. The constructor does not test whether
  \<open>fopen\<close> has \<open>opened\<close> the file, and hands the null pointer on. \<open>fwrite_unlocked\<close> takes the
  first \<open>x\<close> bytes; \<open>fflush\<close> moves text out of the buffer of the \<open>FILE\<close> and keeps it.
\<close>

definition new_AppendFile :: "bool \<Rightarrow> lerr + string" where
  "new_AppendFile opened = (if opened then Inr [] else Inl NullDeref)"

definition af_write :: "nat \<Rightarrow> string \<Rightarrow> string \<Rightarrow> string" where
  "af_write x line f = f @ take x line"

definition af_flush :: "string \<Rightarrow> string" where
  "af_flush f = f"

lemmas af_simps [simp] = af_write_def af_flush_def

text \<open>
  \<open>AppendFile::append\<close>. The list \<open>os\<close> holds the results of the calls of
  \<open>fwrite_unlocked\<close>, the number of bytes that the call took from the start of \<open>line\<close>;
  \<open>remain\<close> is a \<open>size_t\<close>. The result is \<^term>\<open>None\<close> if the calls in \<open>os\<close> do not end the loop.
\<close>

fun af_loop :: "nat list \<Rightarrow> string \<Rightarrow> u64 \<Rightarrow> string \<Rightarrow> string option" where
  "af_loop os line remain f =
     (if remain = 0 then Some f
      else case os of [] \<Rightarrow> None
      | x # os \<Rightarrow> if x = 0 then Some f else af_loop os line (remain - of_nat x) (af_write x line f))"

declare af_loop.simps [simp del]

definition af_append :: "nat list \<Rightarrow> string \<Rightarrow> string \<Rightarrow> string option" where
  "af_append os line f =
     (case os of [] \<Rightarrow> None
      | n # os \<Rightarrow> af_loop os line (of_nat (length line) - of_nat n) (af_write n line f))"

text \<open>A \<open>LogFile\<close>; \<open>lf_locked\<close> says that the calling thread holds \<open>ptr_mutex_\<close>.\<close>

record logfile =
  lf_file :: string
  lf_count :: int
  lf_every :: int
  lf_locked :: bool

definition new_logfile :: "string \<Rightarrow> int \<Rightarrow> logfile" where
  "new_logfile f every = \<lparr>lf_file = f, lf_count = 0, lf_every = every, lf_locked = False\<rparr>"

definition LogFile_ctor :: "bool \<Rightarrow> int \<Rightarrow> lerr + logfile" where
  "LogFile_ctor opened every = (case new_AppendFile opened of Inl e \<Rightarrow> Inl e | Inr f \<Rightarrow> Inr (new_logfile f every))"

definition lf_lock :: "logfile \<Rightarrow> lerr + logfile" where
  "lf_lock f = (if lf_locked f then Inl Deadlock else Inr (f\<lparr>lf_locked := True\<rparr>))"

definition lf_flush :: "logfile \<Rightarrow> lerr + logfile" where
  "lf_flush f = (case lf_lock f of Inl e \<Rightarrow> Inl e | Inr f \<Rightarrow> Inr (f\<lparr>lf_file := af_flush (lf_file f), lf_locked := False\<rparr>))"

definition lf_append_unlock :: "(string \<Rightarrow> nat list) \<Rightarrow> string \<Rightarrow> logfile \<Rightarrow> lerr + logfile" where
  "lf_append_unlock fw line f =
     (case af_append (fw line) line (lf_file f) of
        None \<Rightarrow> Inl NoReturn
      | Some s \<Rightarrow>
        let f = f\<lparr>lf_file := s\<rparr>;
            f = f\<lparr>lf_count := lf_count f + 1\<rparr> in
        if lf_count f \<ge> lf_every f
        then (case lf_flush f of Inl e \<Rightarrow> Inl e | Inr f \<Rightarrow> Inr (f\<lparr>lf_count := 0\<rparr>))
        else Inr f)"

definition lf_append :: "(string \<Rightarrow> nat list) \<Rightarrow> string \<Rightarrow> logfile \<Rightarrow> lerr + logfile" where
  "lf_append fw line f =
     (case lf_lock f of Inl e \<Rightarrow> Inl e
      | Inr f \<Rightarrow> (case lf_append_unlock fw line f of Inl e \<Rightarrow> Inl e | Inr f \<Rightarrow> Inr (f\<lparr>lf_locked := False\<rparr>)))"

section \<open>The logger\<close>

text \<open>
  The members of \<open>AsyncLogging\<close> and the local variables of \<open>thread_func_\<close>. The log thread
  does not exist yet, has been started, is at the head of its loop, between its critical
  section and the end of the round, or has left the loop.
\<close>

datatype tpc = NoThread | Started | AtLoop | Writing | Ended

record async =
  running :: bool
  Current_Buffer :: "Log_Buffer option"
  Next_Buffer :: "Log_Buffer option"
  Buffers :: "Log_Buffer list"
  newBuffer1 :: "Log_Buffer option"
  newBuffer2 :: "Log_Buffer option"
  Buffer_To_Write :: "Log_Buffer list"
  outf :: logfile
  lpc :: tpc

definition blank :: Log_Buffer where
  "blank = lb_bzero (new_Log_Buffer (replicate KSMALLBUFFER (CHR 0x00)))"

text \<open>The constructor, \<open>start\<close>, and the log thread up to its loop, which opens the file.\<close>

definition async_ctor :: "string \<Rightarrow> lerr + async" where
  "async_ctor basename =
     (if \<not> length basename > 1 then Inl AssertFail
      else Inr \<lparr>running = False, Current_Buffer = Some blank, Next_Buffer = Some blank, Buffers = [],
        newBuffer1 = None, newBuffer2 = None, Buffer_To_Write = [], outf = new_logfile [] 1024, lpc = NoThread\<rparr>)"

definition async_start :: "async \<Rightarrow> async" where
  "async_start a = (let a = a\<lparr>running := True\<rparr> in a\<lparr>lpc := Started\<rparr>)"

definition thread_begin :: "bool \<Rightarrow> async \<Rightarrow> lerr + async" where
  "thread_begin opened a =
     (if \<not> running a then Inl AssertFail
      else case LogFile_ctor opened 1024 of Inl e \<Rightarrow> Inl e
      | Inr f \<Rightarrow> Inr (a\<lparr>outf := f, newBuffer1 := Some blank, newBuffer2 := Some blank,
        Buffer_To_Write := [], lpc := AtLoop\<rparr>))"

text \<open>A logger whose \<open>start\<close> has returned.\<close>

definition new_async :: async where
  "new_async = \<lparr>running = True, Current_Buffer = Some blank, Next_Buffer = Some blank, Buffers = [],
     newBuffer1 = Some blank, newBuffer2 = Some blank, Buffer_To_Write = [],
     outf = new_logfile [] 1024, lpc = AtLoop\<rparr>"

lemma async_start_starts:
  assumes "async_ctor basename = Inr a"
  shows "thread_begin opened (async_start a) = (if opened then Inr new_async else Inl NullDeref)"
  using assms
  by (auto simp: async_ctor_def async_start_def thread_begin_def LogFile_ctor_def new_AppendFile_def new_async_def Let_def
      split: if_splits)

text \<open>\<open>append\<close>, under the mutex.\<close>

definition async_append :: "string \<Rightarrow> async \<Rightarrow> lerr + async" where
  "async_append line a =
     (case Current_Buffer a of None \<Rightarrow> Inl NullDeref
      | Some c \<Rightarrow>
        if avail c > int (length line) then
          (case lb_append line c of None \<Rightarrow> Inl NullDeref
           | Some c \<Rightarrow> Inr (a\<lparr>Current_Buffer := Some c\<rparr>))
        else
          let a = a\<lparr>Buffers := Buffers a @ [c]\<rparr>;
              a = (case Next_Buffer a of
                     Some n \<Rightarrow> a\<lparr>Current_Buffer := Some n, Next_Buffer := None\<rparr>
                   | None \<Rightarrow> a\<lparr>Current_Buffer := Some blank\<rparr>) in
          (case Current_Buffer a of None \<Rightarrow> Inl NullDeref
           | Some c \<Rightarrow> (case lb_append line c of None \<Rightarrow> Inl NullDeref
             | Some c \<Rightarrow> Inr (a\<lparr>Current_Buffer := Some c\<rparr>))))"

text \<open>
  The critical section of the log thread, from the return of \<open>WaitSomeSecond\<close>, with the
  assertions before it.
\<close>

definition empty_buf :: "Log_Buffer option \<Rightarrow> bool" where
  "empty_buf b = (case b of None \<Rightarrow> False | Some b \<Rightarrow> lb_length b = 0)"

definition thread_swap :: "async \<Rightarrow> lerr + async" where
  "thread_swap a =
     (if \<not> empty_buf (newBuffer1 a) \<or> \<not> empty_buf (newBuffer2 a) then Inl AssertFail
      else case Current_Buffer a of None \<Rightarrow> Inl NullDeref
      | Some c \<Rightarrow>
        let a = a\<lparr>Buffers := Buffers a @ [c]\<rparr>;
            a = a\<lparr>Current_Buffer := newBuffer1 a, newBuffer1 := None\<rparr>;
            a = a\<lparr>Buffers := Buffer_To_Write a, Buffer_To_Write := Buffers a\<rparr>;
            a = (if Next_Buffer a = None then a\<lparr>Next_Buffer := newBuffer2 a, newBuffer2 := None\<rparr> else a)
        in Inr (a\<lparr>lpc := Writing\<rparr>))"

fun write_all :: "(string \<Rightarrow> nat list) \<Rightarrow> Log_Buffer list \<Rightarrow> logfile \<Rightarrow> lerr + logfile" where
  "write_all fw [] f = Inr f"
| "write_all fw (b # bs) f =
     (case lf_append fw (take (cur b) (data b)) f of Inl e \<Rightarrow> Inl e | Inr f \<Rightarrow> write_all fw bs f)"

text \<open>Refilling one of the two spare buffers from \<open>Buffer_To_Write\<close>.\<close>

definition refill :: "Log_Buffer option \<Rightarrow> Log_Buffer list \<Rightarrow> lerr + (Log_Buffer option \<times> Log_Buffer list)" where
  "refill nb bs =
     (case nb of Some b \<Rightarrow> Inr (Some b, bs)
      | None \<Rightarrow> if bs = [] then Inl AssertFail else Inr (Some (lb_reset (last bs)), butlast bs))"

text \<open>The rest of the round, outside the mutex.\<close>

definition thread_write :: "(string \<Rightarrow> nat list) \<Rightarrow> async \<Rightarrow> lerr + async" where
  "thread_write fw a =
     (if Buffer_To_Write a = [] then Inl AssertFail
      else
        let bs = (if length (Buffer_To_Write a) > 25 then take 2 (Buffer_To_Write a) else Buffer_To_Write a) in
        case write_all fw bs (outf a) of Inl e \<Rightarrow> Inl e
        | Inr f \<Rightarrow>
          let bs = (if length bs > 2 then take 2 bs else bs) in
          (case refill (newBuffer1 a) bs of Inl e \<Rightarrow> Inl e
           | Inr (n1, bs) \<Rightarrow>
             (case refill (newBuffer2 a) bs of Inl e \<Rightarrow> Inl e
              | Inr (n2, bs) \<Rightarrow>
                (case lf_flush f of Inl e \<Rightarrow> Inl e
                 | Inr f \<Rightarrow> Inr (a\<lparr>newBuffer1 := n1, newBuffer2 := n2, Buffer_To_Write := [],
                     outf := f, lpc := AtLoop\<rparr>)))))"

text \<open>The end of the log thread, \<open>stop\<close> up to the wait for it, and the destructor.\<close>

definition thread_end :: "async \<Rightarrow> lerr + async" where
  "thread_end a = (case lf_flush (outf a) of Inl e \<Rightarrow> Inl e | Inr f \<Rightarrow> Inr (a\<lparr>outf := f, lpc := Ended\<rparr>))"

definition async_stop :: "async \<Rightarrow> async" where
  "async_stop a = a\<lparr>running := False\<rparr>"

definition async_dtor :: "async \<Rightarrow> async" where
  "async_dtor a = (if running a then async_stop a else a)"

text \<open>
  The interleavings. \<open>accepted\<close> is the text of the lines that fit a buffer, in the order
  of the calls; \<open>overrun\<close> says that the log thread has thrown buffers away.
\<close>

record lsys =
  logger :: async
  accepted :: string
  overrun :: bool

datatype lstate = LRun lsys | LFail lerr

definition lresult :: "lerr + async \<Rightarrow> lsys \<Rightarrow> lstate" where
  "lresult r x = (case r of Inl e \<Rightarrow> LFail e | Inr a \<Rightarrow> LRun (x\<lparr>logger := a\<rparr>))"

inductive lstep :: "(string \<Rightarrow> nat list) \<Rightarrow> lstate \<Rightarrow> lstate \<Rightarrow> bool" for fw where
  log: "lstep fw (LRun x) (lresult (async_append line (logger x))
     (x\<lparr>accepted := accepted x @ (if length line < KSMALLBUFFER then line else [])\<rparr>))"
| swap: "lpc (logger x) = AtLoop \<Longrightarrow> running (logger x) \<Longrightarrow> lstep fw (LRun x) (lresult (thread_swap (logger x)) x)"
| write_out: "lpc (logger x) = Writing \<Longrightarrow> lstep fw (LRun x) (lresult (thread_write fw (logger x))
     (x\<lparr>overrun := overrun x \<or> length (Buffer_To_Write (logger x)) > 25\<rparr>))"
| stop: "lstep fw (LRun x) (LRun (x\<lparr>logger := async_stop (logger x)\<rparr>))"
| finish: "lpc (logger x) = AtLoop \<Longrightarrow> \<not> running (logger x) \<Longrightarrow>
     lstep fw (LRun x) (lresult (thread_end (logger x)) x)"

text \<open>Every line is written by one call of \<open>fwrite_unlocked\<close>.\<close>

definition full_writes :: "(string \<Rightarrow> nat list) \<Rightarrow> bool" where
  "full_writes fw \<longleftrightarrow> (\<forall>line. fw line = [length line])"

section \<open>Files: lemmas\<close>

lemma thread_end_unlocked: "\<not> lf_locked (outf a) \<Longrightarrow> thread_end a = Inr (a\<lparr>lpc := Ended\<rparr>)"
  by (simp add: thread_end_def lf_flush_def lf_lock_def)

lemma af_append_full: "af_append (length line # os) line f = Some (f @ line)"
  by (simp add: af_append_def af_loop.simps)

lemma lf_append_eq:
  assumes "\<not> lf_locked f"
  shows "lf_append fw line f = (case af_append (fw line) line (lf_file f) of None \<Rightarrow> Inl NoReturn
     | Some t \<Rightarrow> if lf_count f + 1 \<ge> lf_every f then Inl Deadlock
       else Inr (f\<lparr>lf_file := t, lf_count := lf_count f + 1\<rparr>))"
  using assms by (simp add: lf_append_def lf_lock_def lf_append_unlock_def Let_def lf_flush_def split: option.splits)

lemma lf_append_full:
  assumes "\<not> lf_locked f" and "full_writes fw"
  shows "lf_append fw line f = (if lf_count f + 1 \<ge> lf_every f then Inl Deadlock
     else Inr (f\<lparr>lf_file := lf_file f @ line, lf_count := lf_count f + 1\<rparr>))"
  using assms by (simp add: lf_append_eq full_writes_def af_append_full)

lemma lf_flush_eq: "\<not> lf_locked f \<Longrightarrow> lf_flush f = Inr f"
  by (simp add: lf_flush_def lf_lock_def)

lemma write_all_ok:
  assumes "\<not> lf_locked f"
  shows "(\<exists>e \<in> {Deadlock, NoReturn}. write_all fw bs f = Inl e) \<or>
    (\<exists>f'. write_all fw bs f = Inr f' \<and> (full_writes fw \<longrightarrow> lf_file f' = lf_file f @ concat (map content bs)) \<and> \<not> lf_locked f')"
  using assms
proof (induction bs arbitrary: f)
  case (Cons b bs)
  show ?case
  proof (cases "lf_append fw (content b) f")
    case (Inl e)
    then have "e = Deadlock \<or> e = NoReturn" using Cons.prems by (auto simp: lf_append_eq split: option.splits if_splits)
    with Inl show ?thesis by (auto simp: content_def)
  next
    case (Inr f1)
    then have f1: "\<not> lf_locked f1" using Cons.prems by (auto simp: lf_append_eq split: option.splits if_splits)
    have "full_writes fw \<longrightarrow> lf_file f1 = lf_file f @ content b"
      using Inr Cons.prems by (auto simp: lf_append_full split: if_splits)
    with Cons.IH [OF f1] Inr show ?thesis by (auto simp: content_def)
  qed
qed simp

section \<open>The invariant of the logger\<close>

definition spare :: "Log_Buffer option \<Rightarrow> bool" where
  "spare nb = (case nb of None \<Rightarrow> False | Some b \<Rightarrow> lb_ok b \<and> cur b = 0)"

definition front_ok :: "async \<Rightarrow> bool" where
  "front_ok a \<longleftrightarrow> (\<exists>c. Current_Buffer a = Some c \<and> lb_ok c) \<and> (\<forall>b \<in> set (Buffers a). lb_ok b) \<and>
     (spare (Next_Buffer a) \<or> Next_Buffer a = None \<and> Buffers a \<noteq> [])"

definition back_ok :: "async \<Rightarrow> bool" where
  "back_ok a \<longleftrightarrow> (\<forall>b \<in> set (Buffer_To_Write a). lb_ok b) \<and> \<not> lf_locked (outf a) \<and>
     (case lpc a of
        Writing \<Rightarrow> newBuffer1 a = None \<and> Buffer_To_Write a \<noteq> [] \<and>
          (spare (newBuffer2 a) \<or> newBuffer2 a = None \<and> length (Buffer_To_Write a) \<ge> 2)
      | _ \<Rightarrow> spare (newBuffer1 a) \<and> spare (newBuffer2 a) \<and> Buffer_To_Write a = [])"

text \<open>The text on its way: in the file, taken by the log thread, in the buffers.\<close>

definition in_flight :: "async \<Rightarrow> string" where
  "in_flight a = concat (map content (Buffer_To_Write a)) @ concat (map content (Buffers a)) @
     (case Current_Buffer a of None \<Rightarrow> [] | Some c \<Rightarrow> content c)"

definition linv :: "(string \<Rightarrow> nat list) \<Rightarrow> lsys \<Rightarrow> bool" where
  "linv fw x \<longleftrightarrow> front_ok (logger x) \<and> back_ok (logger x) \<and>
     (full_writes fw \<longrightarrow> \<not> overrun x \<longrightarrow> lf_file (outf (logger x)) @ in_flight (logger x) = accepted x)"

lemma blank_ok: "lb_ok blank" "cur blank = 0" "content blank = []" "spare (Some blank)"
  by (simp_all add: blank_def lb_bzero_def new_Log_Buffer_def lb_ok_def content_def KSMALLBUFFER_def spare_def)

lemma spareE: "spare nb \<Longrightarrow> \<exists>b. nb = Some b \<and> lb_ok b \<and> cur b = 0 \<and> content b = []"
  by (auto simp: spare_def content_def split: option.splits)

lemma lb_append_line:
  assumes "lb_ok c"
  shows "avail c > int (length line) \<Longrightarrow> \<exists>c'. lb_append line c = Some c' \<and> lb_ok c' \<and> content c' = content c @ line"
    "cur c = 0 \<Longrightarrow> \<exists>c'. lb_append line c = Some c' \<and> lb_ok c' \<and>
       content c' = content c @ (if length line < KSMALLBUFFER then line else [])"
proof -
  show "\<exists>c'. lb_append line c = Some c' \<and> lb_ok c' \<and> content c' = content c @ line" if "avail c > int (length line)"
    using lb_append_ok [OF assms, of line] assms that by (auto simp: avail_def lb_ok_def)
  show "\<exists>c'. lb_append line c = Some c' \<and> lb_ok c' \<and>
       content c' = content c @ (if length line < KSMALLBUFFER then line else [])" if "cur c = 0"
    using lb_append_ok [OF assms, of line] that by simp
qed

lemma append_ok:
  assumes f: "front_ok a"
  shows "\<exists>a'. async_append line a = Inr a' \<and> front_ok a' \<and>
     in_flight a' = in_flight a @ (if length line < KSMALLBUFFER then line else []) \<and>
     newBuffer1 a' = newBuffer1 a \<and> newBuffer2 a' = newBuffer2 a \<and> Buffer_To_Write a' = Buffer_To_Write a \<and>
     outf a' = outf a \<and> lpc a' = lpc a"
proof -
  from f obtain c where c: "Current_Buffer a = Some c" "lb_ok c" by (auto simp: front_ok_def)
  show ?thesis
  proof (cases "avail c > int (length line)")
    case True
    then have "length line < KSMALLBUFFER" using c(2) by (simp add: avail_def lb_ok_def)
    moreover obtain c' where "lb_append line c = Some c'" "lb_ok c'" "content c' = content c @ line"
      using lb_append_line(1) [OF c(2) True] by blast
    ultimately show ?thesis using True c f by (auto simp: async_append_def front_ok_def in_flight_def)
  next
    case False
    obtain n where n: "lb_ok n" "cur n = 0" "content n = []"
      "(case Next_Buffer a of Some n \<Rightarrow> n | None \<Rightarrow> blank) = n"
      using f blank_ok spareE unfolding front_ok_def by (cases "Next_Buffer a") auto
    obtain n' where n': "lb_append line n = Some n'" "lb_ok n'"
      "content n' = (if length line < KSMALLBUFFER then line else [])"
      using lb_append_line(2) [OF n(1,2)] n(3) by auto
    show ?thesis
      using False c f n n'
      by (cases "Next_Buffer a") (auto simp: async_append_def front_ok_def in_flight_def Let_def)
  qed
qed

lemma swap_ok:
  assumes f: "front_ok a" and b: "back_ok a" and pc: "lpc a = AtLoop"
  shows "\<exists>a'. thread_swap a = Inr a' \<and> front_ok a' \<and> back_ok a' \<and> in_flight a' = in_flight a \<and> outf a' = outf a"
proof -
  from f obtain c where c: "Current_Buffer a = Some c" "lb_ok c" by (auto simp: front_ok_def)
  from b pc have sp: "spare (newBuffer1 a)" "spare (newBuffer2 a)" "Buffer_To_Write a = []" "\<not> lf_locked (outf a)"
    by (auto simp: back_ok_def)
  from spareE [OF sp(1)] obtain b1 where b1: "newBuffer1 a = Some b1" "lb_ok b1" "cur b1 = 0" "content b1 = []" by blast
  from spareE [OF sp(2)] obtain b2 where b2: "newBuffer2 a = Some b2" "lb_ok b2" "cur b2 = 0" "content b2 = []" by blast
  have len: "Next_Buffer a = None \<Longrightarrow> Suc 0 \<le> length (Buffers a)"
    using f by (cases "Buffers a") (auto simp: front_ok_def spare_def)
  show ?thesis
    using c b1 b2 sp f len
    by (cases "Next_Buffer a")
      (auto simp: thread_swap_def Let_def empty_buf_def lb_length_def front_ok_def back_ok_def in_flight_def spare_def)
qed

lemma refill_ok:
  assumes "spare nb \<or> nb = None \<and> bs \<noteq> []" and "\<forall>b \<in> set bs. lb_ok b"
  shows "\<exists>n bs'. refill nb bs = Inr (n, bs') \<and> spare n \<and> (nb = None \<longrightarrow> bs' = butlast bs) \<and> (nb \<noteq> None \<longrightarrow> bs' = bs)"
proof (cases nb)
  case None
  with assms(1) have "bs \<noteq> []" by (auto simp: spare_def)
  then have "lb_ok (last bs)" using assms(2) by simp
  then have "spare (Some (lb_reset (last bs)))" by (simp add: spare_def lb_ok_def lb_reset_def)
  with None \<open>bs \<noteq> []\<close> show ?thesis by (simp add: refill_def)
next
  case (Some b)
  with assms(1) show ?thesis by (simp add: refill_def)
qed

lemma write_ok:
  assumes f: "front_ok a" and b: "back_ok a" and pc: "lpc a = Writing"
  shows "(\<exists>e \<in> {Deadlock, NoReturn}. thread_write fw a = Inl e) \<or> (\<exists>a'. thread_write fw a = Inr a' \<and> front_ok a' \<and> back_ok a' \<and>
     (full_writes fw \<longrightarrow> length (Buffer_To_Write a) \<le> 25 \<longrightarrow> lf_file (outf a') @ in_flight a' = lf_file (outf a) @ in_flight a))"
proof -
  let ?w = "Buffer_To_Write a"
  let ?bs = "if length ?w > 25 then take 2 ?w else ?w"
  let ?bt = "if length ?bs > 2 then take 2 ?bs else ?bs"
  from b pc have w: "\<forall>b \<in> set ?w. lb_ok b" "\<not> lf_locked (outf a)" "newBuffer1 a = None" "?w \<noteq> []"
    "spare (newBuffer2 a) \<or> newBuffer2 a = None \<and> length ?w \<ge> 2"
    by (auto simp: back_ok_def)
  have bt: "?bt = take 2 ?w" by simp
  have okt: "\<forall>b \<in> set (take 2 ?w). lb_ok b" using w(1) by (meson in_set_takeD)
  have "refill (newBuffer1 a) (take 2 ?w) = Inr (Some (lb_reset (last (take 2 ?w))), butlast (take 2 ?w))"
    using w(3,4) by (simp add: refill_def)
  moreover have s1: "spare (Some (lb_reset (last (take 2 ?w))))"
  proof -
    have "last (take 2 ?w) \<in> set (take 2 ?w)" using w(4) by (intro last_in_set) simp
    then show ?thesis using okt by (auto simp: spare_def lb_ok_def lb_reset_def)
  qed
  moreover obtain n2 bs2 where n2: "refill (newBuffer2 a) (butlast (take 2 ?w)) = Inr (n2, bs2)" "spare n2"
  proof -
    have "spare (newBuffer2 a) \<or> newBuffer2 a = None \<and> butlast (take 2 ?w) \<noteq> []"
      using w(5) by (cases ?w; cases "List.tl ?w") auto
    moreover have "\<forall>b \<in> set (butlast (take 2 ?w)). lb_ok b" using okt by (meson in_set_butlastD)
    ultimately show ?thesis using refill_ok that by blast
  qed
  moreover note write_all_ok [OF w(2), of fw ?bs]
  ultimately show ?thesis
    using w(4) f bt
    by (auto simp: thread_write_def Let_def lf_flush_eq front_ok_def back_ok_def in_flight_def split: if_splits)
qed

definition lsys0 :: lsys where
  "lsys0 = \<lparr>logger = new_async, accepted = [], overrun = False\<rparr>"

lemma linv0: "linv fw lsys0"
  by (simp add: linv_def lsys0_def new_async_def front_ok_def back_ok_def in_flight_def blank_ok new_logfile_def)

definition linv_state :: "(string \<Rightarrow> nat list) \<Rightarrow> lstate \<Rightarrow> bool" where
  "linv_state fw t = (case t of LFail e \<Rightarrow> e = Deadlock \<or> e = NoReturn | LRun x \<Rightarrow> linv fw x)"

lemma lstep_inv: "lstep fw s t \<Longrightarrow> linv_state fw s \<Longrightarrow> linv_state fw t"
proof (induction rule: lstep.induct)
  case (log x line)
  then have x: "linv fw x" by (simp add: linv_state_def)
  then have f: "front_ok (logger x)" by (simp add: linv_def)
  obtain a' where a': "async_append line (logger x) = Inr a'" "front_ok a'"
     "in_flight a' = in_flight (logger x) @ (if length line < KSMALLBUFFER then line else [])"
     "newBuffer1 a' = newBuffer1 (logger x)" "newBuffer2 a' = newBuffer2 (logger x)"
     "Buffer_To_Write a' = Buffer_To_Write (logger x)" "outf a' = outf (logger x)" "lpc a' = lpc (logger x)"
    using append_ok [OF f, of line] by blast
  have "back_ok a'" using x a'(4-8) by (simp add: linv_def back_ok_def split: tpc.splits)
  with a' x show ?case by (auto simp: linv_state_def lresult_def linv_def)
next
  case (swap x)
  then have x: "linv fw x" by (simp add: linv_state_def)
  then show ?case
    using swap_ok [of "logger x"] swap(1) by (auto simp: linv_state_def lresult_def linv_def)
next
  case (write_out x)
  then have x: "linv fw x" by (simp add: linv_state_def)
  then show ?case
    using write_ok [of "logger x" fw] write_out(1) by (auto simp: linv_state_def lresult_def linv_def)
next
  case (stop x)
  then show ?case
    by (simp add: linv_state_def linv_def async_stop_def front_ok_def back_ok_def in_flight_def split: tpc.splits)
next
  case (finish x)
  then have "\<not> lf_locked (outf (logger x))" by (simp add: linv_state_def linv_def back_ok_def)
  with finish show ?case
    by (auto simp: thread_end_unlocked lresult_def linv_state_def linv_def front_ok_def back_ok_def in_flight_def)
qed

interpretation lg: machine "lstep fw" "\<lambda>x. x = LRun lsys0" "linv_state fw" for fw
  by unfold_locales (use linv0 lstep_inv in \<open>auto simp: linv_state_def\<close>)

lemma lreach_inv: "(lstep fw)\<^sup>*\<^sup>* (LRun lsys0) t \<Longrightarrow> linv_state fw t"
  using lg.inv_reach by blast

section \<open>Properties\<close>

lemma fw0: "full_writes (\<lambda>line. [length line])"
  by (simp add: full_writes_def)

text \<open>A logger with one accepted line.\<close>

definition lsys1 :: lsys where
  "lsys1 = lsys0\<lparr>logger := new_async\<lparr>Current_Buffer := lb_append ''abc'' blank\<rparr>, accepted := ''abc''\<rparr>"

lemma append1: "async_append ''abc'' new_async = Inr (new_async\<lparr>Current_Buffer := lb_append ''abc'' blank\<rparr>)"
proof -
  have "avail blank > int (length ''abc'')" using blank_ok by (simp add: avail_def lb_ok_def KSMALLBUFFER_def)
  moreover obtain c where "lb_append ''abc'' blank = Some c"
    using lb_append_ok [OF blank_ok(1)] by blast
  ultimately show ?thesis by (simp add: async_append_def new_async_def)
qed

lemma reach1_log: "(lstep fw)\<^sup>*\<^sup>* (LRun lsys0) (LRun lsys1)"
proof -
  have "lstep fw (LRun lsys0) (LRun lsys1)"
    using lstep.log [of fw lsys0 "''abc''"] append1
    by (simp add: lsys0_def lsys1_def lresult_def KSMALLBUFFER_def)
  then show ?thesis by simp
qed

text \<open>
  C24. However the threads that log and the log thread interleave, no assertion of the
  log thread ever fails and no null buffer is used: the log thread always has its two
  spare buffers again at the head of its loop, because whenever the front end has used up
  the next buffer there are at least two buffers to write. This holds whatever
  \<open>fwrite_unlocked\<close> answers.
\<close>

theorem logger_asserts_hold:
  assumes "(lstep fw)\<^sup>*\<^sup>* (LRun lsys0) t"
  shows "t \<noteq> LFail AssertFail \<and> t \<noteq> LFail NullDeref"
  using lreach_inv [OF assms] by (cases t) (auto simp: linv_state_def)

theorem logger_asserts_hold_witness: "thread_swap (logger lsys1) \<noteq> Inl AssertFail"
proof -
  fix fw :: "string \<Rightarrow> nat list"
  have "lstep fw (LRun lsys1) (lresult (thread_swap (logger lsys1)) lsys1)"
    by (rule lstep.swap) (simp_all add: lsys1_def new_async_def)
  with reach1_log have "(lstep fw)\<^sup>*\<^sup>* (LRun lsys0) (lresult (thread_swap (logger lsys1)) lsys1)"
    by (rule rtranclp.rtrancl_into_rtrancl)
  from logger_asserts_hold [OF this] show ?thesis by (auto simp: lresult_def)
qed

text \<open>
  C23. If \<open>fwrite_unlocked\<close> takes every line in one call, then as long as the log thread
  was never more than 25 buffers behind, nothing is lost,
  duplicated or reordered: the file, the buffers taken by the log thread, the full
  buffers and the current one hold together exactly the accepted lines in the order of
  the calls.
\<close>

theorem logger_no_loss:
  assumes "full_writes fw" and "(lstep fw)\<^sup>*\<^sup>* (LRun lsys0) (LRun x)" and "\<not> overrun x"
  shows "lf_file (outf (logger x)) @ in_flight (logger x) = accepted x"
  using lreach_inv [OF assms(2)] assms(1,3) by (simp add: linv_state_def linv_def)

theorem logger_no_loss_witness: "lf_file (outf (logger lsys1)) @ in_flight (logger lsys1) = ''abc''"
  using logger_no_loss [OF fw0 reach1_log] by (simp add: lsys1_def lsys0_def)

fun lf_appends :: "(string \<Rightarrow> nat list) \<Rightarrow> string list \<Rightarrow> logfile \<Rightarrow> lerr + logfile" where
  "lf_appends fw [] f = Inr f"
| "lf_appends fw (l # ls) f = (case lf_append fw l f of Inl e \<Rightarrow> Inl e | Inr f \<Rightarrow> lf_appends fw ls f)"

lemma lf_appends_count:
  assumes "full_writes fw" and "\<not> lf_locked f" and "lf_count f < lf_every f"
  shows "lf_appends fw ls f = (if lf_count f + int (length ls) < lf_every f
     then Inr (f\<lparr>lf_file := lf_file f @ concat ls, lf_count := lf_count f + int (length ls)\<rparr>) else Inl Deadlock)"
  using assms
proof (induction ls arbitrary: f)
  case (Cons l ls)
  show ?case
  proof (cases "lf_count f + 1 \<ge> lf_every f")
    case True
    with Cons.prems show ?thesis by (simp add: lf_append_full)
  next
    case False
    let ?f = "f\<lparr>lf_file := lf_file f @ l, lf_count := lf_count f + 1\<rparr>"
    from Cons.IH [of ?f] Cons.prems False show ?thesis by (simp add: lf_append_full add.assoc)
  qed
qed simp

text \<open>
  C39. \<open>LogFile\<close> deadlocks on itself: \<open>append\<close> holds the mutex when it calls \<open>flush\<close>, which
  locks it again. With complete writes a new log file takes the lines in order up to one fewer than
  \<open>Every_n_flush\<close>, and the next call never returns.
\<close>

theorem logfile_deadlocks:
  assumes "full_writes fw" and "0 < n"
  shows "lf_appends fw ls (new_logfile s n) = (if int (length ls) < n
     then Inr \<lparr>lf_file = s @ concat ls, lf_count = int (length ls), lf_every = n, lf_locked = False\<rparr>
     else Inl Deadlock)"
  using lf_appends_count [OF assms(1), of "new_logfile s n" ls] assms(2) by (simp add: new_logfile_def)

theorem logfile_deadlocks_witness: "lf_appends (\<lambda>line. [length line]) (replicate 1024 ''x'') (new_logfile [] 1024) = Inl Deadlock"
  using logfile_deadlocks [OF fw0, of 1024 "replicate 1024 ''x''" "[]"] by simp

text \<open>
  \<open>stop\<close> loses text: in any state at the head of the loop with undelivered text, a
  stop followed by the end of the log thread leaves the file as it is, and it is not all
  that was accepted.
\<close>

lemma logger_stop_loses:
  assumes "(lstep fw)\<^sup>*\<^sup>* (LRun lsys0) (LRun x)" "full_writes fw" "\<not> overrun x" and "lpc (logger x) = AtLoop" and "in_flight (logger x) \<noteq> []"
  shows "\<exists>y. (lstep fw)\<^sup>*\<^sup>* (LRun x) (LRun y) \<and> lpc (logger y) = Ended \<and>
     lf_file (outf (logger y)) = lf_file (outf (logger x)) \<and> accepted y \<noteq> lf_file (outf (logger y))"
proof -
  let ?x = "x\<lparr>logger := async_stop (logger x)\<rparr>"
  let ?y = "?x\<lparr>logger := (logger ?x)\<lparr>lpc := Ended\<rparr>\<rparr>"
  have "lstep fw (LRun x) (LRun ?x)" by (rule lstep.stop)
  moreover have "lstep fw (LRun ?x) (LRun ?y)"
  proof -
    have "\<not> lf_locked (outf (logger ?x))"
      using lreach_inv [OF assms(1)] by (simp add: linv_state_def linv_def back_ok_def async_stop_def)
    with lstep.finish [of ?x fw] assms(4) show ?thesis
      by (simp add: thread_end_unlocked lresult_def) (simp add: async_stop_def)
  qed
  ultimately have r: "(lstep fw)\<^sup>*\<^sup>* (LRun x) (LRun ?y)" by simp
  have "lf_file (outf (logger x)) @ in_flight (logger x) = accepted x"
    using lreach_inv [OF assms(1)] assms(2,3) by (simp add: linv_state_def linv_def)
  then have "accepted x \<noteq> lf_file (outf (logger x))" using assms(5) by auto
  with r show ?thesis by (intro exI [of _ ?y]) (simp add: async_stop_def)
qed

lemma af_loop_stuck:
  assumes "\<forall>j \<le> k. r - of_nat (j * length line) \<noteq> (0 :: u64)" and "line \<noteq> []"
  shows "af_loop (replicate k (length line)) line r f = None"
  using assms
proof (induction k arbitrary: r f)
  case 0
  then show ?case by (simp add: af_loop.simps)
next
  case (Suc k)
  have r: "r \<noteq> 0" using Suc.prems(1) by (metis diff_zero le0 mult_0 of_nat_0)
  have "r - of_nat (length line) - of_nat (j * length line) \<noteq> 0" if "j \<le> k" for j
    using Suc.prems(1) [rule_format, of "Suc j"] that by (simp add: algebra_simps)
  then have "af_loop (replicate k (length line)) line (r - of_nat (length line)) (f @ line) = None"
    using Suc.IH Suc.prems(2) by blast
  with r Suc.prems(2) show ?case by (simp add: af_loop.simps [of "_ # _"])
qed

text \<open>
  \<open>AppendFile::append\<close> after a short write: it starts again at the first byte of the
  line and asks for all of it, and its \<open>size_t\<close> counter of remaining bytes wraps below
  zero, so with a file that accepts everything it goes on writing copies of the line: it
  has not returned after any number of further writes that stays below the range of the
  counter.
\<close>

lemma short_write_repeats:
  assumes "0 < n" and "n < length line" and "(k + 1) * length line < 2 ^ 64"
  shows "af_append (n # replicate k (length line)) line f = None"
proof -
  have u: "unat (of_nat x :: u64) = x" if "x < 2 ^ 64" for x using that by (simp add: unsigned_of_nat take_bit_nat_eq_self)
  have "(of_nat (length line) - of_nat n :: u64) - of_nat (j * length line) \<noteq> 0" if "j \<le> k" for j
  proof
    assume "(of_nat (length line) - of_nat n :: u64) - of_nat (j * length line) = 0"
    then have "(of_nat (length line) :: u64) = of_nat (n + j * length line)" by (simp add: algebra_simps)
    moreover have "j * length line \<le> k * length line" using that by (rule mult_le_mono1)
    then have "n + j * length line < length line + k * length line" using assms(2) by (rule add_less_le_mono [rotated])
    then have "n + j * length line < (k + 1) * length line" by simp
    then have "n + j * length line < 2 ^ 64" using assms(3) by (rule less_trans)
    moreover have "length line < 2 ^ 64" using assms(3) by simp
    ultimately have "length line = n + j * length line"
      using u by metis
    with assms(1,2) show False by (cases j) auto
  qed
  then show ?thesis using assms(1,2) by (auto simp: af_append_def intro: af_loop_stuck)
qed

end
