(* ===== verification/Logging_Front.thy ===== *)
theory Logging_Front
  imports Async_Logging
begin

text \<open>
  The front end of the log, \<open>Logging.h\<close> and \<open>Logging.cpp\<close>: a \<open>Logging\<close> object collects one
  line in its stream, and its destructor hands the line to the one \<open>AsyncLogging\<close> of the
  process, which the first line starts.
\<close>

section \<open>Model\<close>

record logging =
  impl_stream :: Log_Buffer
  impl_line :: "32 word"
  impl_basename :: string

text \<open>\<open>formatTime\<close>, for the text that \<open>strftime\<close> writes into \<open>str_t\<close>.\<close>

definition formatTime :: "string \<Rightarrow> logging \<Rightarrow> logging option" where
  "formatTime str_t l = do {
     b \<leftarrow> stream_cstr (Some str_t) (impl_stream l);
     Some (l\<lparr>impl_stream := b\<rparr>)
   }"

definition new_logging :: "string \<Rightarrow> 32 word \<Rightarrow> string \<Rightarrow> string \<Rightarrow> logging option" where
  "new_logging filename line str_t junk =
     formatTime str_t \<lparr>impl_stream = new_Log_Buffer junk, impl_line = line, impl_basename = filename\<rparr>"

definition logging_stream :: "logging \<Rightarrow> Log_Buffer" where
  "logging_stream l = impl_stream l"

text \<open>
  The static variables: the name of the file and the logger of the process, \<^term>\<open>None\<close>
  before \<open>pthread_once\<close> has run \<open>thread_once\<close>. \<open>start\<close> returns after the \<open>Countdown\<close> of the log
  thread; the rest of the thread before its loop touches its own variables only and is
  taken together with it. \<open>opens\<close> says which files \<open>fopen\<close> can open. The call of \<open>append\<close> is
  one step of the logger.
\<close>

record log_static =
  LogFileName :: string
  AsyncLogger :: "async option"

definition log_static0 :: log_static where
  "log_static0 = \<lparr>LogFileName = ''zhujunjie_WebServer.log'', AsyncLogger = None\<rparr>"

definition setLogFileName :: "string \<Rightarrow> log_static \<Rightarrow> log_static" where
  "setLogFileName logfilename g = g\<lparr>LogFileName := logfilename\<rparr>"

definition getLogFileName :: "log_static \<Rightarrow> string" where
  "getLogFileName g = LogFileName g"

definition thread_once :: "(string \<Rightarrow> bool) \<Rightarrow> log_static \<Rightarrow> lerr + async" where
  "thread_once opens g =
     (case async_ctor (getLogFileName g) of Inl e \<Rightarrow> Inl e
      | Inr a \<Rightarrow> thread_begin (opens (getLogFileName g)) (async_start a))"

definition output_line :: "(string \<Rightarrow> bool) \<Rightarrow> string \<Rightarrow> log_static \<Rightarrow> lerr + log_static" where
  "output_line opens msg g =
     (case (case AsyncLogger g of None \<Rightarrow> thread_once opens g | Some a \<Rightarrow> Inr a) of Inl e \<Rightarrow> Inl e
      | Inr a \<Rightarrow> (case async_append msg a of Inl e \<Rightarrow> Inl e | Inr a \<Rightarrow> Inr (g\<lparr>AsyncLogger := Some a\<rparr>)))"

text \<open>The destructor: the text that it passes to \<open>output\<close>.\<close>

definition end_logging :: "logging \<Rightarrow> string option" where
  "end_logging l = do {
     b \<leftarrow> stream_cstr (Some '' -- '') (impl_stream l);
     b \<leftarrow> stream_string (impl_basename l) b;
     b \<leftarrow> stream_char (CHR '':'') b;
     b \<leftarrow> stream_int (impl_line l) b;
     b \<leftarrow> stream_char (CHR 0x0A) b;
     let buf = buffer (logging_stream (l\<lparr>impl_stream := b\<rparr>));
     Some (take (cur buf) (data buf))
   }"

text \<open>A whole statement: construct the object, send \<open>xs\<close> to its stream, destroy it.\<close>

definition log_statement :: "string \<Rightarrow> 32 word \<Rightarrow> string \<Rightarrow> string \<Rightarrow> outp list \<Rightarrow> string option" where
  "log_statement filename line str_t junk xs = do {
     l \<leftarrow> new_logging filename line str_t junk;
     b \<leftarrow> stream_outs xs (logging_stream l);
     end_logging (l\<lparr>impl_stream := b\<rparr>)
   }"

section \<open>Specification\<close>

text \<open>The text that an output stands for.\<close>

fun out_text :: "outp \<Rightarrow> string" where
  "out_text (OBool v) = (if v then ''1'' else ''0'')"
| "out_text (OChar c) = [c]"
| "out_text (OCstr s) = (case s of None \<Rightarrow> ''(null)'' | Some t \<Rightarrow> t)"
| "out_text (OString s) = s"
| "out_text (OInt v) = int_text (cint_val v)"
| "out_text (ODouble t) = t"
| "out_text (OFloat t) = t"
| "out_text (OPtr p) = hex_text (unat p)"

definition line_text :: "string \<Rightarrow> 32 word \<Rightarrow> string \<Rightarrow> outp list \<Rightarrow> string" where
  "line_text filename line str_t xs =
     str_t @ concat (map out_text xs) @ '' -- '' @ filename @ '':'' @ int_text (sint line) @ [CHR 0x0A]"

text \<open>Outputs whose text is right; pointers are not among them.\<close>

fun plain :: "outp \<Rightarrow> bool" where
  "plain (OPtr p) \<longleftrightarrow> False"
| "plain x \<longleftrightarrow> output_ok x"

lemma cur_content: "lb_ok b \<Longrightarrow> length (content b) = cur b"
  by (auto simp: lb_ok_def content_def)

text \<open>One output with enough room: its text is appended.\<close>

lemma append_fits:
  assumes "lb_ok b" and "length (content b) + length t + 32 \<le> KSMALLBUFFER"
  shows "\<exists>b'. lb_append t b = Some b' \<and> lb_ok b' \<and> content b' = content b @ t"
  using lb_append_ok [OF assms(1), of t] assms cur_content [OF assms(1)] by auto

lemma int_fits:
  assumes "lb_ok b" and "length (content b) + 32 \<le> KSMALLBUFFER"
  shows "\<exists>b'. stream_cint v b = Some b' \<and> lb_ok b' \<and> content b' = content b @ int_text (cint_val v)"
  using formatInteger_ok [OF assms(1) stream_cint_formats(2)] assms(2) cur_content [OF assms(1)]
  by (auto simp: stream_cint_formats(1))

lemma stream_out_fits:
  assumes "lb_ok b" and "plain x" and "length (content b) + length (out_text x) + 32 \<le> KSMALLBUFFER"
  shows "\<exists>b'. stream_out x b = Some b' \<and> lb_ok b' \<and> content b' = content b @ out_text x"
proof (cases x)
  case (OInt v)
  then show ?thesis using int_fits [OF assms(1)] assms(2,3) by simp
next
  case (OFloat t)
  then show ?thesis
    using stream_double_ok [OF assms(1), of t] assms cur_content [OF assms(1)] by (auto simp: stream_float_def)
next
  case (ODouble t)
  then show ?thesis
    using stream_double_ok [OF assms(1), of t] assms cur_content [OF assms(1)] by auto
next
  case (OCstr s)
  then show ?thesis using append_fits [OF assms(1)] assms(3) by (cases s) (auto simp: stream_cstr_def)
next
  case (OPtr p)
  with assms(2) show ?thesis by simp
qed (use append_fits [OF assms(1)] assms(3) in \<open>auto simp: stream_bool_def stream_char_def stream_string_def\<close>)

lemma stream_outs_fits:
  assumes "lb_ok b" and "\<forall>x \<in> set xs. plain x"
    and "length (content b) + length (concat (map out_text xs)) + 32 \<le> KSMALLBUFFER"
  shows "\<exists>b'. stream_outs xs b = Some b' \<and> lb_ok b' \<and> content b' = content b @ concat (map out_text xs)"
  using assms
proof (induction xs arbitrary: b)
  case (Cons x xs)
  then obtain b1 where b1: "stream_out x b = Some b1" "lb_ok b1" "content b1 = content b @ out_text x"
    using stream_out_fits [of b x] by auto
  with Cons.IH [of b1] Cons.prems show ?case by simp
qed simp

text \<open>The text that the logger of the process holds, and when it can take a line.\<close>

definition held :: "log_static \<Rightarrow> string" where
  "held g = (case AsyncLogger g of None \<Rightarrow> [] | Some a \<Rightarrow> in_flight a)"

definition log_ready :: "(string \<Rightarrow> bool) \<Rightarrow> log_static \<Rightarrow> bool" where
  "log_ready opens g = (case AsyncLogger g of None \<Rightarrow> length (LogFileName g) > 1 \<and> opens (LogFileName g) | Some a \<Rightarrow> front_ok a)"

lemma new_async_front: "front_ok new_async" "in_flight new_async = []"
  by (simp_all add: front_ok_def new_async_def in_flight_def blank_ok)

lemma thread_once_starts:
  assumes "length (LogFileName g) > 1"
  shows "thread_once opens g = (if opens (LogFileName g) then Inr new_async else Inl NullDeref)"
proof -
  from assms obtain a where "async_ctor (LogFileName g) = Inr a" by (simp add: async_ctor_def)
  with async_start_starts [OF this] show ?thesis by (simp add: thread_once_def getLogFileName_def)
qed

lemma output_line_ok:
  assumes "log_ready opens g" and "length t < KSMALLBUFFER"
  shows "\<exists>g'. output_line opens t g = Inr g' \<and> log_ready opens g' \<and> held g' = held g @ t \<and> AsyncLogger g' \<noteq> None"
proof (cases "AsyncLogger g")
  case None
  with assms show ?thesis
    using append_ok [OF new_async_front(1), of t] new_async_front(2)
    by (auto simp: output_line_def thread_once_starts log_ready_def held_def)
next
  case (Some a)
  with assms show ?thesis using append_ok [of a t] by (auto simp: output_line_def log_ready_def held_def)
qed

text \<open>A statement as one sequence of outputs.\<close>

definition line_outs :: "string \<Rightarrow> 32 word \<Rightarrow> string \<Rightarrow> outp list \<Rightarrow> outp list" where
  "line_outs filename line str_t xs = OCstr (Some str_t) # xs @
     [OCstr (Some '' -- ''), OString filename, OChar (CHR '':''), OInt (CInt line), OChar (CHR 0x0A)]"

lemma stream_outs_append: "stream_outs (xs @ ys) = (\<lambda>b. Option.bind (stream_outs xs b) (stream_outs ys))"
  by (induction xs; rule ext; simp)

lemma log_statement_outs:
  "log_statement filename line str_t junk xs =
     map_option content (stream_outs (line_outs filename line str_t xs) (new_Log_Buffer junk))"
  by (simp add: log_statement_def new_logging_def formatTime_def end_logging_def line_outs_def stream_outs_append
      logging_stream_def buffer_def content_def map_option_bind bind_assoc Let_def option.map_comp comp_def
      map_conv_bind_option)

lemma line_outs_text: "concat (map out_text (line_outs filename line str_t xs)) = line_text filename line str_t xs"
  by (simp add: line_outs_def line_text_def)

section \<open>Properties\<close>

text \<open>
  C29. A log statement, as the commented-out definition of \<open>LOG\<close> makes it from the class \<open>Logging\<close> (the
  macro in force writes to \<open>std::cout\<close> and uses none of this), hands the logger one line of less than 4000
  bytes, and the logger, which the first line of the process starts, accepts this line behind
  everything that it holds. If no output is a pointer, and the line leaves 32 bytes of the stream
  free, it is exactly the time, the outputs in order, and the file name and line number.
\<close>

theorem log_statement_text:
  assumes "length junk = KSMALLBUFFER" and "\<forall>x \<in> set xs. output_ok x"
  shows "\<exists>t. log_statement filename line str_t junk xs = Some t \<and> length t < KSMALLBUFFER \<and>
     ((\<forall>x \<in> set xs. plain x) \<and> length (line_text filename line str_t xs) + 32 \<le> KSMALLBUFFER \<longrightarrow>
        t = line_text filename line str_t xs) \<and>
     (log_ready opens g \<longrightarrow> (\<exists>g'. output_line opens t g = Inr g' \<and> log_ready opens g' \<and> held g' = held g @ t))"
proof -
  let ?xs = "line_outs filename line str_t xs"
  have b0: "lb_ok (new_Log_Buffer junk)" "content (new_Log_Buffer junk) = []"
    using assms(1) by (simp_all add: lb_ok_def new_Log_Buffer_def content_def KSMALLBUFFER_def)
  have "\<forall>x \<in> set ?xs. output_ok x" using assms(2) by (auto simp: line_outs_def)
  from stream_outs_ok [OF b0(1) this] obtain b where b: "stream_outs ?xs (new_Log_Buffer junk) = Some b" "lb_ok b" by blast
  have len: "length (content b) < KSMALLBUFFER" using cur_content [OF b(2)] b(2) by (simp add: lb_ok_def)
  have "content b = line_text filename line str_t xs"
    if "\<forall>x \<in> set xs. plain x" "length (line_text filename line str_t xs) + 32 \<le> KSMALLBUFFER"
  proof -
    have "\<forall>x \<in> set ?xs. plain x" using that(1) by (auto simp: line_outs_def)
    with stream_outs_fits [OF b0(1), of ?xs] b0(2) b(1) that(2) show ?thesis unfolding line_outs_text by auto
  qed
  with b(1) len output_line_ok [of opens g, OF _ len] show ?thesis
    unfolding log_statement_outs by (intro exI [of _ "content b"]) auto
qed

theorem log_statement_text_witness:
  "log_statement ''a.cpp'' 7 ''t '' (replicate 4000 CHR ''#'') [OString ''x='', OInt (CInt 5)] = Some (line_text ''a.cpp'' 7 ''t '' [OString ''x='', OInt (CInt 5)])"
proof -
  have "length (int_text 7) \<le> 21" "length (int_text 5) \<le> 21" by (rule int_text_len, simp)+
  then have "length (line_text ''a.cpp'' 7 ''t '' [OString ''x='', OInt (CInt 5)]) + 32 \<le> KSMALLBUFFER"
    by (simp add: line_text_def KSMALLBUFFER_def)
  then show ?thesis
    using log_statement_text [of "replicate 4000 CHR ''#''" "[OString ''x='', OInt (CInt 5)]" "''a.cpp''" 7 "''t ''"]
    by (auto simp: KSMALLBUFFER_def)
qed

end
