(* ===== verification/Threads.thy ===== *)
theory Threads
  imports Log_Stream
begin

text \<open>
  The threads under the logger: \<open>Mutex.cpp\<close>, \<open>Condition.cpp\<close>, \<open>CountDownLatch.cpp\<close>,
  \<open>Thread.cpp\<close> and \<open>CurrentThread.cpp\<close>. \<open>pthread\<close> mutexes and conditions are modelled by their documented
  behaviour: a mutex has at most one owner, a wait releases it and takes it again before
  it returns, a wait may return for no reason. Threads are numbered, and one step is one
  access to shared memory or one call of \<open>pthread\<close>.
\<close>

section \<open>Mutexes\<close>

text \<open>\<open>mx_owner\<close> is the thread that holds \<open>mutex_\<close>.\<close>

record mutex =
  mx_owner :: "nat option"
  isLock :: bool

definition new_mutex :: mutex where
  "new_mutex = \<lparr>mx_owner = None, isLock = False\<rparr>"

definition mutex_lock :: "nat \<Rightarrow> mutex \<Rightarrow> mutex option" where
  "mutex_lock t m = (if mx_owner m = None then Some (m\<lparr>mx_owner := Some t\<rparr>) else None)"

definition mutex_unlock :: "mutex \<Rightarrow> mutex" where
  "mutex_unlock m = m\<lparr>mx_owner := None\<rparr>"

definition set_isLock :: "bool \<Rightarrow> mutex \<Rightarrow> mutex" where
  "set_isLock v m = m\<lparr>isLock := v\<rparr>"

text \<open>
  The whole operations, which are two steps each: another thread may run between them.
  \<^term>\<open>None\<close> is a caller of \<open>Lock\<close> that still waits, and the failed assertion of the destructor.
\<close>

definition Lock :: "nat \<Rightarrow> mutex \<Rightarrow> mutex option" where
  "Lock t m = (case mutex_lock t m of None \<Rightarrow> None | Some m \<Rightarrow> Some (set_isLock True m))"

definition UnLock :: "mutex \<Rightarrow> mutex" where
  "UnLock m = set_isLock False (mutex_unlock m)"

definition mutex_dtor :: "mutex \<Rightarrow> unit option" where
  "mutex_dtor m = (if isLock m then None else Some ())"

text \<open>The scope of a \<open>MutexLockGuard\<close>: its constructor, the statements of the scope, its destructor.\<close>

definition guarded :: "nat \<Rightarrow> (mutex \<Rightarrow> 'a \<times> mutex) \<Rightarrow> mutex \<Rightarrow> ('a \<times> mutex) option" where
  "guarded t f m =
     (case Lock t m of None \<Rightarrow> None
      | Some m \<Rightarrow> let (x, m) = f m in Some (x, UnLock m))"

text \<open>
  Where a thread is: outside; in \<open>Lock\<close> after \<open>pthread_mutex_lock\<close>; inside its critical
  section; in \<open>UnLock\<close> after \<open>pthread_mutex_unlock\<close>; asleep in \<open>Wait\<close>, and back from
  \<open>pthread_cond_wait\<close> there; asleep in \<open>WaitSomeSecond\<close>.
\<close>

datatype mxpc = Out | Locked | Inside | Unlocked | Sleeping | Back | SleepingTimed

datatype mxsys = Mx mutex "nat \<Rightarrow> mxpc" | WaitAssertFails

inductive mx_step :: "mxsys \<Rightarrow> mxsys \<Rightarrow> bool" where
  lock: "pc t = Out \<Longrightarrow> mutex_lock t m = Some m' \<Longrightarrow> mx_step (Mx m pc) (Mx m' (pc(t := Locked)))"
| lock_flag: "pc t = Locked \<Longrightarrow> mx_step (Mx m pc) (Mx (set_isLock True m) (pc(t := Inside)))"
| unlock: "pc t = Inside \<Longrightarrow> mx_step (Mx m pc) (Mx (mutex_unlock m) (pc(t := Unlocked)))"
| unlock_flag: "pc t = Unlocked \<Longrightarrow> mx_step (Mx m pc) (Mx (set_isLock False m) (pc(t := Out)))"
| wait_sleep: "pc t = Inside \<Longrightarrow> isLock m \<Longrightarrow> mx_step (Mx m pc) (Mx (mutex_unlock m) (pc(t := Sleeping)))"
| wait_assert: "pc t = Inside \<Longrightarrow> \<not> isLock m \<Longrightarrow> mx_step (Mx m pc) WaitAssertFails"
| wait_back: "pc t = Sleeping \<Longrightarrow> mutex_lock t m = Some m' \<Longrightarrow> mx_step (Mx m pc) (Mx m' (pc(t := Back)))"
| wait_flag: "pc t = Back \<Longrightarrow> mx_step (Mx m pc) (Mx (set_isLock True m) (pc(t := Inside)))"
| timed_sleep: "pc t = Inside \<Longrightarrow> mx_step (Mx m pc) (Mx (mutex_unlock m) (pc(t := SleepingTimed)))"
| timed_back: "pc t = SleepingTimed \<Longrightarrow> mutex_lock t m = Some m' \<Longrightarrow> mx_step (Mx m pc) (Mx m' (pc(t := Inside)))"

definition holds :: "mxpc \<Rightarrow> bool" where
  "holds p \<longleftrightarrow> p = Locked \<or> p = Inside \<or> p = Back"

definition uses :: "mxpc \<Rightarrow> bool" where
  "uses p \<longleftrightarrow> p \<noteq> Out \<and> p \<noteq> Locked"

text \<open>
  The owner is the thread that holds the mutex; the flag is set only while some thread
  that has set it has not cleared it yet.
\<close>

definition mx_ok :: "mxsys \<Rightarrow> bool" where
  "mx_ok x = (case x of
     Mx m pc \<Rightarrow> (\<forall>t. holds (pc t) \<longleftrightarrow> mx_owner m = Some t) \<and> (isLock m \<longrightarrow> (\<exists>t. uses (pc t)))
   | WaitAssertFails \<Rightarrow> True)"

lemma holds_simps [simp]:
  "holds Locked" "holds Inside" "holds Back" "\<not> holds Out" "\<not> holds Unlocked" "\<not> holds Sleeping"
  "\<not> holds SleepingTimed"
  by (simp_all add: holds_def)

lemma uses_simps [simp]:
  "\<not> uses Out" "\<not> uses Locked" "uses Inside" "uses Unlocked" "uses Sleeping" "uses Back" "uses SleepingTimed"
  by (simp_all add: uses_def)

lemma mx_release:
  assumes "mx_ok (Mx m pc)" and "holds (pc t)" and "\<not> holds k" and "uses k"
  shows "mx_ok (Mx (mutex_unlock m) (pc(t := k)))"
proof -
  have "mx_owner m = Some t" using assms(1,2) by (simp add: mx_ok_def)
  with assms show ?thesis by (auto simp: mx_ok_def mutex_unlock_def)
qed

lemma mx_acquire:
  assumes "mx_ok (Mx m pc)" and "mutex_lock t m = Some m'" and "holds k" and "uses (pc t) \<Longrightarrow> uses k"
  shows "mx_ok (Mx m' (pc(t := k)))"
proof -
  have u: "\<exists>a. uses ((pc(t := k)) a)" if "uses (pc b)" for b
    using that assms(4) by (cases "b = t") (auto intro: exI [of _ b])
  have "\<exists>b. uses (pc b)" if "isLock m'"
    using that assms(1,2) by (auto simp: mx_ok_def mutex_lock_def split: if_splits)
  then have "isLock m' \<longrightarrow> (\<exists>a. uses ((pc(t := k)) a))" using u by blast
  moreover have "holds ((pc(t := k)) a) \<longleftrightarrow> mx_owner m' = Some a" for a
    using assms(1-3) by (auto simp: mx_ok_def mutex_lock_def split: if_splits)
  ultimately show ?thesis unfolding mx_ok_def by simp
qed

lemma mx_keep:
  assumes "mx_ok (Mx m pc)" and "holds k = holds (pc t)" and "v \<Longrightarrow> uses k"
  shows "mx_ok (Mx (set_isLock v m) (pc(t := k)))"
  using assms by (auto simp: mx_ok_def set_isLock_def)

lemma mx_step_ok: "mx_step x y \<Longrightarrow> mx_ok x \<Longrightarrow> mx_ok y"
proof (induction rule: mx_step.induct)
  case (wait_assert pc t m)
  then show ?case by (simp add: mx_ok_def)
qed (auto intro: mx_release mx_acquire mx_keep)

text \<open>The whole operations are runs of the steps in which no other thread takes part.\<close>

lemma Lock_steps:
  assumes "pc t = Out" and "Lock t m = Some m'"
  shows "mx_step\<^sup>*\<^sup>* (Mx m pc) (Mx m' (pc(t := Inside)))"
proof -
  obtain m1 where m1: "mutex_lock t m = Some m1" "m' = set_isLock True m1"
    using assms(2) by (auto simp: Lock_def split: option.splits)
  have "mx_step (Mx m pc) (Mx m1 (pc(t := Locked)))" using assms(1) m1(1) by (rule mx_step.lock)
  moreover have "mx_step (Mx m1 (pc(t := Locked))) (Mx m' (pc(t := Inside)))"
    using mx_step.lock_flag [of "pc(t := Locked)" t m1] by (simp add: m1)
  ultimately show ?thesis by (meson converse_rtranclp_into_rtranclp r_into_rtranclp)
qed

lemma UnLock_steps:
  assumes "pc t = Inside"
  shows "mx_step\<^sup>*\<^sup>* (Mx m pc) (Mx (UnLock m) (pc(t := Out)))"
proof -
  have "mx_step (Mx m pc) (Mx (mutex_unlock m) (pc(t := Unlocked)))" using assms by (rule mx_step.unlock)
  moreover have "mx_step (Mx (mutex_unlock m) (pc(t := Unlocked))) (Mx (UnLock m) (pc(t := Out)))"
    using mx_step.unlock_flag [of "pc(t := Unlocked)" t "mutex_unlock m"] by (simp add: UnLock_def)
  ultimately show ?thesis by (meson converse_rtranclp_into_rtranclp r_into_rtranclp)
qed

text \<open>A guard on a free mutex enters, leaves it free and clean, and the mutex may then be destroyed.\<close>

lemma guarded_frees:
  assumes "mx_owner m = None" and "\<And>m. snd (f m) = m"
  shows "\<exists>m'. guarded t f m = Some (fst (f (m\<lparr>mx_owner := Some t, isLock := True\<rparr>)), m') \<and>
     mx_owner m' = None \<and> mutex_dtor m' = Some ()"
  using assms(1) assms(2) [of "m\<lparr>mx_owner := Some t, isLock := True\<rparr>"]
  by (intro exI [of _ "m\<lparr>mx_owner := None, isLock := False\<rparr>"])
    (auto simp: guarded_def Lock_def mutex_lock_def set_isLock_def UnLock_def mutex_unlock_def mutex_dtor_def
      split: prod.splits)

interpretation mx: machine mx_step "\<lambda>x. x = Mx new_mutex (\<lambda>_. Out)" mx_ok
  by unfold_locales (use mx_step_ok in \<open>auto simp: mx_ok_def new_mutex_def\<close>)

section \<open>Latches\<close>

text \<open>
  A latch; \<open>l_asleep\<close> are the threads asleep on \<open>cond_\<close> and not yet woken. The critical
  sections of \<open>wait\<close> and \<open>Countdown\<close> are atomic, being under the mutex.
\<close>

record latch =
  l_count :: int
  l_asleep :: "nat set"

definition new_latch :: "int \<Rightarrow> latch" where
  "new_latch n = \<lparr>l_count = n, l_asleep = {}\<rparr>"

text \<open>\<open>wait\<close> by the thread \<open>t\<close>, from the call or after a wake-up, up to its return or next sleep.\<close>

definition latch_wait :: "nat \<Rightarrow> latch \<Rightarrow> bool \<times> latch" where
  "latch_wait t l =
     (if l_count l > 0 then (False, l\<lparr>l_asleep := insert t (l_asleep l)\<rparr>)
      else (True, l\<lparr>l_asleep := l_asleep l - {t}\<rparr>))"

definition Countdown :: "latch \<Rightarrow> latch" where
  "Countdown l =
     (let l = l\<lparr>l_count := l_count l - 1\<rparr> in
      if l_count l = 0 then l\<lparr>l_asleep := {}\<rparr> else l)"

definition getCount :: "latch \<Rightarrow> int" where
  "getCount l = l_count l"

definition latch_ok :: "latch \<Rightarrow> bool" where
  "latch_ok l \<longleftrightarrow> l_count l \<le> 0 \<longrightarrow> l_asleep l = {}"

lemma latch_ok_ops:
  assumes "latch_ok l"
  shows "latch_ok (Countdown l)" "latch_ok (snd (latch_wait t l))"
  using assms by (auto simp: latch_ok_def Countdown_def latch_wait_def Let_def)

section \<open>Threads\<close>

text \<open>
  A \<open>Thread\<close> and the starting thread inside \<open>start\<close>; \<open>child\<close> is the new thread in
  \<open>run_in_thread\<close>: before it writes \<open>tid_\<close>, before \<open>Countdown\<close>, and after.
\<close>

datatype child = NoChild | Created | TidWritten | Counted

datatype parent = NotStarted | InLatch | Returned | CreateFailed

record thr =
  Thread_name :: string
  th_start :: bool
  th_join :: bool
  th_tid :: int
  th_L :: latch
  th_child :: child
  th_parent :: parent

definition new_thread :: "string \<Rightarrow> thr" where
  "new_thread name = \<lparr>Thread_name = (if name = [] then ''Thread'' else name), th_start = False, th_join = False, th_tid = 0, th_L = new_latch 1,
     th_child = NoChild, th_parent = NotStarted\<rparr>"

text \<open>The steps of \<open>start\<close>; \<open>created\<close> is whether \<open>pthread_create\<close> succeeds. A failed assertion is \<^term>\<open>None\<close>.\<close>

definition thread_start :: "bool \<Rightarrow> thr \<Rightarrow> thr option" where
  "thread_start created x =
     (if th_start x then None
      else let x = x\<lparr>th_start := True\<rparr> in
        if \<not> created then Some (x\<lparr>th_start := False, th_parent := CreateFailed\<rparr>)
        else Some (x\<lparr>th_child := Created, th_parent := InLatch\<rparr>))"

definition thread_start_wait :: "nat \<Rightarrow> thr \<Rightarrow> thr option" where
  "thread_start_wait t x =
     (let (ret, l) = latch_wait t (th_L x); x = x\<lparr>th_L := l\<rparr> in
      if \<not> ret then Some x
      else if \<not> th_tid x > 0 then None
      else Some (x\<lparr>th_parent := Returned\<rparr>))"

definition write_tid :: "int \<Rightarrow> thr \<Rightarrow> thr" where
  "write_tid tid x = x\<lparr>th_tid := tid, th_child := TidWritten\<rparr>"

definition child_countdown :: "thr \<Rightarrow> thr" where
  "child_countdown x = x\<lparr>th_L := Countdown (th_L x), th_child := Counted\<rparr>"

definition thread_join :: "thr \<Rightarrow> thr option" where
  "thread_join x = (if \<not> th_start x \<or> th_join x then None else Some (x\<lparr>th_join := True\<rparr>))"

text \<open>The destructor: whether it detaches the thread.\<close>

definition thread_dtor :: "thr \<Rightarrow> bool" where
  "thread_dtor x \<longleftrightarrow> th_start x \<and> \<not> th_join x"

definition is_start :: "thr \<Rightarrow> bool" where
  "is_start x = th_start x"

definition get_tid :: "thr \<Rightarrow> int" where
  "get_tid x = th_tid x"

text \<open>
  A started thread is given back to the system exactly once: by the first \<open>join\<close>, a
  second one being an assertion failure, or else by the destructor.
\<close>

lemma joined_or_detached:
  assumes "is_start x"
  shows "thread_join x = None \<longleftrightarrow> \<not> thread_dtor x"
    and "thread_join x = Some y \<Longrightarrow> thread_join y = None \<and> \<not> thread_dtor y"
  using assms by (auto simp: thread_join_def thread_dtor_def is_start_def split: if_splits)

lemma unstarted_not_joined:
  assumes "thread_start False (new_thread n) = Some x"
  shows "thread_join x = None" "\<not> thread_dtor x" "thread_start True x \<noteq> None"
  using assms by (auto simp: thread_start_def new_thread_def thread_join_def thread_dtor_def Let_def)

text \<open>Both threads, with \<open>p\<close> the number of the starting one and \<open>tid\<close> the result of \<open>gettid\<close>.\<close>

inductive th_step :: "nat \<Rightarrow> int \<Rightarrow> thr option \<Rightarrow> thr option \<Rightarrow> bool" for p tid where
  start: "th_parent x = NotStarted \<Longrightarrow> th_step p tid (Some x) (thread_start created x)"
| wait: "th_parent x = InLatch \<Longrightarrow> p \<notin> l_asleep (th_L x) \<Longrightarrow> th_step p tid (Some x) (thread_start_wait p x)"
| spurious: "th_parent x = InLatch \<Longrightarrow> p \<in> l_asleep (th_L x) \<Longrightarrow> th_step p tid (Some x) (thread_start_wait p x)"
| tid: "th_child x = Created \<Longrightarrow> th_step p tid (Some x) (Some (write_tid tid x))"
| count: "th_child x = TidWritten \<Longrightarrow> th_step p tid (Some x) (Some (child_countdown x))"

definition th_ok :: "int \<Rightarrow> thr option \<Rightarrow> bool" where
  "th_ok tid r = (case r of None \<Rightarrow> False | Some x \<Rightarrow>
     latch_ok (th_L x) \<and> l_count (th_L x) = (if th_child x = Counted then 0 else 1) \<and>
     (th_child x = TidWritten \<or> th_child x = Counted \<longrightarrow> th_tid x = tid) \<and>
     (th_child x = NoChild \<longleftrightarrow> th_parent x = NotStarted \<or> th_parent x = CreateFailed) \<and>
     (th_parent x = NotStarted \<longrightarrow> \<not> th_start x) \<and>
     (th_parent x = Returned \<longrightarrow> th_child x = Counted))"

lemma th_step_ok:
  assumes "th_step p tid x y" and "0 < tid" and "th_ok tid x"
  shows "th_ok tid y"
  using assms
proof (induction rule: th_step.induct)
  case (start x created)
  then show ?case by (cases created) (auto simp: th_ok_def thread_start_def Let_def)
next
  case (wait x)
  then show ?case
    by (cases "th_child x") (auto simp: th_ok_def thread_start_wait_def latch_wait_def latch_ok_def)
next
  case (spurious x)
  then show ?case
    by (cases "th_child x") (auto simp: th_ok_def thread_start_wait_def latch_wait_def latch_ok_def)
next
  case (tid x)
  then show ?case by (auto simp: th_ok_def write_tid_def)
next
  case (count x)
  then show ?case by (auto simp: th_ok_def child_countdown_def Countdown_def Let_def latch_ok_def)
qed

interpretation th: machine "th_step p tid" "\<lambda>x. 0 < tid \<and> (\<exists>n. x = Some (new_thread n))" "\<lambda>x. 0 < tid \<and> th_ok tid x" for p tid
  by unfold_locales (use th_step_ok in \<open>auto simp: th_ok_def new_thread_def new_latch_def latch_ok_def\<close>)

section \<open>The current thread\<close>

text \<open>
  The thread-local variables of \<open>CurrentThread\<close>; \<open>t_str_tid\<close> is the text before the
  terminating NUL. \<open>snprintf\<close> into a buffer of \<open>n\<close> bytes keeps \<open>n - 1\<close> characters.
\<close>

record current =
  t_cache_tid :: int
  t_str_tid :: string
  t_thread_name :: string

definition new_current :: current where
  "new_current = \<lparr>t_cache_tid = 0, t_str_tid = [], t_thread_name = ''default''\<rparr>"

definition pad5 :: "string \<Rightarrow> string" where
  "pad5 xs = replicate (5 - length xs) (CHR '' '') @ xs"

definition cache :: "int \<Rightarrow> current \<Rightarrow> int \<times> current" where
  "cache gettid c =
     (let c = c\<lparr>t_cache_tid := gettid\<rparr>;
          c = c\<lparr>t_str_tid := take (4 - 1) (pad5 (int_text (t_cache_tid c)) @ '' '')\<rparr>
      in (t_cache_tid c, c))"

definition current_tid :: "current \<Rightarrow> int" where
  "current_tid c = t_cache_tid c"

definition str_tid :: "current \<Rightarrow> string" where
  "str_tid c = t_str_tid c"

definition thread_name :: "current \<Rightarrow> string" where
  "thread_name c = t_thread_name c"

text \<open>
  What \<open>start\<close> hands to the new thread: the function, which sees the variables of its
  thread and changes a state of its own, the name, and the \<open>Thread\<close> itself, for its
  \<open>tid_\<close> and \<open>L_\<close>.
\<close>

record 's Thread_Data =
  td_func :: "current \<Rightarrow> 's \<Rightarrow> 's"
  td_name :: string
  td_thread :: thr

definition new_Thread_Data :: "(current \<Rightarrow> 's \<Rightarrow> 's) \<Rightarrow> thr \<Rightarrow> 's Thread_Data" where
  "new_Thread_Data func x = \<lparr>td_func = func, td_name = Thread_name x, td_thread = x\<rparr>"

definition run_in_thread :: "int \<Rightarrow> 's Thread_Data \<Rightarrow> current \<Rightarrow> 's \<Rightarrow> thr \<times> current \<times> 's" where
  "run_in_thread gettid d c s =
     (let (tid, c) = cache gettid c;
          x = write_tid tid (td_thread d);
          x = child_countdown x;
          c = c\<lparr>t_thread_name := if td_name d = [] then ''Thread'' else td_name d\<rparr>;
          s = td_func d c s;
          c = c\<lparr>t_thread_name := ''Finish''\<rparr>
      in (x, c, s))"

text \<open>\<open>startfunc\<close>: the data is deleted when the function has returned.\<close>

definition startfunc :: "int \<Rightarrow> 's Thread_Data \<Rightarrow> current \<Rightarrow> 's \<Rightarrow> thr \<times> current \<times> 's \<times> 's Thread_Data option" where
  "startfunc gettid d c s = (let (x, c, s) = run_in_thread gettid d c s in (x, c, s, None))"

text \<open>The text of the id is cut to three characters, so it does not determine the id.\<close>

lemma cache_cuts:
  assumes "cache tid c = (r, c')"
  shows "r = tid" "t_cache_tid c' = tid" "length (t_str_tid c') = 3"
  using assms by (auto simp: cache_def pad5_def Let_def)

lemma cache_ambiguous: "t_str_tid (snd (cache 12345 c)) = t_str_tid (snd (cache 12399 c))"
proof -
  have "dec_loop 123 = ''321''"
    by (simp add: dec_loop.simps [of 123] dec_loop.simps [of 12] dec_loop.simps [of "Suc 0"] char_of_def bit_Suc_0_iff)
  then have "dec_loop 12345 = ''54321''" "dec_loop 12399 = ''99321''"
    by (simp_all add: dec_loop.simps [of 12345] dec_loop.simps [of 1234] dec_loop.simps [of 12399]
        dec_loop.simps [of 1239] char_of_def bit_Suc_0_iff)
  then show ?thesis by (simp add: cache_def pad5_def int_text_def convert_loop_dec)
qed

text \<open>
  The function runs once, after the hand-over of the id, with the id and the name of the
  thread already set.
\<close>

lemma startfunc_runs:
  assumes "th_ok t (Some x)" and "0 < t" and "th_child x = Created" and "Thread_name x \<noteq> []"
    and "startfunc t (new_Thread_Data f x) c s = (y, d, s', rest)"
  shows "(th_step p t)\<^sup>*\<^sup>* (Some x) (Some y)" "th_ok t (Some y)" "get_tid y = t" "thread_name d = ''Finish''" "rest = None"
    "\<exists>e. s' = f e s \<and> current_tid e = t \<and> thread_name e = Thread_name x"
proof -
  have y: "y = child_countdown (write_tid t x)"
    using assms(5) by (auto simp: startfunc_def run_in_thread_def cache_def new_Thread_Data_def Let_def)
  have st: "th_step p t (Some x) (Some (write_tid t x))" by (rule th_step.tid) (rule assms(3))
  have st2: "th_step p t (Some (write_tid t x)) (Some y)"
    unfolding y by (rule th_step.count) (simp add: write_tid_def)
  with st show "(th_step p t)\<^sup>*\<^sup>* (Some x) (Some y)" by (meson converse_rtranclp_into_rtranclp r_into_rtranclp)
  show "th_ok t (Some y)" using th_step_ok [OF st assms(2,1)] th_step_ok [OF st2 assms(2)] by blast
  show "get_tid y = t" by (simp add: y get_tid_def child_countdown_def write_tid_def)
  show "thread_name d = ''Finish''" "rest = None" "\<exists>e. s' = f e s \<and> current_tid e = t \<and> thread_name e = Thread_name x"
    using assms(4,5)
    by (auto simp: startfunc_def run_in_thread_def cache_def new_Thread_Data_def current_tid_def thread_name_def Let_def
        intro!: exI [of _ "c\<lparr>t_cache_tid := t, t_str_tid := take 3 (pad5 (int_text t) @ '' ''), t_thread_name := Thread_name x\<rparr>"])
qed

section \<open>Properties\<close>

text \<open>
  C36. \<open>Mutex\<close> excludes: in every reachable state at most one thread is between \<open>Lock\<close>
  and \<open>UnLock\<close>. But its flag \<open>isLock_\<close> is cleared after the mutex has been released, so it
  can be false while a thread holds the mutex, and the assertion at the head of
  \<open>Condition::Wait\<close> can fail in a thread that does hold it. The assertion of the destructor
  cannot fail once every thread is outside.
\<close>

theorem mutex_flag_race:
  "(\<forall>m pc t u. mx_step\<^sup>*\<^sup>* (Mx new_mutex (\<lambda>_. Out)) (Mx m pc) \<longrightarrow> holds (pc t) \<longrightarrow> holds (pc u) \<longrightarrow> t = u) \<and>
   (\<forall>m pc. mx_step\<^sup>*\<^sup>* (Mx new_mutex (\<lambda>_. Out)) (Mx m pc) \<longrightarrow> (\<forall>t. pc t = Out) \<longrightarrow> mutex_dtor m = Some ()) \<and>
   mx_step\<^sup>*\<^sup>* (Mx new_mutex (\<lambda>_. Out)) WaitAssertFails"
proof (intro conjI)
  show "\<forall>m pc. mx_step\<^sup>*\<^sup>* (Mx new_mutex (\<lambda>_. Out)) (Mx m pc) \<longrightarrow> (\<forall>t. pc t = Out) \<longrightarrow> mutex_dtor m = Some ()"
    using mx.inv_reach by (fastforce simp: mx_ok_def mutex_dtor_def)
  show "\<forall>m pc t u. mx_step\<^sup>*\<^sup>* (Mx new_mutex (\<lambda>_. Out)) (Mx m pc) \<longrightarrow> holds (pc t) \<longrightarrow> holds (pc u) \<longrightarrow> t = u"
    using mx.inv_reach by (fastforce simp: mx_ok_def)
  let ?o = "\<lambda>_ :: nat. Out"
  have "mx_step\<^sup>*\<^sup>* (Mx new_mutex ?o) (Mx new_mutex ?o)" by simp
  also have "mx_step (Mx new_mutex ?o) (Mx \<lparr>mx_owner = Some 0, isLock = False\<rparr> (?o(0 := Locked)))"
    by (rule lock) (simp_all add: mutex_lock_def new_mutex_def)
  also (rtranclp.rtrancl_into_rtrancl) have "mx_step (Mx \<lparr>mx_owner = Some 0, isLock = False\<rparr> (?o(0 := Locked)))
      (Mx \<lparr>mx_owner = Some 0, isLock = True\<rparr> (?o(0 := Inside)))"
    using lock_flag [of "?o(0 := Locked)" 0 "\<lparr>mx_owner = Some 0, isLock = False\<rparr>"] by (simp add: set_isLock_def)
  also (rtranclp.rtrancl_into_rtrancl) have "mx_step (Mx \<lparr>mx_owner = Some 0, isLock = True\<rparr> (?o(0 := Inside)))
      (Mx \<lparr>mx_owner = None, isLock = True\<rparr> (?o(0 := Unlocked)))"
    using unlock [of "?o(0 := Inside)" 0 "\<lparr>mx_owner = Some 0, isLock = True\<rparr>"] by (simp add: mutex_unlock_def)
  also (rtranclp.rtrancl_into_rtrancl) have "mx_step (Mx \<lparr>mx_owner = None, isLock = True\<rparr> (?o(0 := Unlocked)))
      (Mx \<lparr>mx_owner = Some 1, isLock = True\<rparr> (?o(0 := Unlocked, 1 := Locked)))"
    by (rule lock) (simp_all add: mutex_lock_def)
  also (rtranclp.rtrancl_into_rtrancl) have "mx_step (Mx \<lparr>mx_owner = Some 1, isLock = True\<rparr> (?o(0 := Unlocked, 1 := Locked)))
      (Mx \<lparr>mx_owner = Some 1, isLock = True\<rparr> (?o(0 := Unlocked, 1 := Inside)))"
    using lock_flag [of "?o(0 := Unlocked, 1 := Locked)" 1 "\<lparr>mx_owner = Some 1, isLock = True\<rparr>"]
    by (simp add: set_isLock_def)
  also (rtranclp.rtrancl_into_rtrancl) have "mx_step (Mx \<lparr>mx_owner = Some 1, isLock = True\<rparr> (?o(0 := Unlocked, 1 := Inside)))
      (Mx \<lparr>mx_owner = Some 1, isLock = False\<rparr> ((?o(0 := Unlocked, 1 := Inside))(0 := Out)))"
    using unlock_flag [of "?o(0 := Unlocked, 1 := Inside)" 0 "\<lparr>mx_owner = Some 1, isLock = True\<rparr>"]
    by (simp add: set_isLock_def)
  also (rtranclp.rtrancl_into_rtrancl) have "mx_step (Mx \<lparr>mx_owner = Some 1, isLock = False\<rparr> ((?o(0 := Unlocked, 1 := Inside))(0 := Out))) WaitAssertFails"
    by (rule wait_assert [of _ 1]) simp_all
  finally (rtranclp.rtrancl_into_rtrancl) show "mx_step\<^sup>*\<^sup>* (Mx new_mutex ?o) WaitAssertFails" by simp
qed

theorem mutex_flag_race_witness: "mx_step\<^sup>*\<^sup>* (Mx new_mutex (\<lambda>_. Out)) WaitAssertFails"
  using mutex_flag_race by simp

text \<open>
  C35. \<open>Thread::start\<close> hands over the thread id: however the two threads interleave, and
  with spurious wake-ups, no assertion of \<open>start\<close> fails, \<open>start\<close> returns only when \<open>tid_\<close>
  holds the id of the new thread, and once the new thread has counted down the starting
  thread is awake and its next step returns.
\<close>

theorem thread_start_hands_over:
  assumes "(th_step p tid)\<^sup>*\<^sup>* (Some (new_thread name)) r" and "0 < tid"
  shows "\<exists>x. r = Some x \<and> (th_parent x = Returned \<longrightarrow> th_tid x = tid) \<and>
     (th_child x = Counted \<and> th_parent x = InLatch \<longrightarrow> p \<notin> l_asleep (th_L x) \<and>
       thread_start_wait p x = Some (x\<lparr>th_parent := Returned\<rparr>))"
proof -
  from th.inv_reach [OF _ assms(1)] assms(2) obtain x where "r = Some x" "th_ok tid (Some x)"
    by (cases r) (auto simp: th_ok_def)
  with assms(2) show ?thesis
    by (auto simp: th_ok_def latch_ok_def thread_start_wait_def latch_wait_def)
qed

theorem thread_start_hands_over_witness:
  "thread_start_wait 7 (child_countdown (write_tid 99 (new_thread []\<lparr>th_start := True, th_child := Created, th_parent := InLatch\<rparr>))) \<noteq> None"
proof -
  let ?x = "new_thread []\<lparr>th_start := True, th_child := Created, th_parent := InLatch\<rparr>"
  have "(th_step 7 99)\<^sup>*\<^sup>* (Some (new_thread [])) (Some (new_thread []))" by simp
  also have "th_step 7 99 (Some (new_thread [])) (Some ?x)"
    using th_step.start [of "new_thread []" 7 99 True] by (simp add: new_thread_def thread_start_def Let_def)
  also (rtranclp.rtrancl_into_rtrancl) have "th_step 7 99 (Some ?x) (Some (write_tid 99 ?x))" by (rule th_step.tid) simp
  also (rtranclp.rtrancl_into_rtrancl) have "th_step 7 99 (Some (write_tid 99 ?x)) (Some (child_countdown (write_tid 99 ?x)))"
    by (rule th_step.count) (simp add: write_tid_def)
  finally (rtranclp.rtrancl_into_rtrancl) have "(th_step 7 99)\<^sup>*\<^sup>* (Some (new_thread [])) (Some (child_countdown (write_tid 99 ?x)))" by simp
  from thread_start_hands_over [OF this] show ?thesis by (simp add: child_countdown_def write_tid_def)
qed

end
