(* ===== verification/Thread_Pool.thy ===== *)
theory Thread_Pool
  imports Threads
begin

text \<open>
  The thread pool of \<open>ThreadPool.cpp\<close>: a bounded queue of tasks, worker threads that take
  tasks from it, and clients that put them in and stop the pool. The critical sections of
  \<open>put\<close>, \<open>take\<close> and \<open>stop\<close> are atomic, being under \<open>mutex_\<close>; \<open>Notify\<close> wakes any one of the
  threads asleep on its condition, and a thread may also wake up for no reason.
\<close>

section \<open>The pool\<close>

text \<open>Tasks are named by numbers; the empty \<open>std::function\<close> is \<^term>\<open>None\<close>.\<close>

record tpool =
  tp_name :: string
  Queue_max_size :: int
  ThreadInitCallback :: "nat option"
  tp_running :: bool
  threads :: "thr list"
  Queue :: "nat list"

definition new_tpool :: tpool where
  "new_tpool = \<lparr>tp_name = ''Thread_Pool'', Queue_max_size = 100, ThreadInitCallback = None, tp_running = False,
     threads = [], Queue = []\<rparr>"

definition Set_Init_Thread_Pool_Callback :: "nat option \<Rightarrow> tpool \<Rightarrow> tpool" where
  "Set_Init_Thread_Pool_Callback c p = p\<lparr>ThreadInitCallback := c\<rparr>"

definition Set_Queue_Size :: "int \<Rightarrow> tpool \<Rightarrow> tpool" where
  "Set_Queue_Size n p = p\<lparr>Queue_max_size := n\<rparr>"

text \<open>\<open>Queue_.size() >= Queue_max_size\<close>, where the \<open>int\<close> is converted to \<open>size_t\<close>.\<close>

definition isFull_pool :: "tpool \<Rightarrow> bool" where
  "isFull_pool p \<longleftrightarrow> (of_nat (length (Queue p)) :: u64) \<ge> u64_of_int (Queue_max_size p)"

text \<open>
  \<open>put\<close> and \<open>take\<close> from a test of their loop condition to the next sleep, which is
  \<^term>\<open>None\<close>, or to the return. \<open>take\<close> says whether it notifies \<open>Full_cond_\<close>.
\<close>

definition pool_put :: "nat \<Rightarrow> tpool \<Rightarrow> tpool option" where
  "pool_put task p = (if isFull_pool p then None else Some (p\<lparr>Queue := Queue p @ [task]\<rparr>))"

definition pool_take :: "tpool \<Rightarrow> (nat option \<times> tpool) option" where
  "pool_take p =
     (if Queue p = [] \<and> tp_running p then None
      else case Queue p of [] \<Rightarrow> Some (None, p)
      | task # q \<Rightarrow> Some (Some task, p\<lparr>Queue := q\<rparr>))"

definition get_name :: "tpool \<Rightarrow> string" where
  "get_name p = tp_name p"

definition Queue_size :: "tpool \<Rightarrow> int" where
  "Queue_size p = int (length (Queue p))"

text \<open>
  \<open>start\<close>, for thread creations that succeed: every thread has the name of the pool and its
  number. A failed assertion is \<^term>\<open>None\<close>.
\<close>

fun start_threads :: "string \<Rightarrow> int \<Rightarrow> nat \<Rightarrow> thr list option" where
  "start_threads name i 0 = Some []"
| "start_threads name i (Suc n) = do {
     x \<leftarrow> thread_start True (new_thread (name @ ''_'' @ int_text (i + 1)));
     xs \<leftarrow> start_threads name (i + 1) n;
     Some (x # xs)
   }"

definition pool_start :: "nat \<Rightarrow> tpool \<Rightarrow> tpool option" where
  "pool_start num p =
     (if threads p \<noteq> [] then None
      else do {
        let p = p\<lparr>tp_running := True\<rparr>;
        xs \<leftarrow> start_threads (tp_name p) 0 num;
        Some (p\<lparr>threads := xs\<rparr>)
      })"

text \<open>\<open>stop\<close>: its critical section, and the loop that joins the threads.\<close>

definition pool_stop :: "tpool \<Rightarrow> tpool" where
  "pool_stop p = p\<lparr>tp_running := False\<rparr>"

fun join_all :: "thr list \<Rightarrow> thr list option" where
  "join_all [] = Some []"
| "join_all (x # xs) = do { x \<leftarrow> thread_join x; xs \<leftarrow> join_all xs; Some (x # xs) }"

definition pool_join :: "tpool \<Rightarrow> tpool option" where
  "pool_join p = do { xs \<leftarrow> join_all (threads p); Some (p\<lparr>threads := xs\<rparr>) }"

lemma start_threads_ok:
  "\<exists>xs. start_threads name i n = Some xs \<and> length xs = n \<and> (\<forall>x \<in> set xs. is_start x \<and> \<not> th_join x) \<and>
     map Thread_name xs = map (\<lambda>k. name @ ''_'' @ int_text (i + int k + 1)) [0..<n]"
proof (induction n arbitrary: i)
  case (Suc n)
  from Suc [of "i + 1"] obtain xs where xs: "start_threads name (i + 1) n = Some xs" "length xs = n"
    "\<forall>x \<in> set xs. is_start x \<and> \<not> th_join x"
    "map Thread_name xs = map (\<lambda>k. name @ ''_'' @ int_text (i + 1 + int k + 1)) [0..<n]" by blast
  have "map (\<lambda>k. name @ ''_'' @ int_text (i + int k + 1)) [0..<Suc n] =
      (name @ ''_'' @ int_text (i + 1)) # map (\<lambda>k. name @ ''_'' @ int_text (i + 1 + int k + 1)) [0..<n]"
    by (rule nth_equalityI) (auto simp: nth_Cons' add_ac simp del: upt_Suc)
  with xs show ?case by (simp add: thread_start_def new_thread_def is_start_def Let_def)
qed simp

lemma join_all_once:
  assumes "\<forall>x \<in> set xs. is_start x \<and> \<not> th_join x"
  shows "join_all xs = Some (map (\<lambda>x. x\<lparr>th_join := True\<rparr>) xs)" "xs \<noteq> [] \<Longrightarrow> join_all (map (\<lambda>x. x\<lparr>th_join := True\<rparr>) xs) = None"
proof -
  show "join_all xs = Some (map (\<lambda>x. x\<lparr>th_join := True\<rparr>) xs)"
    using assms by (induction xs) (auto simp: thread_join_def is_start_def)
  show "join_all (map (\<lambda>x. x\<lparr>th_join := True\<rparr>) xs) = None" if "xs \<noteq> []"
    using that by (cases xs) (simp_all add: thread_join_def)
qed

text \<open>\<open>start\<close> makes the named threads, once; \<open>stop\<close> joins each of them, once.\<close>

lemma pool_start_threads:
  assumes "threads p = []"
  shows "\<exists>q. pool_start num p = Some q \<and> tp_running q \<and> Queue q = Queue p \<and> Queue_max_size q = Queue_max_size p \<and>
     map Thread_name (threads q) = map (\<lambda>k. get_name p @ ''_'' @ int_text (int k + 1)) [0..<num] \<and>
     (0 < num \<longrightarrow> pool_start n q = None) \<and>
     (\<exists>r. pool_join (pool_stop q) = Some r \<and> (\<forall>x \<in> set (threads r). \<not> thread_dtor x) \<and> (0 < num \<longrightarrow> pool_join r = None))"
proof -
  obtain xs where xs: "start_threads (tp_name p) 0 num = Some xs" "length xs = num"
    "\<forall>x \<in> set xs. is_start x \<and> \<not> th_join x"
    "map Thread_name xs = map (\<lambda>k. tp_name p @ ''_'' @ int_text (0 + int k + 1)) [0..<num]"
    using start_threads_ok [of "tp_name p" 0 num] by blast
  with assms join_all_once [OF xs(3)] show ?thesis
    by (auto simp: pool_start_def pool_join_def pool_stop_def get_name_def thread_dtor_def)
qed

section \<open>The threads\<close>

text \<open>
  A client is outside the pool, asleep in \<open>put\<close>, or woken there and about to test again. A
  worker is at the test of its loop, at the beginning of \<open>take\<close>, asleep or woken there,
  executing a task, or has left \<open>Thread_func\<close>.
\<close>

datatype pst = Client | PutAsleep nat | PutWoken nat
  | AtTest | Taking | TakeAsleep | TakeWoken | Executing nat | Exited

text \<open>The history of the pool: the tasks in the order in which they were put and taken.\<close>

record psys =
  pl :: tpool
  ths :: "nat \<Rightarrow> pst"
  pushed :: "nat list"
  taken :: "nat list"

definition put_asleep :: "psys \<Rightarrow> nat set" where "put_asleep x = {t. \<exists>k. ths x t = PutAsleep k}"
definition put_woken :: "psys \<Rightarrow> nat set" where "put_woken x = {t. \<exists>k. ths x t = PutWoken k}"
definition take_asleep :: "psys \<Rightarrow> nat set" where "take_asleep x = {t. ths x t = TakeAsleep}"
definition take_woken :: "psys \<Rightarrow> nat set" where "take_woken x = {t. ths x t = TakeWoken}"

definition wake :: "pst \<Rightarrow> pst" where
  "wake s = (case s of PutAsleep k \<Rightarrow> PutWoken k | TakeAsleep \<Rightarrow> TakeWoken | _ \<Rightarrow> s)"

text \<open>\<open>Notify\<close> on a condition with the sleepers \<open>A\<close>.\<close>

definition notify :: "nat set \<Rightarrow> psys \<Rightarrow> psys \<Rightarrow> bool" where
  "notify A x y \<longleftrightarrow> (if A = {} then y = x else \<exists>t \<in> A. y = x\<lparr>ths := (ths x)(t := wake (ths x t))\<rparr>)"

definition wants_put :: "nat \<Rightarrow> pst \<Rightarrow> bool" where
  "wants_put k s \<longleftrightarrow> s = Client \<or> s = PutWoken k"

definition in_take :: "pst \<Rightarrow> bool" where
  "in_take s \<longleftrightarrow> s = Taking \<or> s = TakeWoken"

definition pushed_by :: "nat \<Rightarrow> nat \<Rightarrow> tpool \<Rightarrow> psys \<Rightarrow> psys" where
  "pushed_by t k p x = x\<lparr>pl := p, ths := (ths x)(t := Client), pushed := pushed x @ [k]\<rparr>"

definition taken_by :: "nat \<Rightarrow> nat \<Rightarrow> tpool \<Rightarrow> psys \<Rightarrow> psys" where
  "taken_by t k p x = x\<lparr>pl := p, ths := (ths x)(t := Executing k), taken := taken x @ [k]\<rparr>"

inductive pool_step :: "psys \<Rightarrow> psys \<Rightarrow> bool" where
  put_sleeps: "wants_put k (ths x t) \<Longrightarrow> pool_put k (pl x) = None \<Longrightarrow>
     pool_step x (x\<lparr>ths := (ths x)(t := PutAsleep k)\<rparr>)"
| put_pushes: "wants_put k (ths x t) \<Longrightarrow> pool_put k (pl x) = Some p \<Longrightarrow>
     notify (take_asleep x) (pushed_by t k p x) y \<Longrightarrow> pool_step x y"
| test_on: "ths x t = AtTest \<Longrightarrow> tp_running (pl x) \<Longrightarrow> pool_step x (x\<lparr>ths := (ths x)(t := Taking)\<rparr>)"
| test_off: "ths x t = AtTest \<Longrightarrow> \<not> tp_running (pl x) \<Longrightarrow> pool_step x (x\<lparr>ths := (ths x)(t := Exited)\<rparr>)"
| take_sleeps: "in_take (ths x t) \<Longrightarrow> pool_take (pl x) = None \<Longrightarrow>
     pool_step x (x\<lparr>ths := (ths x)(t := TakeAsleep)\<rparr>)"
| take_none: "in_take (ths x t) \<Longrightarrow> pool_take (pl x) = Some (None, p) \<Longrightarrow>
     pool_step x (x\<lparr>pl := p, ths := (ths x)(t := AtTest)\<rparr>)"
| take_pops: "in_take (ths x t) \<Longrightarrow> pool_take (pl x) = Some (Some k, p) \<Longrightarrow>
     notify (put_asleep x) (taken_by t k p x) y \<Longrightarrow> pool_step x y"
| executed: "ths x t = Executing k \<Longrightarrow> pool_step x (x\<lparr>ths := (ths x)(t := AtTest)\<rparr>)"
| stop: "pool_step x (x\<lparr>pl := pool_stop (pl x), ths := (\<lambda>t. if t \<in> take_asleep x then TakeWoken else ths x t)\<rparr>)"
| spurious: "pool_step x (x\<lparr>ths := (ths x)(t := wake (ths x t))\<rparr>)"

text \<open>\<open>start(num)\<close> on a new pool of the given size: the workers are the first \<open>num\<close> threads.\<close>

definition started :: "int \<Rightarrow> nat \<Rightarrow> tpool" where
  "started cap num = the (pool_start num (Set_Queue_Size cap new_tpool))"

lemma started_simps [simp]:
  "Queue_max_size (started cap num) = cap" "tp_running (started cap num)" "Queue (started cap num) = []"
  using pool_start_threads [of "Set_Queue_Size cap new_tpool" num 0]
  by (auto simp: started_def Set_Queue_Size_def new_tpool_def)

definition pool_system :: "int \<Rightarrow> nat \<Rightarrow> psys" where
  "pool_system cap num =
     \<lparr>pl = started cap num,
      ths = (\<lambda>t. if t < num then AtTest else Client), pushed = [], taken = []\<rparr>"

section \<open>The invariant\<close>

text \<open>
  While a worker sleeps there are as many woken ones as tasks; while a client sleeps there
  are as many woken ones as free places.
\<close>

definition pool_ok :: "int \<Rightarrow> psys \<Rightarrow> bool" where
  "pool_ok cap x \<longleftrightarrow> Queue_max_size (pl x) = cap \<and> taken x @ Queue (pl x) = pushed x \<and>
     int (length (Queue (pl x))) \<le> cap \<and> finite (take_woken x) \<and> finite (put_woken x) \<and> finite (take_asleep x) \<and>
     (take_asleep x \<noteq> {} \<longrightarrow> length (Queue (pl x)) \<le> card (take_woken x)) \<and>
     (put_asleep x \<noteq> {} \<longrightarrow> nat cap - length (Queue (pl x)) \<le> card (put_woken x))"

lemma isFull_iff:
  assumes "0 < cap" and "cap \<le> INT_MAX" and "Queue_max_size p = cap" and "int (length (Queue p)) \<le> cap"
  shows "isFull_pool p \<longleftrightarrow> int (length (Queue p)) = cap"
proof -
  have l: "length (Queue p) < 2 ^ 64" using assms by (simp add: INT_MAX_def)
  have "unat (of_nat (length (Queue p)) :: u64) = length (Queue p)"
    using l by (simp add: unsigned_of_nat take_bit_nat_eq_self)
  moreover have "unat (u64_of_int cap) = nat cap" using assms by (intro unat_u64_of_int) (simp_all add: INT_MAX_def)
  ultimately show ?thesis using assms by (simp add: isFull_pool_def word_le_nat_alt) linarith
qed

text \<open>How the sets of sleepers follow a change of one thread.\<close>

lemmas sets_defs = put_asleep_def put_woken_def take_asleep_def take_woken_def

lemma sets_upd:
  "take_asleep (x\<lparr>ths := (ths x)(t := s)\<rparr>) = (if s = TakeAsleep then insert t (take_asleep x) else take_asleep x - {t})"
  "take_woken (x\<lparr>ths := (ths x)(t := s)\<rparr>) = (if s = TakeWoken then insert t (take_woken x) else take_woken x - {t})"
  "put_asleep (x\<lparr>ths := (ths x)(t := s)\<rparr>) = (if \<exists>k. s = PutAsleep k then insert t (put_asleep x) else put_asleep x - {t})"
  "put_woken (x\<lparr>ths := (ths x)(t := s)\<rparr>) = (if \<exists>k. s = PutWoken k then insert t (put_woken x) else put_woken x - {t})"
  by (auto simp: sets_defs split: if_splits)

lemma sets_other [simp]:
  "take_asleep (x\<lparr>pl := p\<rparr>) = take_asleep x" "take_woken (x\<lparr>pl := p\<rparr>) = take_woken x"
  "put_asleep (x\<lparr>pl := p\<rparr>) = put_asleep x" "put_woken (x\<lparr>pl := p\<rparr>) = put_woken x"
  "take_asleep (x\<lparr>pushed := l\<rparr>) = take_asleep x" "take_woken (x\<lparr>pushed := l\<rparr>) = take_woken x"
  "put_asleep (x\<lparr>pushed := l\<rparr>) = put_asleep x" "put_woken (x\<lparr>pushed := l\<rparr>) = put_woken x"
  "take_asleep (x\<lparr>taken := l\<rparr>) = take_asleep x" "take_woken (x\<lparr>taken := l\<rparr>) = take_woken x"
  "put_asleep (x\<lparr>taken := l\<rparr>) = put_asleep x" "put_woken (x\<lparr>taken := l\<rparr>) = put_woken x"
  by (simp_all add: sets_defs)

text \<open>The part of the invariant about sleepers, on the four sets.\<close>

definition sleep_ok :: "nat \<Rightarrow> nat set \<Rightarrow> nat set \<Rightarrow> bool" where
  "sleep_ok n A W \<longleftrightarrow> finite W \<and> (A \<noteq> {} \<longrightarrow> n \<le> card W)"

lemma sleep_ok_less: "sleep_ok n A W \<Longrightarrow> m \<le> n \<Longrightarrow> sleep_ok m A W"
  by (auto simp: sleep_ok_def)

lemma sleep_ok_fewer: "sleep_ok n A W \<Longrightarrow> B \<subseteq> A \<Longrightarrow> sleep_ok n B W"
  by (auto simp: sleep_ok_def)

lemma sleep_ok_leave: "sleep_ok n A W \<Longrightarrow> sleep_ok (n - Suc 0) (A - {t}) (W - {t})"
  by (auto simp: sleep_ok_def card_Diff_singleton_if)

lemma sleep_ok_wake: "sleep_ok n A W \<Longrightarrow> t \<in> A \<Longrightarrow> t \<notin> W \<Longrightarrow> sleep_ok (Suc n) (A - {t}) (insert t W)"
  by (auto simp: sleep_ok_def)

lemma pool_ok_alt:
  "pool_ok cap x \<longleftrightarrow> Queue_max_size (pl x) = cap \<and> taken x @ Queue (pl x) = pushed x \<and>
     int (length (Queue (pl x))) \<le> cap \<and> finite (take_asleep x) \<and>
     sleep_ok (length (Queue (pl x))) (take_asleep x) (take_woken x) \<and>
     sleep_ok (nat cap - length (Queue (pl x))) (put_asleep x) (put_woken x)"
  by (auto simp: pool_ok_def sleep_ok_def)

lemma disjoint_sets:
  "t \<in> take_asleep x \<Longrightarrow> t \<notin> take_woken x \<and> t \<notin> put_asleep x \<and> t \<notin> put_woken x"
  "t \<in> put_asleep x \<Longrightarrow> t \<notin> put_woken x \<and> t \<notin> take_asleep x \<and> t \<notin> take_woken x"
  by (auto simp: sets_defs)

lemma wake_upd:
  "t \<in> take_asleep x \<Longrightarrow> take_asleep (x\<lparr>ths := (ths x)(t := wake (ths x t))\<rparr>) = take_asleep x - {t} \<and>
     take_woken (x\<lparr>ths := (ths x)(t := wake (ths x t))\<rparr>) = insert t (take_woken x) \<and>
     put_asleep (x\<lparr>ths := (ths x)(t := wake (ths x t))\<rparr>) = put_asleep x \<and>
     put_woken (x\<lparr>ths := (ths x)(t := wake (ths x t))\<rparr>) = put_woken x"
  "t \<in> put_asleep x \<Longrightarrow> put_asleep (x\<lparr>ths := (ths x)(t := wake (ths x t))\<rparr>) = put_asleep x - {t} \<and>
     put_woken (x\<lparr>ths := (ths x)(t := wake (ths x t))\<rparr>) = insert t (put_woken x) \<and>
     take_asleep (x\<lparr>ths := (ths x)(t := wake (ths x t))\<rparr>) = take_asleep x \<and>
     take_woken (x\<lparr>ths := (ths x)(t := wake (ths x t))\<rparr>) = take_woken x"
  by (auto simp: sets_defs wake_def split: if_splits)

lemma wake_other: "t \<notin> take_asleep x \<Longrightarrow> t \<notin> put_asleep x \<Longrightarrow> wake (ths x t) = ths x t"
  by (auto simp: wake_def sets_defs split: pst.splits)

lemma sleep_ok_wake_same:
  assumes "sleep_ok n A W" and "t \<in> A" and "t \<notin> W"
  shows "sleep_ok n (A - {t}) (insert t W)"
  by (rule sleep_ok_less [OF sleep_ok_wake [OF assms]]) simp

lemma spurious_ok:
  assumes "pool_ok cap x"
  shows "pool_ok cap (x\<lparr>ths := (ths x)(t := wake (ths x t))\<rparr>)"
proof (cases "t \<in> take_asleep x \<or> t \<in> put_asleep x")
  case True
  then show ?thesis
    using assms disjoint_sets [of t x] wake_upd [of t x] by (auto simp: pool_ok_alt intro: sleep_ok_wake_same)
next
  case False
  then show ?thesis using assms by (simp add: wake_other)
qed

text \<open>A thread leaves its set, and a notification with or without a sleeper follows.\<close>

lemma notify_take:
  assumes "notify (take_asleep x) z y" and "take_asleep z = take_asleep x"
    and "sleep_ok n (take_asleep z) (take_woken z)"
  shows "sleep_ok (Suc n) (take_asleep y) (take_woken y) \<and> put_asleep y = put_asleep z \<and> put_woken y = put_woken z \<and>
     take_asleep y \<subseteq> take_asleep x \<and> pl y = pl z \<and> pushed y = pushed z \<and> taken y = taken z"
proof (cases "take_asleep x = {}")
  case True
  with assms show ?thesis by (auto simp: notify_def sleep_ok_def)
next
  case False
  with assms(1) obtain t where t: "t \<in> take_asleep x" "y = z\<lparr>ths := (ths z)(t := wake (ths z t))\<rparr>"
    by (auto simp: notify_def)
  with assms(2) have "t \<in> take_asleep z" by simp
  from wake_upd(1) [OF this] disjoint_sets(1) [OF this] sleep_ok_wake [OF assms(3) this] t assms(2) show ?thesis by auto
qed

lemma notify_put:
  assumes "notify (put_asleep x) z y" and "put_asleep z = put_asleep x"
    and "sleep_ok n (put_asleep z) (put_woken z)"
  shows "sleep_ok (Suc n) (put_asleep y) (put_woken y) \<and> take_asleep y = take_asleep z \<and> take_woken y = take_woken z \<and>
     pl y = pl z \<and> pushed y = pushed z \<and> taken y = taken z"
proof (cases "put_asleep x = {}")
  case True
  with assms show ?thesis by (auto simp: notify_def sleep_ok_def)
next
  case False
  with assms(1) obtain t where t: "t \<in> put_asleep x" "y = z\<lparr>ths := (ths z)(t := wake (ths z t))\<rparr>"
    by (auto simp: notify_def)
  with assms(2) have "t \<in> put_asleep z" by simp
  from wake_upd(2) [OF this] disjoint_sets(2) [OF this] sleep_ok_wake [OF assms(3) this] t assms(2) show ?thesis by auto
qed

lemma pushed_by_sets:
  assumes "wants_put k (ths x t)"
  shows "take_asleep (pushed_by t k p x) = take_asleep x" "take_woken (pushed_by t k p x) = take_woken x"
    "put_asleep (pushed_by t k p x) = put_asleep x - {t}" "put_woken (pushed_by t k p x) = put_woken x - {t}"
  using assms by (auto simp: sets_defs pushed_by_def wants_put_def split: if_splits)

lemma taken_by_sets:
  assumes "in_take (ths x t)"
  shows "put_asleep (taken_by t k p x) = put_asleep x" "put_woken (taken_by t k p x) = put_woken x"
    "take_asleep (taken_by t k p x) = take_asleep x - {t}" "take_woken (taken_by t k p x) = take_woken x - {t}"
  using assms by (auto simp: sets_defs taken_by_def in_take_def split: if_splits)

lemma put_pushes_ok:
  assumes ok: "pool_ok cap x" and cap: "0 < cap" "cap \<le> INT_MAX" and t: "wants_put k (ths x t)"
    and put: "pool_put k (pl x) = Some p" and y: "notify (take_asleep x) (pushed_by t k p x) y"
  shows "pool_ok cap y"
proof -
  have nf: "\<not> isFull_pool (pl x)" and p: "p = (pl x)\<lparr>Queue := Queue (pl x) @ [k]\<rparr>"
    using put by (auto simp: pool_put_def split: if_splits)
  have lt: "int (length (Queue (pl x))) < cap"
    using nf isFull_iff [OF cap, of "pl x"] ok by (auto simp: pool_ok_alt)
  note z = pushed_by_sets [OF t, of p]
  have "sleep_ok (length (Queue (pl x))) (take_asleep (pushed_by t k p x)) (take_woken (pushed_by t k p x))"
    using ok z by (simp add: pool_ok_alt)
  from notify_take [OF y z(1) this] have
    ny: "sleep_ok (Suc (length (Queue (pl x)))) (take_asleep y) (take_woken y)" "put_asleep y = put_asleep x - {t}"
      "put_woken y = put_woken x - {t}" "take_asleep y \<subseteq> take_asleep x" "pl y = p" "pushed y = pushed x @ [k]" "taken y = taken x"
    using z by (simp_all add: pushed_by_def)
  have "sleep_ok (nat cap - length (Queue (pl x)) - Suc 0) (put_asleep y) (put_woken y)"
    unfolding ny(2,3) by (rule sleep_ok_leave) (use ok in \<open>simp add: pool_ok_alt\<close>)
  moreover have "finite (take_asleep y)" using finite_subset [OF ny(4)] ok by (simp add: pool_ok_alt)
  ultimately show ?thesis using ok ny lt p by (simp add: pool_ok_alt)
qed

lemma take_pops_ok:
  assumes ok: "pool_ok cap x" and t: "in_take (ths x t)"
    and tk: "pool_take (pl x) = Some (Some k, p)" and y: "notify (put_asleep x) (taken_by t k p x) y"
  shows "pool_ok cap y"
proof -
  obtain q where q: "Queue (pl x) = k # q" "p = (pl x)\<lparr>Queue := q\<rparr>"
    using tk by (auto simp: pool_take_def split: if_splits list.splits)
  note z = taken_by_sets [OF t, of k p]
  have "sleep_ok (nat cap - length (Queue (pl x))) (put_asleep (taken_by t k p x)) (put_woken (taken_by t k p x))"
    using ok z by (simp add: pool_ok_alt)
  from notify_put [OF y z(1) this] have
    ny: "sleep_ok (Suc (nat cap - length (Queue (pl x)))) (put_asleep y) (put_woken y)" "take_asleep y = take_asleep x - {t}"
      "take_woken y = take_woken x - {t}" "pl y = p" "pushed y = pushed x" "taken y = taken x @ [k]"
    using z by (simp_all add: taken_by_def)
  have "sleep_ok (length (Queue (pl x)) - Suc 0) (take_asleep y) (take_woken y)"
    unfolding ny(2,3) by (rule sleep_ok_leave) (use ok in \<open>simp add: pool_ok_alt\<close>)
  moreover have "Suc (nat cap - length (Queue (pl x))) = nat cap - length q"
    using ok q(1) by (auto simp: pool_ok_alt)
  ultimately show ?thesis using ok ny q by (simp add: pool_ok_alt)
qed

lemma leave_ok:
  assumes "pool_ok cap x" and "s \<noteq> TakeAsleep" "s \<noteq> TakeWoken" "\<forall>k. s \<noteq> PutAsleep k \<and> s \<noteq> PutWoken k"
    and "ths x t \<noteq> TakeWoken \<or> Queue (pl x) = []" and "\<forall>k. ths x t \<noteq> PutWoken k"
  shows "pool_ok cap (x\<lparr>ths := (ths x)(t := s)\<rparr>)"
proof -
  have ok: "sleep_ok (length (Queue (pl x))) (take_asleep x) (take_woken x)"
    "sleep_ok (nat cap - length (Queue (pl x))) (put_asleep x) (put_woken x)"
    using assms(1) by (simp_all add: pool_ok_alt)
  have "put_woken x - {t} = put_woken x" using assms(6) by (auto simp: put_woken_def)
  then have "sleep_ok (nat cap - length (Queue (pl x))) (put_asleep x - {t}) (put_woken x - {t})"
    using sleep_ok_fewer [OF ok(2)] by auto
  moreover have "sleep_ok (length (Queue (pl x))) (take_asleep x - {t}) (take_woken x - {t})"
    using assms(5)
  proof
    assume "ths x t \<noteq> TakeWoken"
    then have "take_woken x - {t} = take_woken x" by (auto simp: take_woken_def)
    then show ?thesis using sleep_ok_fewer [OF ok(1)] by auto
  next
    assume "Queue (pl x) = []"
    then show ?thesis using ok(1) by (simp add: sleep_ok_def)
  qed
  ultimately show ?thesis using assms(1-4) by (simp add: pool_ok_alt sets_upd)
qed

lemma pool_step_ok:
  assumes "pool_step x y" and "0 < cap" "cap \<le> INT_MAX" and "pool_ok cap x"
  shows "pool_ok cap y"
  using assms
proof (induction rule: pool_step.induct)
  case (put_sleeps k x t)
  then have "isFull_pool (pl x)" by (auto simp: pool_put_def split: if_splits)
  then have "int (length (Queue (pl x))) = cap"
    using isFull_iff [OF put_sleeps(3,4), of "pl x"] put_sleeps(5) by (simp add: pool_ok_alt)
  moreover have "t \<notin> take_asleep x" "t \<notin> take_woken x"
    using put_sleeps(1) by (auto simp: wants_put_def sets_defs)
  ultimately show ?case using put_sleeps(5) by (auto simp: pool_ok_alt sets_upd sleep_ok_def)
next
  case (put_pushes k x t p y)
  then show ?case using put_pushes_ok by blast
next
  case (take_sleeps x t)
  then have "Queue (pl x) = []" by (auto simp: pool_take_def split: if_splits list.splits)
  moreover have "t \<notin> put_asleep x" "t \<notin> put_woken x"
    using take_sleeps(1) by (auto simp: in_take_def sets_defs)
  ultimately show ?case using take_sleeps(5) by (auto simp: pool_ok_alt sets_upd sleep_ok_def)
next
  case (take_none x t p)
  then have "Queue (pl x) = []" "p = pl x" by (auto simp: pool_take_def split: if_splits list.splits)
  with take_none show ?case using leave_ok [of cap x AtTest t] by (auto simp: in_take_def)
next
  case (take_pops x t k p y)
  then show ?case using take_pops_ok by blast
next
  case (stop x)
  let ?y = "x\<lparr>pl := pool_stop (pl x), ths := (\<lambda>t. if t \<in> take_asleep x then TakeWoken else ths x t)\<rparr>"
  have "take_asleep ?y = {}" "take_woken ?y = take_woken x \<union> take_asleep x" "put_asleep ?y = put_asleep x"
    "put_woken ?y = put_woken x" by (auto simp: sets_defs split: if_splits)
  then show ?case using stop(3) by (auto simp: pool_ok_alt sleep_ok_def pool_stop_def)
next
  case (spurious x t)
  then show ?case using spurious_ok by blast
qed (auto intro!: leave_ok)

lemma pool_system_ok:
  assumes "0 < cap"
  shows "pool_ok cap (pool_system cap num)"
proof -
  have "take_asleep (pool_system cap num) = {}" "take_woken (pool_system cap num) = {}"
    "put_asleep (pool_system cap num) = {}" "put_woken (pool_system cap num) = {}"
    by (auto simp: sets_defs pool_system_def split: if_splits)
  then show ?thesis using assms by (simp add: pool_ok_def pool_system_def)
qed

interpretation tp: bounded_fifo pool_step "\<lambda>x. \<exists>num. 0 < cap \<and> cap \<le> INT_MAX \<and> x = pool_system cap num"
    "\<lambda>x. 0 < cap \<and> cap \<le> INT_MAX \<and> pool_ok cap x" pushed taken "\<lambda>x. Queue (pl x)" "\<lambda>_. nat cap" for cap
proof unfold_locales
  fix x y assume "pool_step x y" "0 < cap \<and> cap \<le> INT_MAX \<and> pool_ok cap x"
  then show "0 < cap \<and> cap \<le> INT_MAX \<and> pool_ok cap y" using pool_step_ok by blast
qed (use pool_system_ok in \<open>auto simp: pool_ok_def\<close>)

lemma pool_reach_ok:
  assumes "pool_step\<^sup>*\<^sup>* (pool_system cap num) x" and "0 < cap" "cap \<le> INT_MAX"
  shows "pool_ok cap x"
  using tp.inv_reach [of cap "pool_system cap num" x] assms by blast

section \<open>Properties\<close>

text \<open>A worker and a client of a pool with one worker: the worker waits, the client puts a task.\<close>

definition pool1 :: psys where
  "pool1 = \<lparr>pl = started 2 1,
     ths = (\<lambda>t. if t = 0 then TakeAsleep else Client), pushed = [], taken = []\<rparr>"

definition pool2 :: psys where
  "pool2 = \<lparr>pl = (started 2 1)\<lparr>Queue := [7]\<rparr>,
     ths = (\<lambda>t. if t = 0 then TakeWoken else Client), pushed = [7], taken = []\<rparr>"

lemma reach_pool1: "pool_step\<^sup>*\<^sup>* (pool_system 2 1) pool1"
proof -
  let ?x = "(pool_system 2 1)\<lparr>ths := (ths (pool_system 2 1))(0 := Taking)\<rparr>"
  have "pool_step (pool_system 2 1) ?x" by (rule test_on) (simp_all add: pool_system_def)
  then have "pool_step\<^sup>*\<^sup>* (pool_system 2 1) ?x" by (rule r_into_rtranclp)
  moreover have "pool_step ?x (?x\<lparr>ths := (ths ?x)(0 := TakeAsleep)\<rparr>)"
    by (rule take_sleeps) (simp_all add: in_take_def pool_take_def pool_system_def)
  ultimately have "pool_step\<^sup>*\<^sup>* (pool_system 2 1) (?x\<lparr>ths := (ths ?x)(0 := TakeAsleep)\<rparr>)"
    by (rule rtranclp.rtrancl_into_rtrancl)
  moreover have "?x\<lparr>ths := (ths ?x)(0 := TakeAsleep)\<rparr> = pool1"
    by (simp add: pool1_def pool_system_def fun_upd_def fun_eq_iff)
  ultimately show ?thesis by (simp only:)
qed

lemma reach_pool2: "pool_step\<^sup>*\<^sup>* (pool_system 2 1) pool2"
proof -
  have "pool_step pool1 pool2"
  proof (rule put_pushes)
    show "wants_put 7 (ths pool1 5)" by (simp add: wants_put_def pool1_def)
    show "pool_put 7 (pl pool1) = Some (pl pool2)"
      by (simp add: pool_put_def pool1_def pool2_def isFull_pool_def u64_of_int_def)
    have "take_asleep pool1 = {0}" by (auto simp: take_asleep_def pool1_def)
    moreover have "pool2 = (pushed_by 5 7 (pl pool2) pool1)\<lparr>ths := (ths (pushed_by 5 7 (pl pool2) pool1))(0 := TakeWoken)\<rparr>"
      by (simp add: pushed_by_def pool1_def pool2_def fun_eq_iff)
    moreover have "wake (ths (pushed_by 5 7 (pl pool2) pool1) 0) = TakeWoken"
      by (simp add: pushed_by_def pool1_def wake_def)
    ultimately show "notify (take_asleep pool1) (pushed_by 5 7 (pl pool2) pool1) pool2"
      by (simp add: notify_def)
  qed
  with reach_pool1 show ?thesis by (rule rtranclp.rtrancl_into_rtrancl)
qed

text \<open>
  C25. The queue of the thread pool, however clients and workers interleave, with spurious
  wake-ups and a stop at any time: the tasks taken are the first of the tasks put, in
  their order and each once, the rest is in the queue, and the queue never exceeds its
  size.
\<close>

theorem thread_pool_fifo:
  assumes "pool_step\<^sup>*\<^sup>* (pool_system cap num) x" and "0 < cap" and "cap \<le> INT_MAX"
  shows "taken x @ Queue (pl x) = pushed x \<and> int (length (Queue (pl x))) \<le> cap \<and>
     (\<forall>i < length (taken x). taken x ! i = pushed x ! i) \<and> length (pushed x) \<le> length (taken x) + nat cap"
  using pool_reach_ok [OF assms] tp.in_order [of cap "pool_system cap num" x] tp.in_flight_bound [of cap "pool_system cap num" x]
    assms by (auto simp: pool_ok_def)

theorem thread_pool_fifo_witness: "taken pool2 @ Queue (pl pool2) = [7]"
  using thread_pool_fifo [OF reach_pool2] by (simp add: INT_MAX_def pool2_def)

text \<open>
  C26. No wake-up is lost in the thread pool: while a worker sleeps there are at least as
  many woken workers as tasks in the queue, and while a client sleeps in \<open>put\<close> there are
  at least as many woken clients as free places. So \<open>Notify\<close>, which wakes only one thread,
  is enough.
\<close>

theorem thread_pool_no_lost_wakeup:
  assumes "pool_step\<^sup>*\<^sup>* (pool_system cap num) x" and "0 < cap" and "cap \<le> INT_MAX"
  shows "(take_asleep x \<noteq> {} \<longrightarrow> length (Queue (pl x)) \<le> card (take_woken x)) \<and>
     (put_asleep x \<noteq> {} \<longrightarrow> nat cap - length (Queue (pl x)) \<le> card (put_woken x))"
  using pool_reach_ok [OF assms] by (simp add: pool_ok_def)

theorem thread_pool_no_lost_wakeup_witness: "take_asleep pool1 \<noteq> {} \<and> length (Queue (pl pool1)) \<le> card (take_woken pool1)"
proof -
  have "take_asleep pool1 \<noteq> {}" by (auto simp: take_asleep_def pool1_def)
  with thread_pool_no_lost_wakeup [OF reach_pool1] show ?thesis by (simp add: INT_MAX_def)
qed

text \<open>The workers inside \<open>take\<close>; the others test \<open>running_\<close> before they take a task.\<close>

definition inside_take :: "psys \<Rightarrow> nat set" where
  "inside_take x = {t. in_take (ths x t) \<or> ths x t = TakeAsleep}"

fun is_client :: "pst \<Rightarrow> bool" where
  "is_client Client \<longleftrightarrow> True"
| "is_client (PutAsleep k) \<longleftrightarrow> True"
| "is_client (PutWoken k) \<longleftrightarrow> True"
| "is_client _ \<longleftrightarrow> False"

lemma client_wake [simp]: "is_client (wake s) = is_client s"
  by (cases s) (simp_all add: wake_def)

lemma notify_ths:
  assumes "notify A x y" and "\<And>s. P (wake s) = P s"
  shows "P (ths y t) = P (ths x t)"
  using assms by (auto simp: notify_def split: if_splits)

lemma clients_step:
  assumes "pool_step x y" and "is_client (ths x t)"
  shows "is_client (ths y t)"
  using assms
proof (induction rule: pool_step.induct)
  case (put_pushes k x t' p y)
  then show ?case using notify_ths [OF put_pushes(3), of is_client t] by (simp add: pushed_by_def)
next
  case (take_pops x t' k p y)
  moreover have "t \<noteq> t'" using take_pops(1,4) by (auto simp: in_take_def)
  ultimately show ?case using notify_ths [OF take_pops(3), of is_client t] by (simp add: taken_by_def)
qed (auto simp: in_take_def take_asleep_def)

lemma finite_inside:
  assumes "pool_step\<^sup>*\<^sup>* (pool_system cap num) x"
  shows "finite (inside_take x)"
proof -
  have "is_client (ths x t)" if "\<not> t < num" for t
    using assms
  proof (induction rule: rtranclp_induct)
    case base
    with that show ?case by (simp add: pool_system_def)
  qed (use clients_step in blast)
  then have "inside_take x \<subseteq> {..<num}" by (fastforce simp: inside_take_def in_take_def)
  then show ?thesis by (rule finite_subset) simp
qed

lemma inside_upd:
  "inside_take (x\<lparr>ths := (ths x)(t := s)\<rparr>) =
     (if in_take s \<or> s = TakeAsleep then insert t (inside_take x) else inside_take x - {t})"
  "inside_take (x\<lparr>pl := p, ths := (ths x)(t := AtTest)\<rparr>) = inside_take x - {t}"
  "inside_take (pushed_by t k p x) = inside_take x - {t}" "inside_take (taken_by t k p x) = inside_take x - {t}"
  by (auto simp: inside_take_def in_take_def pushed_by_def taken_by_def)

lemma inside_wake: "in_take (wake s) \<or> wake s = TakeAsleep \<longleftrightarrow> in_take s \<or> s = TakeAsleep"
  by (cases s) (auto simp: in_take_def wake_def)

lemma notify_inside: "notify A x y \<Longrightarrow> inside_take y = inside_take x"
  using notify_ths [of A x y "\<lambda>s. in_take s \<or> s = TakeAsleep"] inside_wake by (auto simp: inside_take_def)

lemma notify_rest: "notify A x y \<Longrightarrow> pl y = pl x \<and> taken y = taken x \<and> pushed y = pushed x"
  by (auto simp: notify_def split: if_splits)

text \<open>Between two states of a stopped pool: the tasks \<open>ts\<close> are taken.\<close>

definition drops :: "psys \<Rightarrow> nat list \<Rightarrow> psys \<Rightarrow> bool" where
  "drops x ts y \<longleftrightarrow> \<not> tp_running (pl y) \<and> finite (inside_take y) \<and> taken y = taken x @ ts \<and>
     length ts + card (inside_take y) \<le> card (inside_take x) \<and>
     (\<exists>q. Queue (pl y) = drop (length ts) (Queue (pl x)) @ q) \<and>
     (inside_take x = {} \<and> isFull_pool (pl x) \<longrightarrow> pl y = pl x \<and> pushed y = pushed x)"

lemma drops_same:
  assumes "\<not> tp_running (pl y)" and "finite (inside_take x)" "inside_take y \<subseteq> inside_take x" and "taken y = taken x"
    and "Queue (pl y) = Queue (pl x) @ q" and "inside_take x = {} \<and> isFull_pool (pl x) \<longrightarrow> pl y = pl x \<and> pushed y = pushed x"
  shows "drops x [] y"
  using assms finite_subset [OF assms(3,2)] card_mono [OF assms(2,3)] by (simp add: drops_def)

lemma drops_step:
  assumes "pool_step x y" and "\<not> tp_running (pl x)" and "finite (inside_take x)"
  shows "\<exists>ts. drops x ts y"
  using assms
proof (induction rule: pool_step.induct)
  case (put_sleeps k x t)
  then have "drops x [] (x\<lparr>ths := (ths x)(t := PutAsleep k)\<rparr>)"
    by (intro drops_same [of _ _ "[]"]) (auto simp: inside_upd in_take_def)
  then show ?case by blast
next
  case (put_pushes k x t p y)
  have p: "p = (pl x)\<lparr>Queue := Queue (pl x) @ [k]\<rparr>" "\<not> isFull_pool (pl x)"
    using put_pushes(2) by (auto simp: pool_put_def split: if_splits)
  have "inside_take y \<subseteq> inside_take x" using notify_inside [OF put_pushes(3)] by (auto simp: inside_upd)
  then have "drops x [] y"
    using notify_rest [OF put_pushes(3)] put_pushes(4,5) p
    by (intro drops_same [of _ _ "[k]"]) (auto simp: pushed_by_def)
  then show ?case by blast
next
  case (take_sleeps x t)
  then show ?case by (auto simp: pool_take_def split: list.splits)
next
  case (take_none x t p)
  then have "p = pl x" by (auto simp: pool_take_def split: if_splits list.splits)
  with take_none have "drops x [] (x\<lparr>pl := p, ths := (ths x)(t := AtTest)\<rparr>)"
    by (intro drops_same [of _ _ "[]"]) (auto simp: inside_upd in_take_def)
  then show ?case by blast
next
  case (take_pops x t k p y)
  have p: "Queue (pl x) = k # Queue p" "tp_running p = tp_running (pl x)"
    using take_pops(2) by (auto simp: pool_take_def split: if_splits list.splits)
  have t: "t \<in> inside_take x" using take_pops(1) by (simp add: inside_take_def)
  have "inside_take y = inside_take x - {t}"
    using notify_inside [OF take_pops(3)] by (simp add: inside_upd)
  then have "drops x [k] y"
    using notify_rest [OF take_pops(3)] p take_pops(4,5) t card_Suc_Diff1 [OF take_pops(5) t]
    by (auto simp: drops_def taken_by_def)
  then show ?case by blast
next
  case (test_off x t)
  then have "drops x [] (x\<lparr>ths := (ths x)(t := Exited)\<rparr>)"
    by (intro drops_same [of _ _ "[]"]) (auto simp: inside_upd in_take_def)
  then show ?case by blast
next
  case (executed x t k)
  then have "drops x [] (x\<lparr>ths := (ths x)(t := AtTest)\<rparr>)"
    by (intro drops_same [of _ _ "[]"]) (auto simp: inside_upd in_take_def)
  then show ?case by blast
next
  case (stop x)
  let ?y = "x\<lparr>pl := pool_stop (pl x), ths := (\<lambda>t. if t \<in> take_asleep x then TakeWoken else ths x t)\<rparr>"
  have "pool_stop (pl x) = pl x" using stop(1) by (simp add: pool_stop_def)
  with stop have "drops x [] ?y"
    by (intro drops_same [of _ _ "[]"]) (auto simp: inside_take_def in_take_def take_asleep_def)
  then show ?case by blast
next
  case (spurious x t)
  have "inside_take (x\<lparr>ths := (ths x)(t := wake (ths x t))\<rparr>) = inside_take x"
    using inside_wake by (auto simp: inside_take_def)
  with spurious have "drops x [] (x\<lparr>ths := (ths x)(t := wake (ths x t))\<rparr>)"
    by (intro drops_same [of _ _ "[]"]) simp_all
  then show ?case by blast
qed simp

lemma drops_trans:
  assumes "drops x ts y" and "drops y us z"
  shows "drops x (ts @ us) z"
proof -
  from assms(1) obtain q where q: "Queue (pl y) = drop (length ts) (Queue (pl x)) @ q" by (auto simp: drops_def)
  from assms(2) obtain q' where "Queue (pl z) = drop (length us) (Queue (pl y)) @ q'" by (auto simp: drops_def)
  then have "\<exists>q. Queue (pl z) = drop (length (ts @ us)) (Queue (pl x)) @ q" unfolding q by (simp add: add.commute)
  moreover have "inside_take y = {}" if "inside_take x = {}" using assms(1) that by (auto simp: drops_def card_eq_0_iff)
  ultimately show ?thesis using assms by (auto simp: drops_def)
qed

text \<open>A pool of size 1 whose worker has not yet looked for work: a client puts the task 7 and stops it.\<close>

definition pool3 :: psys where
  "pool3 = \<lparr>pl = (started 1 1)\<lparr>Queue := [7], tp_running := False\<rparr>,
     ths = (\<lambda>t. if t = 0 then AtTest else Client), pushed = [7], taken = []\<rparr>"

lemma reach_pool3: "pool_step\<^sup>*\<^sup>* (pool_system 1 1) pool3"
proof -
  let ?x = "(pool_system 1 1)\<lparr>pl := (started 1 1)\<lparr>Queue := [7]\<rparr>, pushed := [7]\<rparr>"
  have none: "take_asleep (pool_system 1 1) = {}" "take_asleep ?x = {}" by (auto simp: take_asleep_def pool_system_def split: if_splits)
  have "pool_step (pool_system 1 1) ?x"
  proof (rule put_pushes [of 7 _ 5])
    show "wants_put 7 (ths (pool_system 1 1) 5)" by (simp add: wants_put_def pool_system_def)
    show "pool_put 7 (pl (pool_system 1 1)) = Some ((started 1 1)\<lparr>Queue := [7]\<rparr>)"
      by (simp add: pool_put_def pool_system_def isFull_pool_def u64_of_int_def)
    show "notify (take_asleep (pool_system 1 1)) (pushed_by 5 7 ((started 1 1)\<lparr>Queue := [7]\<rparr>) (pool_system 1 1)) ?x"
      unfolding none notify_def by (simp add: pushed_by_def pool_system_def fun_eq_iff)
  qed
  then have "pool_step\<^sup>*\<^sup>* (pool_system 1 1) ?x" by (rule r_into_rtranclp)
  moreover have "pool_step ?x pool3"
    using stop [of ?x] none(2) by (simp add: pool_stop_def pool3_def pool_system_def)
  ultimately show ?thesis by (rule rtranclp.rtrancl_into_rtrancl)
qed

text \<open>
  C40. After \<open>stop\<close> the pool drops work. Take any state that a started pool can reach and in which
  \<open>running_\<close> is false. Whatever workers and clients do from then on, at most one more task is taken per
  worker that is inside \<open>take\<close> at this moment; all other tasks that are in the queue stay there for ever. If no
  worker is inside \<open>take\<close> and the queue is full, no \<open>put\<close> ever returns.
\<close>

theorem thread_pool_stop_drops:
  assumes "pool_step\<^sup>*\<^sup>* (pool_system cap num) x" and "\<not> tp_running (pl x)" and "pool_step\<^sup>*\<^sup>* x y"
  shows "\<exists>ts. taken y = taken x @ ts \<and> length ts \<le> card (inside_take x) \<and>
     (\<exists>q. Queue (pl y) = drop (length ts) (Queue (pl x)) @ q) \<and>
     (inside_take x = {} \<and> isFull_pool (pl x) \<longrightarrow> pl y = pl x \<and> pushed y = pushed x)"
proof -
  have "\<exists>ts. drops x ts y"
    using assms(3)
  proof (induction rule: rtranclp_induct)
    case base
    have "drops x [] x" using assms(2) finite_inside [OF assms(1)] by (simp add: drops_def)
    then show ?case by blast
  next
    case (step y z)
    then obtain ts where ts: "drops x ts y" by blast
    from drops_step [OF step(2)] ts obtain us where "drops y us z" by (auto simp: drops_def)
    with drops_trans [OF ts] show ?case by blast
  qed
  then show ?thesis unfolding drops_def by (metis add_leD1)
qed

theorem thread_pool_stop_drops_witness:
  "\<exists>q. Queue (pl (pool3\<lparr>ths := (ths pool3)(5 := PutAsleep 8)\<rparr>)) = [7] @ q \<and> pushed (pool3\<lparr>ths := (ths pool3)(5 := PutAsleep 8)\<rparr>) = [7]"
proof -
  have full: "isFull_pool (pl pool3)" "\<not> tp_running (pl pool3)" "inside_take pool3 = {}"
    by (simp_all add: isFull_pool_def u64_of_int_def pool3_def inside_take_def in_take_def)
  have "pool_step pool3 (pool3\<lparr>ths := (ths pool3)(5 := PutAsleep 8)\<rparr>)"
    by (rule put_sleeps) (use full in \<open>simp_all add: wants_put_def pool_put_def pool3_def\<close>)
  then have r: "pool_step\<^sup>*\<^sup>* pool3 (pool3\<lparr>ths := (ths pool3)(5 := PutAsleep 8)\<rparr>)" by (rule r_into_rtranclp)
  from thread_pool_stop_drops [OF reach_pool3 full(2) r] full show ?thesis by (auto simp: pool3_def)
qed

end
