(* ===== verification/Spec2Isabelle.thy ===== *)
theory Spec2Isabelle
  imports Time_Wheel Sched_Props Sched_Spec Sched_Times Channel Coroutine_Pool Co_Context Co_Sys_Call Co_Blocking Co_Calls Co_Net
    Sched_Registry Co_Stackless Log_Stream Async_Logging Logging_Front Threads Thread_Pool
begin

text \<open>
  Batonlib is a coroutine library for C++ on Linux. A thread has one scheduler; its event
  loop polls \<open>epoll\<close> and a timer wheel and resumes the coroutines whose descriptor is ready
  or whose deadline has passed. On top of it the library has condition variables, channels,
  a pool of worker coroutines, blocking system calls for coroutines, connections and a
  server. An asynchronous logger with its own threads stands beside it. This development
  models the sources under \<open>src/Batonlib\<close> and proves what they do.

  \<^bold>\<open>Theories and sources.\<close>

  \<^item> \<open>Baton_Prelude\<close>: pointers, the integer types, shared lemmas, and three locales. \<open>machine\<close> is
    the contract of every step relation here (an invariant that holds at the start and is
    kept by every step); it is interpreted for the scheduler, the blocking calls on
    it, the mutex, the start of a thread and the logger. \<open>bounded_fifo\<close> extends it by a bounded queue with its history; it is
    interpreted for the channel and for the thread pool. \<open>simulation\<close> extends \<open>machine\<close> by an
    abstract step relation and a relation between the states that every step keeps; it is
    interpreted for the scheduler and its specification.
  \<^item> \<open>Time_Link\<close>: the doubly linked lists of \<open>time_wheel.h\<close> on a heap of nodes (\<open>time_item\<close>,
    \<open>time_link\<close>, \<open>removeitem\<close>, the code that appends, pops and splices). \<open>dll\<close> and \<open>reps\<close> say which
    list of addresses a \<open>time_link\<close> stands for; every operation is shown to be the list
    operation it implements, without touching other lists.
  \<^item> \<open>Time_Wheel\<close>: \<open>time_wheel.cpp\<close> (\<open>add_timeout\<close>, \<open>take_all_timeout\<close>). \<open>wheel_ok\<close> relates the slots
    to the deadlines; sequences of polls hand out exactly the nodes that are due.
  \<^item> \<open>Co_Epoll\<close>, \<open>Scheduler\<close>, \<open>Co_Condition\<close>: \<open>co_epoll.cpp\<close>, \<open>coroutine.cpp\<close>, \<open>scheduler.cpp\<close>,
    \<open>co_condition.cpp\<close> as functions on one record \<open>sched\<close>. A call that gives up control is
    split at its \<open>yield()\<close>, and the locals of the frozen call are the continuation \<open>kont\<close> of
    the coroutine.
  \<^item> \<open>Sched_Waits\<close>, \<open>Sched_Machine\<close>, \<open>Sched_Props\<close>: the thread as a step relation over these
    functions, its invariant, and the properties of the scheduler. \<open>thread_step\<close> has the event loop and
    everything that coroutines may call, in any order and with any arguments. \<open>call_ok\<close> is what the library
    needs of its callers and does not check; \<open>step\<close> is \<open>thread_step\<close> under \<open>call_ok\<close> (\<open>step_iff\<close>), and the
    theorems that need it say so.
  \<^item> \<open>Sched_Spec\<close>: what a scheduler promises, without heap, lists, wheel or \<open>epoll\<close>: coroutines
    that sleep until an event or a deadline or wait on a condition, and one queue of ready ones
    with the results of their calls (\<open>aspec\<close>, \<open>astep\<close>). \<open>abs_rel\<close> relates a thread to it, and
    one lemma per step (\<open>sim_\<close>) shows that the code implements it.
  \<^item> \<open>Sched_Times\<close>: an invariant of the specification (\<open>spec_inv\<close>), which the simulation carries over
    to the thread: who is ready, with which result, and that no deadline is missed.
  \<^item> \<open>Co_Blocking\<close>: \<open>co_register\<close> and \<open>co_read\<close> split at the \<open>yield()\<close> of the scheduler, so that
    registry, table of sockets and scheduler are run together.
  \<^item> \<open>Co_Calls\<close>: all blocking calls of \<open>co_sys_call.cpp\<close> as resumptions (\<open>call\<close>): a call runs until it
    asks the scheduler to wait or the kernel for a system call, and goes on with the answer. The
    steps \<open>cstep\<close> run the calls of any number of coroutines on the thread of \<open>Sched_Machine\<close>.
  \<^item> \<open>Channel\<close>: \<open>channel.h\<close> over any condition variables that keep the contract of the locale
    \<open>cond_var\<close>; \<open>co_condition\<close> keeps it. \<open>Coroutine_Pool\<close>: \<open>coroutine_pool.cpp\<close>.
  \<^item> \<open>Co_Context\<close>: \<open>context_swap.S\<close> instruction by instruction, \<open>co_context.cpp\<close>, \<open>co_stack.cpp\<close>.
  \<^item> \<open>Co_Sys_Call\<close>, \<open>Co_Net\<close>: \<open>co_sys_call.cpp\<close>, \<open>net/connection.cpp\<close>, \<open>net/server.cpp\<close>. What the
    kernel answers is an argument. Whether the callbacks of a connection are set is part of its
    state, since calling an empty one throws (\<open>conn_error\<close>).
  \<^item> \<open>Sched_Registry\<close>: \<open>tool.cpp\<close> and the map from threads to schedulers, with the destructors
    of the scheduler, its wheel and its epoll wrapper. \<open>Co_Stackless\<close>:
    \<open>coroutine_stackless.h\<close> and \<open>coroutine_local.h\<close>.
  \<^item> \<open>Log_Stream\<close>, \<open>Async_Logging\<close>, \<open>Logging_Front\<close>: \<open>LogStream.cpp\<close>, \<open>AppendFile.cpp\<close>,
    \<open>LogFile.cpp\<close>, \<open>AsyncLogging.cpp\<close>, \<open>Logging.cpp\<close>, from the operators of the stream, each at the
    width of its type, to the start of the log thread by the first line of the process.
  \<^item> \<open>Threads\<close>, \<open>Thread_Pool\<close>: \<open>Mutex.cpp\<close>, \<open>Condition.cpp\<close>, \<open>CountDownLatch.cpp\<close>, \<open>Thread.cpp\<close>,
    \<open>CurrentThread.cpp\<close>, \<open>ThreadPool.cpp\<close>.

  \<^bold>\<open>What is shown.\<close> The scheduler implements its abstract specification
  step by step, and nobody overtakes in its queue of ready coroutines. As long as callers
  keep to \<open>call_ok\<close>, no step of the scheduler follows a null, dangling or
  uninitialised pointer, and callers that do not can make it do so; a round of the event
  loop wakes exactly the coroutines whose event or deadline has come, in order, and tells
  timeouts from events; no waiting coroutine is lost. A deadline that has passed at a poll
  is served before the next, and none is reported early. The blocking calls of several
  coroutines run interleaved on this scheduler, end after a bounded number of answers, and a
  write hands over a prefix of its text; \<open>co_read\<close> returns a timeout exactly
  when its deadline has passed. A broadcast wakes all waiters in order, as one signal for
  each of them does. The wheel fires every timer once, in order, at the first poll after its
  deadline. The context switch saves and restores what the calling convention asks for.
  Channels and the thread pool are bounded FIFO queues that lose no wake-up. A connection
  calls its callbacks in the right order and closes its socket. Log lines are written once
  and in order as long as the logger keeps up and the file takes whole lines. The first task
  given to a new pool of coroutines reaches worker 0, through channel, condition and event
  loop (below). The theorems also fix the conditions under which this holds, and what
  happens outside them: a deadline more than a turn after the last poll, a timeout of 0, a
  timeout of exactly a turn, a short write, a stop of the logger or of the pool, a second
  scheduler in a thread.

  \<^bold>\<open>Faults, bounds and fuel.\<close> A function returns an option or a sum where the C++ code can
  dereference a bad pointer, fail an assertion or deadlock. Loops along pointers are
  \<open>partial_function (option)\<close> and are shown to return on well-formed heaps; loops that depend
  on answers from outside recurse over the list of answers, so no fuel is needed. Times are
  64-bit words and the conversions to \<open>int\<close> are written out; the assumptions that keep them
  in range are \<open>time_ok\<close>, \<open>timeout_ok\<close> and \<open>fresh_sched\<close>. The wheel of the scheduler has 60000
  slots of a millisecond.

  \<^bold>\<open>Not modelled.\<close> The test programs \<open>Z*.cpp\<close>; the kernel, the C library, \<open>pthread\<close> and
  \<open>malloc\<close>, whose answers are arguments or whose documented behaviour is written into the
  steps (\<open>notify\<close>, \<open>mutex_lock\<close>); closing of files; the bodies of the callbacks and of the
  functions of coroutines, which belong to the user; the freeing of connections, which only
  returns memory to the allocator; \<open>co_setsockopt\<close>, whose body is empty; the declarations in
  headers of what other files define, and code that is commented out. The assertion of
  \<open>Condition::Wait\<close> is part of the model of the mutex, where it is shown that it can fail, and is left
  out where the latch and the thread pool wait. A task of the thread pool does not itself call the
  pool, and the size of its queue is set before \<open>start\<close>. The interleavings of the logger begin when \<open>start\<close> has
  returned and the file is open; what comes before is in \<open>thread_once_starts\<close>. The commented-out definition
  of \<open>LOG\<close> is taken as the use of \<open>Logging\<close>; the one in force is \<open>std::cout\<close>.
\<close>

section \<open>A task on its way through pool, channel, condition and scheduler\<close>

lemma resume_co_deque: "resume_co c s = Some (r, s') \<Longrightarrow> co_deque s' = co_deque s"
  by (auto simp: resume_co_def resume_def register_end_def wait_end_def on_heap_def mem_simps Let_def
      bind_eq_Some_conv split: kont.splits)

text \<open>\<open>run\<close> on an idle pool: the task is in the channel and the first worker is woken.\<close>

lemma run_task_idle:
  assumes "sched_inv m pc s" and "dll (hp s) (active_link (sch_epoll s)) A"
    and "pool_chan p = (new_channel 1 ke kf)\<lparr>ch_is_yield := True\<rparr>" and "co_deque s ke = e # rest"
  shows "\<exists>s1 c t. run_task f n p s = Some (Ret True,
       p\<lparr>pool_chan := (new_channel 1 ke kf)\<lparr>ch_queue := [\<lparr>t_func = Some f\<rparr>], ch_size := 1\<rparr>\<rparr>, s1) \<and>
     sched_inv m pc s1 \<and> susp s c = InWait ke e t \<and> susp s1 = susp s \<and>
     dll (hp s1) (active_link (sch_epoll s1)) (A @ [t]) \<and>
     co_deque s1 = (co_deque s)(ke := rest) \<and> co_call_stack s1 = co_call_stack s"
proof -
  from signal_inv [OF assms(1,4,2)] obtain c t s1 where s1: "co_cond_signal ke s = Some (1, s1)" "susp s c = InWait ke e t"
    "dll (hp s1) (active_link (sch_epoll s)) (A @ [t])" "co_deque s1 = (co_deque s)(ke := rest)" "awake s s1" by blast
  moreover have "sched_inv m pc s1" using step_signal [OF assms(1), of ke] s1(1) by auto
  ultimately show ?thesis
    using assms(3)
    by (intro exI [of _ s1] exI [of _ c] exI [of _ t])
      (simp add: run_task_def put_def new_channel_def new_task_def co_cv_def awake_def Let_def)
qed

text \<open>
  C8. A task reaches a worker. Let a thread, by calls that keep to \<open>call_ok\<close>, be in a state in which nothing
  is active, and let it make a pool of at least one worker, whose coroutines, records and
  conditions are new. Then the constructor succeeds, and \<open>coroutine_pool::run\<close> on this pool returns
  true at once; the next coroutine that the event loop resumes is worker 0, its \<open>get\<close> returns
  exactly this task and leaves the channel empty, and it calls the task's function with the index 0.
  It does not survive the \<open>delete\<close> of its local variable that follows.
\<close>

theorem pool_delivers:
  assumes "fresh_sched m a b slots now" and "thread_run (Sys Outside (new_scheduler m a b slots now)) tr (Sys pc s)"
    and "calls_ok tr" and "dll (hp s) (active_link (sch_epoll s)) []"
    and "\<forall>(c, n) \<in> set ws. cos s c = None \<and> unused n s" and "ws \<noteq> []"
    and "distinct (map fst ws)" "distinct (map (fst \<circ> snd) ws)" "distinct (map (snd \<circ> snd) ws)"
    and "ke \<noteq> kf" and "co_deque s ke = []" and "co_deque s kf = []"
  shows "\<exists>p s0 p1 s1 h s2 ch. new_pool ws ke kf s = Some (p, s0) \<and> run_task f n p s0 = Some (Ret True, p1, s1) \<and>
     loop_pop s1 = Some (fst (hd ws), s1\<lparr>hp := h\<rparr>) \<and> resume_co (fst (hd ws)) (s1\<lparr>hp := h\<rparr>) = Some (Some 1, s2) \<and>
     co_call_stack s2 = fst (hd ws) # co_call_stack s \<and>
     get co_cv n' (pool_chan p1) s2 = Some (Ret (Some \<lparr>t_func = Some f\<rparr>), ch, s2) \<and> ch_queue ch = [] \<and>
     coroutine_start (fst (hd ws)) (Some \<lparr>t_func = Some f\<rparr>) p1 = Some ([(f, 0)], False)"
proof -
  let ?ch = "(new_channel 1 ke kf)\<lparr>ch_queue := [\<lparr>t_func = Some f\<rparr>], ch_size := 1\<rparr>"
  obtain c e0 t0 ws' where ws: "ws = (c, e0, t0) # ws'" using assms(6) by (cases ws) auto
  have "sched_inv m pc s" using reachable_run [OF assms(1-3)] by simp
  from new_pool_workers [OF this assms(5,7-9,6,4), of ke kf] obtain p s0 where
    p: "new_pool ws ke kf s = Some (p, s0)" "sched_inv m pc s0" "pool_chan p = (new_channel 1 ke kf)\<lparr>ch_is_yield := True\<rparr>"
      "co_deque s0 = (co_deque s)(ke := co_deque s ke @ map (fst \<circ> snd) ws)"
      "\<forall>w \<in> set ws. susp s0 (fst w) = InWait ke (fst (snd w)) (snd (snd w))"
      "\<forall>j < length ws. pool_args p (fst (ws ! j)) = Some \<lparr>pa_index = int j\<rparr>"
      "co_call_stack s0 = co_call_stack s" "dll (hp s0) (active_link (sch_epoll s0)) []" by blast
  have q: "co_deque s0 ke = e0 # map (fst \<circ> snd) ws'" "susp s0 c = InWait ke e0 t0" "pool_args p c = Some \<lparr>pa_index = 0\<rparr>"
    using p(4-6) assms(11) ws by force+
  from run_task_idle [OF p(2,8,3) q(1), of f n] obtain s1 c1 t where
    s1: "run_task f n p s0 = Some (Ret True, p\<lparr>pool_chan := ?ch\<rparr>, s1)" "sched_inv m pc s1" "susp s0 c1 = InWait ke e0 t"
      "susp s1 = susp s0" "dll (hp s1) (active_link (sch_epoll s1)) [t]"
      "co_deque s1 = (co_deque s0)(ke := map (fst \<circ> snd) ws')" "co_call_stack s1 = co_call_stack s0" by auto
  from s1(2) obtain L A where "waits L A s1" by (auto simp: sched_inv_def)
  note recs = waitsD(1) [OF this [unfolded waits_def]]
  have t: "t = t0" using recs_inj(1) [OF recs, of c1 e0 t c e0 t0] q(2) s1(3,4) by auto
  from drain_round_inv [OF s1(2,5)] obtain c' e' h r s2 x where
    s2: "node_of (susp s1 c') = Some (e', t)" "loop_pop s1 = Some (c', s1\<lparr>hp := h\<rparr>)"
      "resume_co c' (s1\<lparr>hp := h\<rparr>) = Some (Some r, s2)" "co_call_stack s2 = c' # co_call_stack s1"
      "r = (case susp s1 c' of InRegister fd e t \<Rightarrow> if ei_is_timeout x then 1 else 0 | _ \<Rightarrow> 1)"
      "eitems s1 e' = Some x" by blast
  have c: "c' = c" using recs_inj(2) [OF recs s2(1), of c e0 t0] q(2) s1(4) t by simp
  have "r = 1" using s2(5) c q(2) s1(4) by simp
  moreover have "co_deque s2 kf = []" using resume_co_deque [OF s2(3)] s1(6) p(4) assms(10,12) by simp
  then have "get co_cv n' ?ch s2 = Some (Ret (Some \<lparr>t_func = Some f\<rparr>), ?ch\<lparr>ch_queue := [], ch_size := 0\<rparr>, s2)"
    by (simp add: get_def new_channel_def co_cv_def co_cond_signal_def Let_def)
  moreover have "coroutine_start c (Some \<lparr>t_func = Some f\<rparr>) (p\<lparr>pool_chan := ?ch\<rparr>) = Some ([(f, 0)], False)"
    using q(3) by (simp add: coroutine_start_def work_round_calls)
  ultimately show ?thesis
    using p(1,7) s1(1,7) s2(2,3,4) c ws
    by (intro exI [of _ p] exI [of _ s0] exI [of _ "p\<lparr>pool_chan := ?ch\<rparr>"] exI [of _ s1] exI [of _ h] exI [of _ s2]
        exI [of _ "?ch\<lparr>ch_queue := [], ch_size := 0\<rparr>"]) simp
qed

theorem pool_delivers_witness:
  "\<exists>p s0 p1 s1 h s2 ch. new_pool [(60, 70, 80), (61, 71, 81)] 30 31 run0 = Some (p, s0) \<and>
     run_task 7 (50, 51) p s0 = Some (Ret True, p1, s1) \<and> loop_pop s1 = Some (60, s1\<lparr>hp := h\<rparr>) \<and>
     resume_co 60 (s1\<lparr>hp := h\<rparr>) = Some (Some 1, s2) \<and>
     get co_cv (52, 53) (pool_chan p1) s2 = Some (Ret (Some \<lparr>t_func = Some 7\<rparr>), ch, s2) \<and>
     coroutine_start 60 (Some \<lparr>t_func = Some 7\<rparr>) p1 = Some ([(7, 0)], False)"
proof -
  let ?ws = "[(60, 70, 80), (61, 71, 81)] :: (addr \<times> addr \<times> addr) list"
  from steps_thread_run [OF reach0] obtain tr where tr: "thread_run (Sys Outside run0) tr (Sys Outside run0)" "calls_ok tr" by blast
  have start: "thread_run (Sys Outside (new_scheduler 1 2 3 slots0 5)) tr (Sys Outside run0)"
    using tr(1) by (simp only: run0_def)
  have A: "dll (hp run0) (active_link (sch_epoll run0)) []" using active0 by (simp add: run0)
  have ws: "\<forall>(c, n) \<in> set ?ws. cos run0 c = None \<and> unused n run0" "?ws \<noteq> []" "distinct (map fst ?ws)"
    "distinct (map (fst \<circ> snd) ?ws)" "distinct (map (snd \<circ> snd) ?ws)" by (simp_all add: run0 unused_def)
  have k: "(30 :: addr) \<noteq> 31" "co_deque run0 30 = []" "co_deque run0 31 = []" by (simp_all add: run0)
  from pool_delivers [OF fresh0 start tr(2) A ws k, of 7 "(50, 51)" "(52, 53)"]
  show ?thesis unfolding list.sel fst_conv by blast
qed

end
